(* ===== verification/Prelude.thy ===== *)
theory Prelude
  imports Main "HOL-Library.Word" "HOL-Library.Monad_Syntax" "HOL-Library.Multiset"
begin

text \<open>
  Shared vocabulary of the development: the machine types of the C code on x86-64, the
  error numbers it returns, pointers that may be null or poisoned, and the generic lemmas
  the component theories use.

  An operation that dereferences memory returns an \<open>option\<close>: \<^term>\<open>None\<close> is the
  undefined behaviour of the C code (a null, poisoned or freed address is read or written)
  or a loop that never ends. So every theorem that concludes \<open>op s = Some s'\<close> also says
  that the operation touches allocated memory only and that it returns.
\<close>

section \<open>Collections of facts\<close>

named_theorems heap_simps \<open>reads and writes of the list heap\<close>
named_theorems chain_simps \<open>frame rules of the chain predicates\<close>

section \<open>Machine types\<close>

type_synonym u8 = "8 word"
type_synonym u16 = "16 word"
type_synonym u32 = "32 word"
type_synonym u64 = "64 word"

text \<open>
  A C \<^verbatim>\<open>int\<close> is a HOL \<^typ>\<open>int\<close> in the range of 32 bits; arithmetic that can leave the
  range goes through \<open>cint\<close>, two's complement wrap-around (the kernel is compiled with
  \<^verbatim>\<open>-fno-strict-overflow\<close>, Makefile line 574).
\<close>

definition INT_MAX :: int where
  "INT_MAX = 2147483647"

definition INT_MIN :: int where
  "INT_MIN = - 2147483648"

definition cint :: "int \<Rightarrow> int" where
  "cint x = (x + 2147483648) mod 4294967296 - 2147483648"

definition in_cint :: "int \<Rightarrow> bool" where
  "in_cint x \<longleftrightarrow> INT_MIN \<le> x \<and> x \<le> INT_MAX"

lemma cint_id [simp]: "in_cint x \<Longrightarrow> cint x = x"
  by (simp add: cint_def in_cint_def INT_MIN_def INT_MAX_def)

lemma in_cint_cint [simp]: "in_cint (cint x)"
proof -
  have "0 \<le> (x + 2147483648) mod 4294967296" "(x + 2147483648) mod 4294967296 < 4294967296"
    by simp_all
  then show ?thesis
    by (simp add: cint_def in_cint_def INT_MIN_def INT_MAX_def)
qed

lemma cint_add: "cint (cint x + y) = cint (x + y)"
proof -
  have "((x + 2147483648) mod 4294967296 + y) mod 4294967296 = (x + 2147483648 + y) mod 4294967296"
    by (simp add: mod_add_left_eq)
  then show ?thesis by (simp add: cint_def algebra_simps)
qed

lemma cint_0 [simp]: "cint 0 = 0"
  by (simp add: cint_def)

lemma cint_Suc_max: "cint (INT_MAX + 1) = INT_MIN"
  by (simp add: cint_def INT_MIN_def INT_MAX_def)

section \<open>Error numbers (include/asm-generic/errno-base.h, include/linux/errno.h)\<close>

definition EPERM :: int where "EPERM = 1"
definition EINTR :: int where "EINTR = 4"
definition ESRCH :: int where "ESRCH = 3"
definition EAGAIN :: int where "EAGAIN = 11"
definition ENOMEM :: int where "ENOMEM = 12"
definition EFAULT :: int where "EFAULT = 14"
definition EBUSY :: int where "EBUSY = 16"
definition EINVAL :: int where "EINVAL = 22"
definition ENOSYS :: int where "ENOSYS = 38"
definition ETIME :: int where "ETIME = 62"
definition ERESTARTSYS :: int where "ERESTARTSYS = 512"

lemmas errno_defs = EPERM_def EINTR_def EAGAIN_def ENOMEM_def EFAULT_def EBUSY_def EINVAL_def
  ESRCH_def ENOSYS_def ETIME_def ERESTARTSYS_def

section \<open>Pointers\<close>

text \<open>
  A pointer is null, one of the two poison values that \<^verbatim>\<open>list_del\<close> leaves behind
  (include/linux/poison.h), or the address of an object. Addresses are abstract: a type
  \<^typ>\<open>'a\<close> whose elements name the objects, so that \<^verbatim>\<open>container_of\<close> is the inverse of
  taking the address of a member.
\<close>

datatype 'a ptr = NULL | LIST_POISON1 | LIST_POISON2 | Ptr 'a

definition rd :: "('a \<rightharpoonup> 'b) \<Rightarrow> 'a ptr \<Rightarrow> 'b option" where
  "rd m p = (case p of Ptr a \<Rightarrow> m a | _ \<Rightarrow> None)"

definition wr :: "('a \<rightharpoonup> 'b) \<Rightarrow> 'a ptr \<Rightarrow> 'b \<Rightarrow> ('a \<rightharpoonup> 'b) option" where
  "wr m p v = (case p of Ptr a \<Rightarrow> if m a = None then None else Some (m(a \<mapsto> v)) | _ \<Rightarrow> None)"

lemma rd_simps [simp]:
  "rd m (Ptr a) = m a" "rd m NULL = None" "rd m LIST_POISON1 = None" "rd m LIST_POISON2 = None"
  by (simp_all add: rd_def)

lemma wr_simps [simp]:
  "wr m NULL v = None" "wr m LIST_POISON1 v = None" "wr m LIST_POISON2 v = None"
  by (simp_all add: wr_def)

lemma wr_Ptr [simp]: "a \<in> dom m \<Longrightarrow> wr m (Ptr a) v = Some (m(a \<mapsto> v))"
  by (auto simp: wr_def)

lemma wr_SomeE:
  assumes "wr m p v = Some m'"
  obtains a where "p = Ptr a" "a \<in> dom m" "m' = m(a \<mapsto> v)"
  using assms by (auto simp: wr_def split: ptr.splits if_splits)

section \<open>Option monad and lists\<close>

lemma bind_SomeE:
  assumes "Option.bind m f = Some y"
  obtains x where "m = Some x" "f x = Some y"
  using assms by (cases m) auto

lemma distinct_snoc_iff [simp]: "distinct (xs @ [x]) \<longleftrightarrow> distinct xs \<and> x \<notin> set xs"
  by auto

lemma remove1_append_Cons: "x \<notin> set ys \<Longrightarrow> remove1 x (ys @ x # zs) = ys @ zs"
  by (simp add: remove1_append)

lemma split_list_distinct:
  assumes "x \<in> set xs" "distinct xs"
  obtains ys zs where "xs = ys @ x # zs" "x \<notin> set ys" "x \<notin> set zs"
proof -
  from assms(1) obtain ys zs where "xs = ys @ x # zs" by (auto dest: split_list)
  with assms(2) that show ?thesis by auto
qed

end
