(* ===== verification/Kernel_List.thy ===== *)
theory Kernel_List
  imports Prelude
begin

text \<open>
  The circular doubly linked lists of include/linux/list.h, with the checked insertion and
  deletion of lib/list_debug.c (the configuration of this kernel sets
  \<^verbatim>\<open>CONFIG_DEBUG_LIST\<close>). The two fields of \<^verbatim>\<open>struct list_head\<close> are two partial maps from
  node addresses; a node outside their domain is not allocated. The abstraction relation
  \<open>is_list h a xs\<close> reads a heap as the sequence \<open>xs\<close> of the nodes on the list of head
  \<open>a\<close>, and every operation is shown to implement the sequence operation of its
  specification and to leave disjoint lists alone.
\<close>

section \<open>Nodes and primitive accesses\<close>

record 'a lheap =
  nxt :: "'a \<rightharpoonup> 'a ptr"
  prv :: "'a \<rightharpoonup> 'a ptr"

definition set_next :: "'a lheap \<Rightarrow> 'a ptr \<Rightarrow> 'a ptr \<Rightarrow> 'a lheap option" where
  "set_next h p v = map_option (\<lambda>m. h\<lparr>nxt := m\<rparr>) (wr (nxt h) p v)"

definition set_prev :: "'a lheap \<Rightarrow> 'a ptr \<Rightarrow> 'a ptr \<Rightarrow> 'a lheap option" where
  "set_prev h p v = map_option (\<lambda>m. h\<lparr>prv := m\<rparr>) (wr (prv h) p v)"

text \<open>Allocated nodes have both fields.\<close>

definition node :: "'a lheap \<Rightarrow> 'a \<Rightarrow> bool" where
  "node h a \<longleftrightarrow> nxt h a \<noteq> None \<and> prv h a \<noteq> None"

definition mk_node :: "'a lheap \<Rightarrow> 'a \<Rightarrow> 'a ptr \<Rightarrow> 'a ptr \<Rightarrow> 'a lheap" where
  "mk_node h a n p = h\<lparr>nxt := (nxt h)(a \<mapsto> n), prv := (prv h)(a \<mapsto> p)\<rparr>"

definition free_node :: "'a lheap \<Rightarrow> 'a \<Rightarrow> 'a lheap" where
  "free_node h a = h\<lparr>nxt := (nxt h)(a := None), prv := (prv h)(a := None)\<rparr>"

section \<open>Operations\<close>

definition INIT_LIST_HEAD :: "'a lheap \<Rightarrow> 'a ptr \<Rightarrow> 'a lheap option" where
  "INIT_LIST_HEAD h l = do { h1 \<leftarrow> set_next h l l; set_prev h1 l l }"

text \<open>
  \<^verbatim>\<open>__list_add\<close> of lib/list_debug.c: the two \<^verbatim>\<open>WARN\<close>s read the neighbours and log, then the
  insertion goes on.
\<close>

definition list_add_between :: "'a lheap \<Rightarrow> 'a ptr \<Rightarrow> 'a ptr \<Rightarrow> 'a ptr \<Rightarrow> 'a lheap option" where
  "list_add_between h new p n = do {
     _ \<leftarrow> rd (prv h) n;
     _ \<leftarrow> rd (nxt h) p;
     h1 \<leftarrow> set_prev h n new;
     h2 \<leftarrow> set_next h1 new n;
     h3 \<leftarrow> set_prev h2 new p;
     set_next h3 p new }"

definition list_add_warns :: "'a lheap \<Rightarrow> 'a ptr \<Rightarrow> 'a ptr \<Rightarrow> bool" where
  "list_add_warns h p n \<longleftrightarrow> rd (prv h) n \<noteq> Some p \<or> rd (nxt h) p \<noteq> Some n"

definition list_add :: "'a lheap \<Rightarrow> 'a ptr \<Rightarrow> 'a ptr \<Rightarrow> 'a lheap option" where
  "list_add h new head = do { n \<leftarrow> rd (nxt h) head; list_add_between h new head n }"

definition list_add_tail :: "'a lheap \<Rightarrow> 'a ptr \<Rightarrow> 'a ptr \<Rightarrow> 'a lheap option" where
  "list_add_tail h new head = do { p \<leftarrow> rd (prv h) head; list_add_between h new p head }"

definition list_del_between :: "'a lheap \<Rightarrow> 'a ptr \<Rightarrow> 'a ptr \<Rightarrow> 'a lheap option" where
  "list_del_between h p n = do { h1 \<leftarrow> set_prev h n p; set_next h1 p n }"

definition list_del :: "'a lheap \<Rightarrow> 'a ptr \<Rightarrow> 'a lheap option" where
  "list_del h e = do {
     p \<leftarrow> rd (prv h) e;
     _ \<leftarrow> rd (nxt h) p;
     n \<leftarrow> rd (nxt h) e;
     _ \<leftarrow> rd (prv h) n;
     h1 \<leftarrow> list_del_between h p n;
     h2 \<leftarrow> set_next h1 e LIST_POISON1;
     set_prev h2 e LIST_POISON2 }"

definition list_replace :: "'a lheap \<Rightarrow> 'a ptr \<Rightarrow> 'a ptr \<Rightarrow> 'a lheap option" where
  "list_replace h old new = do {
     n \<leftarrow> rd (nxt h) old;
     h1 \<leftarrow> set_next h new n;
     n' \<leftarrow> rd (nxt h1) new;
     h2 \<leftarrow> set_prev h1 n' new;
     p \<leftarrow> rd (prv h2) old;
     h3 \<leftarrow> set_prev h2 new p;
     p' \<leftarrow> rd (prv h3) new;
     set_next h3 p' new }"

definition list_replace_init :: "'a lheap \<Rightarrow> 'a ptr \<Rightarrow> 'a ptr \<Rightarrow> 'a lheap option" where
  "list_replace_init h old new = do { h1 \<leftarrow> list_replace h old new; INIT_LIST_HEAD h1 old }"

definition list_del_init :: "'a lheap \<Rightarrow> 'a ptr \<Rightarrow> 'a lheap option" where
  "list_del_init h e = do {
     p \<leftarrow> rd (prv h) e;
     n \<leftarrow> rd (nxt h) e;
     h1 \<leftarrow> list_del_between h p n;
     INIT_LIST_HEAD h1 e }"

definition list_move :: "'a lheap \<Rightarrow> 'a ptr \<Rightarrow> 'a ptr \<Rightarrow> 'a lheap option" where
  "list_move h l head = do {
     p \<leftarrow> rd (prv h) l;
     n \<leftarrow> rd (nxt h) l;
     h1 \<leftarrow> list_del_between h p n;
     list_add h1 l head }"

definition list_move_tail :: "'a lheap \<Rightarrow> 'a ptr \<Rightarrow> 'a ptr \<Rightarrow> 'a lheap option" where
  "list_move_tail h l head = do {
     p \<leftarrow> rd (prv h) l;
     n \<leftarrow> rd (nxt h) l;
     h1 \<leftarrow> list_del_between h p n;
     list_add_tail h1 l head }"

definition list_is_last :: "'a lheap \<Rightarrow> 'a ptr \<Rightarrow> 'a ptr \<Rightarrow> bool option" where
  "list_is_last h l head = do { n \<leftarrow> rd (nxt h) l; Some (n = head) }"

definition list_empty :: "'a lheap \<Rightarrow> 'a ptr \<Rightarrow> bool option" where
  "list_empty h head = do { n \<leftarrow> rd (nxt h) head; Some (n = head) }"

definition list_empty_careful :: "'a lheap \<Rightarrow> 'a ptr \<Rightarrow> bool option" where
  "list_empty_careful h head = do {
     n \<leftarrow> rd (nxt h) head;
     if n = head then do { p \<leftarrow> rd (prv h) head; Some (n = p) } else Some False }"

definition list_is_singular :: "'a lheap \<Rightarrow> 'a ptr \<Rightarrow> bool option" where
  "list_is_singular h head = do {
     e \<leftarrow> list_empty h head;
     if e then Some False
     else do { n \<leftarrow> rd (nxt h) head; p \<leftarrow> rd (prv h) head; Some (n = p) } }"

definition list_cut_position_raw ::
  "'a lheap \<Rightarrow> 'a ptr \<Rightarrow> 'a ptr \<Rightarrow> 'a ptr \<Rightarrow> 'a lheap option" where
  "list_cut_position_raw h l head entry = do {
     new_first \<leftarrow> rd (nxt h) entry;
     n \<leftarrow> rd (nxt h) head;
     h1 \<leftarrow> set_next h l n;
     n' \<leftarrow> rd (nxt h1) l;
     h2 \<leftarrow> set_prev h1 n' l;
     h3 \<leftarrow> set_prev h2 l entry;
     h4 \<leftarrow> set_next h3 entry l;
     h5 \<leftarrow> set_next h4 head new_first;
     set_prev h5 new_first head }"

definition list_cut_position ::
  "'a lheap \<Rightarrow> 'a ptr \<Rightarrow> 'a ptr \<Rightarrow> 'a ptr \<Rightarrow> 'a lheap option" where
  "list_cut_position h l head entry = do {
     e \<leftarrow> list_empty h head;
     if e then Some h
     else do {
       sg \<leftarrow> list_is_singular h head;
       n \<leftarrow> rd (nxt h) head;
       if sg \<and> n \<noteq> entry \<and> head \<noteq> entry then Some h
       else if entry = head then INIT_LIST_HEAD h l
       else list_cut_position_raw h l head entry } }"

definition list_splice_between :: "'a lheap \<Rightarrow> 'a ptr \<Rightarrow> 'a ptr \<Rightarrow> 'a ptr \<Rightarrow> 'a lheap option" where
  "list_splice_between h l p n = do {
     first \<leftarrow> rd (nxt h) l;
     last \<leftarrow> rd (prv h) l;
     h1 \<leftarrow> set_prev h first p;
     h2 \<leftarrow> set_next h1 p first;
     h3 \<leftarrow> set_next h2 last n;
     set_prev h3 n last }"

definition list_splice :: "'a lheap \<Rightarrow> 'a ptr \<Rightarrow> 'a ptr \<Rightarrow> 'a lheap option" where
  "list_splice h l head = do {
     e \<leftarrow> list_empty h l;
     if e then Some h
     else do { n \<leftarrow> rd (nxt h) head; list_splice_between h l head n } }"

definition list_splice_tail :: "'a lheap \<Rightarrow> 'a ptr \<Rightarrow> 'a ptr \<Rightarrow> 'a lheap option" where
  "list_splice_tail h l head = do {
     e \<leftarrow> list_empty h l;
     if e then Some h
     else do { p \<leftarrow> rd (prv h) head; list_splice_between h l p head } }"

definition list_splice_init :: "'a lheap \<Rightarrow> 'a ptr \<Rightarrow> 'a ptr \<Rightarrow> 'a lheap option" where
  "list_splice_init h l head = do {
     e \<leftarrow> list_empty h l;
     if e then Some h
     else do {
       n \<leftarrow> rd (nxt h) head;
       h1 \<leftarrow> list_splice_between h l head n;
       INIT_LIST_HEAD h1 l } }"

definition list_splice_tail_init :: "'a lheap \<Rightarrow> 'a ptr \<Rightarrow> 'a ptr \<Rightarrow> 'a lheap option" where
  "list_splice_tail_init h l head = do {
     e \<leftarrow> list_empty h l;
     if e then Some h
     else do {
       p \<leftarrow> rd (prv h) head;
       h1 \<leftarrow> list_splice_between h l p head;
       INIT_LIST_HEAD h1 l } }"

text \<open>
  \<^verbatim>\<open>list_for_each\<close>: the body sees the node and the loop's local state and says whether it
  breaks. The heap is not changed by the body (the bodies that use this form only read).
  On a heap that is not a list the loop may never come back to the head.
\<close>

partial_function (option) list_for_each_from ::
  "'a lheap \<Rightarrow> 'a \<Rightarrow> ('a \<Rightarrow> 's \<Rightarrow> (bool \<times> 's) option) \<Rightarrow> 'a ptr \<Rightarrow> 's \<Rightarrow> 's option" where
  "list_for_each_from h head body pos s =
     Option.bind (rd (nxt h) pos) (\<lambda>n.
       case pos of
         Ptr a \<Rightarrow>
           if a = head then Some s
           else Option.bind (body a s) (\<lambda>r.
             if fst r then Some (snd r) else list_for_each_from h head body n (snd r))
       | _ \<Rightarrow> None)"

definition list_for_each ::
  "'a lheap \<Rightarrow> 'a \<Rightarrow> ('a \<Rightarrow> 's \<Rightarrow> (bool \<times> 's) option) \<Rightarrow> 's \<Rightarrow> 's option" where
  "list_for_each h head body s = do {
     pos \<leftarrow> rd (nxt h) (Ptr head);
     list_for_each_from h head body pos s }"

section \<open>Heaps as sequences\<close>

definition linked :: "'a lheap \<Rightarrow> 'a \<Rightarrow> 'a \<Rightarrow> bool" where
  "linked h a b \<longleftrightarrow> nxt h a = Some (Ptr b) \<and> prv h b = Some (Ptr a)"

fun chain :: "'a lheap \<Rightarrow> 'a \<Rightarrow> 'a list \<Rightarrow> 'a \<Rightarrow> bool" where
  "chain h a [] b = linked h a b"
| "chain h a (x # xs) b = (linked h a x \<and> chain h x xs b)"

definition is_list :: "'a lheap \<Rightarrow> 'a \<Rightarrow> 'a list \<Rightarrow> bool" where
  "is_list h a xs \<longleftrightarrow> distinct (a # xs) \<and> chain h a xs a"

text \<open>What an operation may change: the fields of the nodes in \<open>S\<close>, and no allocation.\<close>

definition frame :: "'a lheap \<Rightarrow> 'a lheap \<Rightarrow> 'a set \<Rightarrow> bool" where
  "frame h h' S \<longleftrightarrow>
     (\<forall>c. c \<notin> S \<longrightarrow> nxt h' c = nxt h c \<and> prv h' c = prv h c) \<and> (\<forall>c. node h' c = node h c)"

lemma chain_append [chain_simps]:
  "chain h a (xs @ y # ys) b \<longleftrightarrow> chain h a xs y \<and> chain h y ys b"
  by (induction xs arbitrary: a) auto

lemma chain_nxt_upd [chain_simps]:
  "c \<noteq> a \<Longrightarrow> c \<notin> set xs \<Longrightarrow> chain (h\<lparr>nxt := (nxt h)(c := v)\<rparr>) a xs b = chain h a xs b"
  by (induction xs arbitrary: a) (auto simp: linked_def)

lemma chain_prv_upd [chain_simps]:
  "c \<noteq> b \<Longrightarrow> c \<notin> set xs \<Longrightarrow> chain (h\<lparr>prv := (prv h)(c := v)\<rparr>) a xs b = chain h a xs b"
  by (induction xs arbitrary: a) (auto simp: linked_def)

lemma chain_cong:
  assumes "\<And>c. c \<in> set (a # xs) \<Longrightarrow> nxt h' c = nxt h c"
    and "\<And>c. c \<in> set (xs @ [b]) \<Longrightarrow> prv h' c = prv h c"
  shows "chain h' a xs b = chain h a xs b"
  using assms by (induction xs arbitrary: a) (auto simp: linked_def)

lemma chain_nxt_first: "chain h a xs b \<Longrightarrow> nxt h a = Some (Ptr (hd (xs @ [b])))"
  by (cases xs) (auto simp: linked_def)

lemma chain_prv_last: "chain h a xs b \<Longrightarrow> prv h b = Some (Ptr (last (a # xs)))"
  by (induction xs arbitrary: a) (auto simp: linked_def)

lemma chain_node: "chain h a xs b \<Longrightarrow> x \<in> set xs \<Longrightarrow> node h x"
proof (induction xs arbitrary: a)
  case (Cons y xs)
  then show ?case
    by (cases xs) (auto simp: linked_def node_def)
qed simp

lemma is_list_node: "is_list h a xs \<Longrightarrow> x \<in> set (a # xs) \<Longrightarrow> node h x"
  by (auto simp: is_list_def node_def dest: chain_node chain_nxt_first chain_prv_last)

lemma is_list_distinct: "is_list h a xs \<Longrightarrow> distinct xs \<and> a \<notin> set xs"
  by (simp add: is_list_def)

lemma is_list_first: "is_list h a xs \<Longrightarrow> nxt h a = Some (Ptr (hd (xs @ [a])))"
  by (auto simp: is_list_def dest: chain_nxt_first)

lemma is_list_last: "is_list h a xs \<Longrightarrow> prv h a = Some (Ptr (last (a # xs)))"
  by (auto simp: is_list_def dest: chain_prv_last)

lemma is_list_nth_next:
  assumes "is_list h a (ys @ x # zs)"
  shows "nxt h x = Some (Ptr (hd (zs @ [a])))" and "prv h x = Some (Ptr (last (a # ys)))"
  using assms
  by (auto simp: is_list_def chain_simps dest: chain_nxt_first chain_prv_last)

lemma frame_refl [simp]: "frame h h S"
  by (simp add: frame_def)

lemma frame_trans: "frame h h' S \<Longrightarrow> frame h' h'' T \<Longrightarrow> frame h h'' (S \<union> T)"
  by (simp add: frame_def)

lemma frame_mono: "frame h h' S \<Longrightarrow> S \<subseteq> T \<Longrightarrow> frame h h' T"
  by (auto simp: frame_def)

lemma frame_node: "frame h h' S \<Longrightarrow> node h' c = node h c"
  by (simp add: frame_def)

lemma is_list_frame:
  assumes "frame h h' S" "S \<inter> set (a # xs) = {}"
  shows "is_list h' a xs = is_list h a xs"
proof -
  from assms have "\<And>c. c \<in> set (a # xs) \<Longrightarrow> nxt h' c = nxt h c \<and> prv h' c = prv h c"
    by (auto simp: frame_def)
  then show ?thesis
    unfolding is_list_def by (subst chain_cong [of a xs h' h a]) auto
qed

text \<open>A heap determines the sequence of a list head.\<close>

lemma chain_unique:
  "chain h a xs b \<Longrightarrow> chain h a ys b \<Longrightarrow> b \<notin> set xs \<Longrightarrow> b \<notin> set ys \<Longrightarrow> xs = ys"
proof (induction xs arbitrary: a ys)
  case Nil
  then show ?case by (cases ys) (auto simp: linked_def)
next
  case (Cons x xs)
  then show ?case by (cases ys) (auto simp: linked_def)
qed

lemma is_list_unique: "is_list h a xs \<Longrightarrow> is_list h a ys \<Longrightarrow> xs = ys"
  by (auto simp: is_list_def intro: chain_unique)

text \<open>Two lists with different heads share no node.\<close>

lemma chain_closed:
  assumes "chain h x zs b" "x \<in> S" "\<And>c. c \<in> S \<Longrightarrow> \<exists>d \<in> S. nxt h c = Some (Ptr d)"
  shows "set zs \<subseteq> S \<and> b \<in> S"
  using assms(1,2)
proof (induction zs arbitrary: x)
  case Nil
  then show ?case using assms(3) [of x] by (auto simp: linked_def)
next
  case (Cons z zs)
  then have "z \<in> S" using assms(3) [of x] by (auto simp: linked_def)
  then show ?case using Cons by auto
qed

lemma is_list_closed:
  assumes "is_list h a xs" "c \<in> set (a # xs)"
  shows "\<exists>d \<in> set (a # xs). nxt h c = Some (Ptr d)"
proof (cases "c = a")
  case True
  then show ?thesis using is_list_first [OF assms(1)] by (cases xs) auto
next
  case False
  then obtain ys zs where xs: "xs = ys @ c # zs" using assms(2) split_list by fastforce
  then have "nxt h c = Some (Ptr (hd (zs @ [a])))" using assms(1) is_list_nth_next(1) by metis
  then show ?thesis using xs by (cases zs) auto
qed

lemma is_list_disjoint:
  assumes a: "is_list h a xs" and b: "is_list h b ys" and ab: "b \<notin> set (a # xs)"
  shows "set (a # xs) \<inter> set (b # ys) = {}"
proof (rule ccontr)
  assume "set (a # xs) \<inter> set (b # ys) \<noteq> {}"
  then obtain x where x: "x \<in> set (a # xs)" "x \<in> set ys" using ab by auto
  then obtain us vs where "ys = us @ x # vs" by (auto dest: split_list)
  then have "chain h x vs b" using b by (simp add: is_list_def chain_simps)
  then have "b \<in> set (a # xs)" using chain_closed [of h x vs b "set (a # xs)"] x is_list_closed [OF a] by blast
  then show False using ab by simp
qed

text \<open>Freeing a node that is not on a list leaves the list alone.\<close>

lemma is_list_free_node:
  assumes "c \<notin> set (a # xs)"
  shows "is_list (free_node h c) a xs = is_list h a xs"
  unfolding is_list_def
  by (subst chain_cong [of a xs "free_node h c" h a]) (use assms in \<open>auto simp: free_node_def\<close>)

lemma is_list_mk_node:
  assumes "c \<notin> set (a # xs)"
  shows "is_list (mk_node h c n p) a xs = is_list h a xs"
  unfolding is_list_def
  by (subst chain_cong [of a xs "mk_node h c n p" h a]) (use assms in \<open>auto simp: mk_node_def\<close>)

lemma node_mk_node [simp]: "node (mk_node h c n p) d \<longleftrightarrow> d = c \<or> node h d"
  by (auto simp: node_def mk_node_def)

section \<open>Insertion\<close>

definition insert_heap :: "'a lheap \<Rightarrow> 'a \<Rightarrow> 'a \<Rightarrow> 'a \<Rightarrow> 'a lheap" where
  "insert_heap h new p n =
     h\<lparr>nxt := (nxt h)(new \<mapsto> Ptr n, p \<mapsto> Ptr new),
       prv := (prv h)(n \<mapsto> Ptr new, new \<mapsto> Ptr p)\<rparr>"

lemma set_next_Ptr [simp]: "a \<in> dom (nxt h) \<Longrightarrow> set_next h (Ptr a) v = Some (h\<lparr>nxt := (nxt h)(a \<mapsto> v)\<rparr>)"
  by (simp add: set_next_def)

lemma set_prev_Ptr [simp]: "a \<in> dom (prv h) \<Longrightarrow> set_prev h (Ptr a) v = Some (h\<lparr>prv := (prv h)(a \<mapsto> v)\<rparr>)"
  by (simp add: set_prev_def)

lemma nodeE:
  assumes "node h a"
  obtains n p where "nxt h a = Some n" "prv h a = Some p"
  using assms by (auto simp: node_def)

lemma list_add_between_eq:
  assumes "node h new" "node h p" "node h n"
  shows "list_add_between h (Ptr new) (Ptr p) (Ptr n) = Some (insert_heap h new p n)"
proof -
  have d: "new \<in> dom (nxt h)" "new \<in> dom (prv h)" "p \<in> dom (nxt h)" "n \<in> dom (prv h)"
    using assms by (auto simp: node_def)
  obtain v w where "prv h n = Some v" "nxt h p = Some w" using d by auto
  with d show ?thesis
    by (simp add: list_add_between_def insert_heap_def)
qed

lemma insert_heap_frame:
  "node h new \<Longrightarrow> node h p \<Longrightarrow> node h n \<Longrightarrow> frame h (insert_heap h new p n) {new, p, n}"
  by (auto simp: frame_def insert_heap_def node_def)

lemma insert_heap_list:
  assumes l: "is_list h a (ys @ zs)" and new: "new \<notin> set (a # ys @ zs)"
  shows "is_list (insert_heap h new (last (a # ys)) (hd (zs @ [a]))) a (ys @ new # zs)"
proof -
  let ?p = "last (a # ys)" and ?n = "hd (zs @ [a])"
  have d: "distinct (a # ys @ new # zs)" using l new by (auto simp: is_list_def)
  have c: "chain h a (ys @ zs) a" using l by (simp add: is_list_def)
  have "chain (insert_heap h new ?p ?n) a ys new"
  proof (cases ys rule: rev_cases)
    case Nil
    then show ?thesis using d by (auto simp: insert_heap_def linked_def)
  next
    case (snoc ys' y)
    have "chain h a ys' y" using c snoc by (cases zs) (auto simp: chain_simps)
    then have "chain (insert_heap h new ?p ?n) a ys' y"
      using d snoc by (subst chain_cong [where h = h]) (cases zs; auto simp: insert_heap_def)+
    then show ?thesis using d snoc by (cases zs) (auto simp: chain_simps insert_heap_def linked_def)
  qed
  moreover have "chain (insert_heap h new ?p ?n) new zs a"
  proof (cases zs)
    case Nil
    then show ?thesis using d by (auto simp: insert_heap_def linked_def)
  next
    case (Cons z zs')
    have "chain h z zs' a" using c Cons by (auto simp: chain_simps)
    then have "chain (insert_heap h new ?p ?n) z zs' a"
      using d Cons by (subst chain_cong [where h = h]) (cases ys rule: rev_cases; auto simp: insert_heap_def)+
    then show ?thesis using d Cons by (auto simp: insert_heap_def linked_def)
  qed
  ultimately show ?thesis using d by (simp add: is_list_def chain_append)
qed

lemma list_add_spec:
  assumes l: "is_list h a xs" and nd: "node h new" and new: "new \<notin> set (a # xs)"
  shows "\<exists>h'. list_add h (Ptr new) (Ptr a) = Some h' \<and> is_list h' a (new # xs)
    \<and> frame h h' (set (new # a # xs))"
proof -
  let ?n = "hd (xs @ [a])"
  have n: "?n \<in> set (a # xs)" by (cases xs) auto
  have nodes: "node h a" "node h ?n" using is_list_node [OF l] n by auto
  have "list_add h (Ptr new) (Ptr a) = Some (insert_heap h new a ?n)"
    using is_list_first [OF l] list_add_between_eq [OF nd nodes] by (simp add: list_add_def)
  moreover have "is_list (insert_heap h new a ?n) a (new # xs)"
    using insert_heap_list [of h a "[]" xs new] l new by simp
  moreover have "frame h (insert_heap h new a ?n) (set (new # a # xs))"
    using insert_heap_frame [OF nd nodes] by (rule frame_mono) (use n in auto)
  ultimately show ?thesis by blast
qed

lemma list_add_tail_spec:
  assumes l: "is_list h a xs" and nd: "node h new" and new: "new \<notin> set (a # xs)"
  shows "\<exists>h'. list_add_tail h (Ptr new) (Ptr a) = Some h' \<and> is_list h' a (xs @ [new])
    \<and> frame h h' (set (new # a # xs))"
proof -
  let ?p = "last (a # xs)"
  have p: "?p \<in> set (a # xs)" by simp
  have nodes: "node h ?p" "node h a" using is_list_node [OF l] p by auto
  have "list_add_tail h (Ptr new) (Ptr a) = Some (insert_heap h new ?p a)"
    using is_list_last [OF l] list_add_between_eq [OF nd nodes] by (simp add: list_add_tail_def)
  moreover have "is_list (insert_heap h new ?p a) a (xs @ [new])"
    using insert_heap_list [of h a xs "[]" new] l new by simp
  moreover have "frame h (insert_heap h new ?p a) (set (new # a # xs))"
    using insert_heap_frame [OF nd nodes] by (rule frame_mono) (use p in auto)
  ultimately show ?thesis by blast
qed

section \<open>Segments\<close>

text \<open>
  A segment is the inside of a list: the links between its consecutive nodes. The operations
  change only the links that enter and leave segments, so a segment survives any change to
  the \<open>prv\<close> of its first and the \<open>nxt\<close> of its last node.
\<close>

fun seg :: "'a lheap \<Rightarrow> 'a list \<Rightarrow> bool" where
  "seg h [] = True"
| "seg h [x] = True"
| "seg h (x # y # r) = (linked h x y \<and> seg h (y # r))"

lemma seg_Cons: "seg h (x # xs) \<longleftrightarrow> (xs \<noteq> [] \<longrightarrow> linked h x (hd xs)) \<and> seg h xs"
  by (cases xs) auto

lemma seg_append:
  "seg h (xs @ ys) \<longleftrightarrow> seg h xs \<and> seg h ys \<and> (xs \<noteq> [] \<longrightarrow> ys \<noteq> [] \<longrightarrow> linked h (last xs) (hd ys))"
  by (induction xs) (auto simp: seg_Cons)

lemma chain_seg: "chain h a xs b \<longleftrightarrow> seg h (a # xs) \<and> linked h (last (a # xs)) b"
  by (induction xs arbitrary: a) (auto simp: seg_Cons)

lemma is_list_seg:
  "is_list h a xs \<longleftrightarrow> distinct (a # xs) \<and> seg h (a # xs) \<and> linked h (last (a # xs)) a"
  by (simp add: is_list_def chain_seg)

lemma seg_cong:
  assumes "seg h xs" "\<And>c. c \<in> set (butlast xs) \<Longrightarrow> nxt h' c = nxt h c"
    and "\<And>c. c \<in> set (tl xs) \<Longrightarrow> prv h' c = prv h c"
  shows "seg h' xs"
  using assms
proof (induction xs rule: seg.induct)
  case (3 h x y r)
  then show ?case by (cases r) (auto simp: linked_def)
qed auto

lemma butlast_not_last: "distinct xs \<Longrightarrow> c \<in> set (butlast xs) \<Longrightarrow> c \<noteq> last xs"
  by (cases xs rule: rev_cases) auto

lemma tl_not_hd: "distinct xs \<Longrightarrow> c \<in> set (tl xs) \<Longrightarrow> c \<noteq> hd xs"
  by (cases xs) auto

lemma seg_relinked:
  assumes "seg h xs" "distinct xs"
    and "\<And>c. c \<in> set xs \<Longrightarrow> c \<noteq> last xs \<Longrightarrow> nxt h' c = nxt h c"
    and "\<And>c. c \<in> set xs \<Longrightarrow> c \<noteq> hd xs \<Longrightarrow> prv h' c = prv h c"
  shows "seg h' xs"
proof (rule seg_cong [OF assms(1)])
  fix c assume "c \<in> set (butlast xs)"
  then show "nxt h' c = nxt h c" using assms(2,3) butlast_not_last in_set_butlastD by metis
next
  fix c assume c: "c \<in> set (tl xs)"
  then have "c \<in> set xs" by (cases xs) auto
  with c show "prv h' c = prv h c" using assms(2,4) tl_not_hd by metis
qed

section \<open>Deletion\<close>

definition remove_heap :: "'a lheap \<Rightarrow> 'a \<Rightarrow> 'a \<Rightarrow> 'a lheap" where
  "remove_heap h p n = h\<lparr>nxt := (nxt h)(p \<mapsto> Ptr n), prv := (prv h)(n \<mapsto> Ptr p)\<rparr>"

lemma list_del_between_eq:
  assumes "node h p" "node h n"
  shows "list_del_between h (Ptr p) (Ptr n) = Some (remove_heap h p n)"
proof -
  have "p \<in> dom (nxt h)" "n \<in> dom (prv h)" using assms by (auto simp: node_def)
  then show ?thesis by (simp add: list_del_between_def remove_heap_def)
qed

lemma remove_heap_frame: "node h p \<Longrightarrow> node h n \<Longrightarrow> frame h (remove_heap h p n) {p, n}"
  by (auto simp: frame_def remove_heap_def node_def)

lemma remove_heap_list:
  assumes "is_list h a (ys @ e # zs)"
  shows "is_list (remove_heap h (last (a # ys)) (hd (zs @ [a]))) a (ys @ zs)"
proof -
  let ?p = "last (a # ys)" and ?n = "hd (zs @ [a])"
  let ?h = "remove_heap h ?p ?n"
  have d: "distinct ((a # ys) @ e # zs)" using assms by (simp add: is_list_def)
  have s: "seg h (a # ys)" "seg h zs" and l: "zs \<noteq> [] \<Longrightarrow> linked h (last zs) a"
    using assms seg_append [of h "a # ys" "e # zs"] by (auto simp: is_list_seg seg_Cons [of h e])
  have pin: "?p \<in> set (a # ys)" by simp
  have s1: "seg ?h (a # ys)"
    by (rule seg_relinked [OF s(1)]) (use d in \<open>cases zs; auto simp: remove_heap_def\<close>)+
  have s2: "seg ?h zs"
    by (rule seg_relinked [OF s(2)]) (use d pin in \<open>cases zs; auto simp: remove_heap_def\<close>)+
  have lk: "linked ?h ?p ?n" by (simp add: linked_def remove_heap_def)
  have cl: "linked ?h (last zs) a" if "zs \<noteq> []"
  proof -
    have "last zs \<in> set zs" using that by simp
    then have "last zs \<noteq> ?p" "a \<noteq> ?n" using d pin that by (cases zs; force)+
    then show ?thesis using l [OF that] by (simp add: linked_def remove_heap_def)
  qed
  show ?thesis
  proof (cases "zs = []")
    case True
    then show ?thesis using d s1 lk by (simp add: is_list_seg)
  next
    case False
    then have "seg ?h ((a # ys) @ zs)" using s1 s2 lk unfolding seg_append by simp
    moreover have "last (a # ys @ zs) = last zs" using False by simp
    ultimately show ?thesis using d cl False unfolding is_list_seg by auto
  qed
qed

lemma list_neighbours:
  assumes "is_list h a (ys @ e # zs)"
  shows "nxt h e = Some (Ptr (hd (zs @ [a])))" "prv h e = Some (Ptr (last (a # ys)))"
    "node h e" "node h (last (a # ys))" "node h (hd (zs @ [a]))"
    "last (a # ys) \<noteq> e" "hd (zs @ [a]) \<noteq> e"
    "last (a # ys) \<in> set (a # ys @ e # zs)" "hd (zs @ [a]) \<in> set (a # ys @ e # zs)"
proof -
  show p: "last (a # ys) \<in> set (a # ys @ e # zs)" by simp
  show n: "hd (zs @ [a]) \<in> set (a # ys @ e # zs)" by (cases zs) auto
  show "nxt h e = Some (Ptr (hd (zs @ [a])))" "prv h e = Some (Ptr (last (a # ys)))"
    using is_list_nth_next [OF assms] by simp_all
  show "node h e" "node h (last (a # ys))" "node h (hd (zs @ [a]))"
    using is_list_node [OF assms] p n by auto
  have d: "distinct (a # ys @ e # zs)" using assms by (simp add: is_list_def)
  show "hd (zs @ [a]) \<noteq> e" using d by (cases zs) auto
  show "last (a # ys) \<noteq> e" using d by auto
qed

lemma list_del_init_spec_at:
  assumes l: "is_list h a (ys @ e # zs)"
  shows "\<exists>h'. list_del_init h (Ptr e) = Some h' \<and> is_list h' a (ys @ zs) \<and> is_list h' e []
    \<and> frame h h' (set (a # ys @ e # zs))"
proof -
  define p n where "p = last (a # ys)" and "n = hd (zs @ [a])"
  let ?h1 = "remove_heap h p n"
  let ?h2 = "?h1\<lparr>nxt := (nxt ?h1)(e \<mapsto> Ptr e), prv := (prv ?h1)(e \<mapsto> Ptr e)\<rparr>"
  note nb = list_neighbours [OF l, folded p_def n_def]
  have dom: "e \<in> dom (nxt ?h1)" "e \<in> dom (prv ?h1)"
    using nb(1,2) by (auto simp: remove_heap_def)
  have "list_del_init h (Ptr e) = Some ?h2"
    using nb(1,2) dom by (simp add: list_del_init_def list_del_between_eq [OF nb(4,5)] INIT_LIST_HEAD_def)
  moreover have f: "frame ?h1 ?h2 {e}" using dom by (auto simp: frame_def node_def)
  moreover have "e \<notin> set (a # ys @ zs)" using l by (auto simp: is_list_def)
  then have "is_list ?h2 a (ys @ zs)"
    using is_list_frame [OF f] remove_heap_list [OF l, folded p_def n_def] by blast
  moreover have "is_list ?h2 e []" by (simp add: is_list_def linked_def)
  moreover have "frame h ?h2 (set (a # ys @ e # zs))"
    by (rule frame_mono [OF frame_trans [OF remove_heap_frame [OF nb(4,5)] f]]) (use nb(8,9) in auto)
  ultimately show ?thesis by blast
qed

lemma list_del_init_spec:
  assumes l: "is_list h a xs" and e: "e \<in> set xs"
  shows "\<exists>h'. list_del_init h (Ptr e) = Some h' \<and> is_list h' a (remove1 e xs) \<and> is_list h' e []
    \<and> frame h h' (set (a # xs))"
proof -
  from l e obtain ys zs where "xs = ys @ e # zs" "e \<notin> set ys"
    using is_list_distinct split_list_distinct by metis
  then show ?thesis using list_del_init_spec_at [of h a ys e zs] l by (simp add: remove1_append_Cons)
qed

text \<open>\<^verbatim>\<open>list_del_init\<close> of a node that is on no list (an empty list of its own) does nothing.\<close>

lemma list_del_init_unlinked:
  assumes "is_list h e []"
  shows "list_del_init h (Ptr e) = Some h"
proof -
  have "nxt h e = Some (Ptr e)" "prv h e = Some (Ptr e)"
    using assms by (simp_all add: is_list_def linked_def)
  moreover from this have "(nxt h)(e \<mapsto> Ptr e) = nxt h" "(prv h)(e \<mapsto> Ptr e) = prv h"
    by (simp_all add: fun_upd_idem)
  moreover have "e \<in> dom (nxt h)" "e \<in> dom (prv h)" using calculation(1,2) by auto
  ultimately show ?thesis
    by (simp add: list_del_init_def list_del_between_def INIT_LIST_HEAD_def)
qed

lemma list_del_spec:
  assumes l: "is_list h a xs" and e: "e \<in> set xs"
  shows "\<exists>h'. list_del h (Ptr e) = Some h' \<and> is_list h' a (remove1 e xs)
    \<and> nxt h' e = Some LIST_POISON1 \<and> prv h' e = Some LIST_POISON2 \<and> frame h h' (set (a # xs))"
proof -
  from l e obtain ys zs where xs: "xs = ys @ e # zs" "e \<notin> set ys"
    using is_list_distinct split_list_distinct by metis
  define p n where "p = last (a # ys)" and "n = hd (zs @ [a])"
  let ?h1 = "remove_heap h p n"
  let ?h2 = "?h1\<lparr>nxt := (nxt ?h1)(e \<mapsto> LIST_POISON1), prv := (prv ?h1)(e \<mapsto> LIST_POISON2)\<rparr>"
  have l': "is_list h a (ys @ e # zs)" using l xs by simp
  note nb = list_neighbours [OF l', folded p_def n_def]
  have dom: "e \<in> dom (nxt ?h1)" "e \<in> dom (prv ?h1)"
    using nb(1,2) by (auto simp: remove_heap_def)
  obtain v w where "nxt h p = Some v" "prv h n = Some w" using nb(4,5) by (auto simp: node_def)
  then have "list_del h (Ptr e) = Some ?h2"
    using nb(1,2) dom by (simp add: list_del_def list_del_between_eq [OF nb(4,5)])
  moreover have f: "frame ?h1 ?h2 {e}" using dom by (auto simp: frame_def node_def)
  moreover have "e \<notin> set (a # ys @ zs)" using l' by (auto simp: is_list_def)
  then have "is_list ?h2 a (ys @ zs)"
    using is_list_frame [OF f, of a "ys @ zs"] remove_heap_list [OF l', folded p_def n_def] by auto
  then have "is_list ?h2 a (remove1 e xs)" using xs by (simp add: remove1_append_Cons)
  moreover have "frame h ?h2 (set (a # xs))"
    by (rule frame_mono [OF frame_trans [OF remove_heap_frame [OF nb(4,5)] f]]) (use nb(8,9) xs in auto)
  ultimately show ?thesis by auto
qed

section \<open>Queries and traversal\<close>

lemma list_empty_spec: "is_list h a xs \<Longrightarrow> list_empty h (Ptr a) = Some (xs = [])"
  by (cases xs) (auto simp: list_empty_def is_list_def linked_def)

lemma list_empty_careful_spec: "is_list h a xs \<Longrightarrow> list_empty_careful h (Ptr a) = Some (xs = [])"
  by (cases xs) (auto simp: list_empty_careful_def is_list_def linked_def)

lemma list_is_singular_spec:
  assumes "is_list h a xs"
  shows "list_is_singular h (Ptr a) = Some (length xs = 1)"
proof (cases xs)
  case (Cons x ys)
  then have "hd (xs @ [a]) = last (a # xs) \<longleftrightarrow> ys = []"
    using is_list_distinct [OF assms] by (cases ys) auto
  then show ?thesis
    using Cons is_list_first [OF assms] is_list_last [OF assms] list_empty_spec [OF assms]
    by (simp add: list_is_singular_def)
qed (use list_empty_spec [OF assms] in \<open>simp add: list_is_singular_def\<close>)

lemma list_is_last_spec:
  assumes "is_list h a xs" "e \<in> set xs"
  shows "list_is_last h (Ptr e) (Ptr a) = Some (e = last xs)"
proof -
  from assms obtain ys zs where xs: "xs = ys @ e # zs" "e \<notin> set zs"
    using is_list_distinct split_list_distinct by metis
  then have "nxt h e = Some (Ptr (hd (zs @ [a])))" using assms(1) is_list_nth_next(1) [of h a ys e zs] by simp
  then show ?thesis
    using xs is_list_distinct [OF assms(1)] by (cases zs) (auto simp: list_is_last_def)
qed

text \<open>The loop \<^verbatim>\<open>list_for_each\<close> visits exactly the nodes of the list, in order, and returns.\<close>

fun fold_brk :: "('a \<Rightarrow> 's \<Rightarrow> (bool \<times> 's) option) \<Rightarrow> 'a list \<Rightarrow> 's \<Rightarrow> 's option" where
  "fold_brk body [] s = Some s"
| "fold_brk body (x # xs) s =
     Option.bind (body x s) (\<lambda>r. if fst r then Some (snd r) else fold_brk body xs (snd r))"

lemma list_for_each_from_chain:
  "chain h c xs a \<Longrightarrow> a \<notin> set xs \<Longrightarrow> node h a
   \<Longrightarrow> list_for_each_from h a body (Ptr (hd (xs @ [a]))) s = fold_brk body xs s"
proof (induction xs arbitrary: c s)
  case Nil
  then show ?case by (auto simp: list_for_each_from.simps node_def)
next
  case (Cons x xs)
  have n: "nxt h x = Some (Ptr (hd (xs @ [a])))" using Cons.prems chain_nxt_first by auto
  have "list_for_each_from h a body (Ptr (hd (xs @ [a]))) s' = fold_brk body xs s'" for s'
    using Cons by auto
  then show ?case
    using Cons.prems n by (auto simp: list_for_each_from.simps [of h a body "Ptr x"] cong: if_cong)
qed

lemma list_for_each_spec: "is_list h a xs \<Longrightarrow> list_for_each h a body s = fold_brk body xs s"
proof -
  assume l: "is_list h a xs"
  then have "list_for_each_from h a body (Ptr (hd (xs @ [a]))) s = fold_brk body xs s"
    using is_list_node [OF l] by (auto simp: is_list_def intro: list_for_each_from_chain)
  then show ?thesis using is_list_first [OF l] by (simp add: list_for_each_def)
qed

section \<open>Moving a node\<close>

lemma unlink_spec:
  assumes l: "is_list h a xs" and e: "e \<in> set xs"
  obtains p n h1 where "prv h e = Some (Ptr p)" "nxt h e = Some (Ptr n)"
    "list_del_between h (Ptr p) (Ptr n) = Some h1" "is_list h1 a (remove1 e xs)"
    "frame h h1 (set (a # xs) - {e})"
proof -
  from l e obtain ys zs where xs: "xs = ys @ e # zs" "e \<notin> set ys"
    using is_list_distinct split_list_distinct by metis
  define p n where "p = last (a # ys)" and "n = hd (zs @ [a])"
  have l': "is_list h a (ys @ e # zs)" using l xs by simp
  note nb = list_neighbours [OF l', folded p_def n_def]
  have "is_list (remove_heap h p n) a (remove1 e xs)"
    using remove_heap_list [OF l', folded p_def n_def] xs by (simp add: remove1_append_Cons)
  moreover have "frame h (remove_heap h p n) (set (a # xs) - {e})"
    by (rule frame_mono [OF remove_heap_frame [OF nb(4,5)]]) (use nb xs in auto)
  ultimately show ?thesis using that nb list_del_between_eq by metis
qed

lemma list_move_spec:
  assumes l: "is_list h a xs" and e: "e \<in> set xs" and m: "is_list h b ys"
    and d: "set (a # xs) \<inter> set (b # ys) = {}"
  shows "\<exists>h'. list_move h (Ptr e) (Ptr b) = Some h' \<and> is_list h' a (remove1 e xs)
    \<and> is_list h' b (e # ys) \<and> frame h h' (set (a # xs) \<union> set (b # ys))"
proof -
  obtain p n h1 where 1: "prv h e = Some (Ptr p)" "nxt h e = Some (Ptr n)"
    "list_del_between h (Ptr p) (Ptr n) = Some h1" "is_list h1 a (remove1 e xs)"
    "frame h h1 (set (a # xs) - {e})"
    using unlink_spec [OF l e] by metis
  have b1: "is_list h1 b ys" using is_list_frame [OF 1(5)] m d by blast
  have "node h1 e" using 1(5) is_list_node [OF l] e by (simp add: frame_node)
  then obtain h' where 2: "list_add h1 (Ptr e) (Ptr b) = Some h'" "is_list h' b (e # ys)"
    "frame h1 h' (set (e # b # ys))"
    using list_add_spec [OF b1] e d by auto
  have "is_list h' a (remove1 e xs)"
    using is_list_frame [OF 2(3), of a "remove1 e xs"] 1(4) d e is_list_distinct [OF l] by auto
  moreover have "frame h h' (set (a # xs) \<union> set (b # ys))"
    using frame_trans [OF 1(5) 2(3)] by (rule frame_mono) (use e in auto)
  ultimately show ?thesis using 1 2 by (simp add: list_move_def)
qed

lemma list_move_tail_spec:
  assumes l: "is_list h a xs" and e: "e \<in> set xs" and m: "is_list h b ys"
    and d: "set (a # xs) \<inter> set (b # ys) = {}"
  shows "\<exists>h'. list_move_tail h (Ptr e) (Ptr b) = Some h' \<and> is_list h' a (remove1 e xs)
    \<and> is_list h' b (ys @ [e]) \<and> frame h h' (set (a # xs) \<union> set (b # ys))"
proof -
  obtain p n h1 where 1: "prv h e = Some (Ptr p)" "nxt h e = Some (Ptr n)"
    "list_del_between h (Ptr p) (Ptr n) = Some h1" "is_list h1 a (remove1 e xs)"
    "frame h h1 (set (a # xs) - {e})"
    using unlink_spec [OF l e] by metis
  have b1: "is_list h1 b ys" using is_list_frame [OF 1(5)] m d by blast
  have "node h1 e" using 1(5) is_list_node [OF l] e by (simp add: frame_node)
  then obtain h' where 2: "list_add_tail h1 (Ptr e) (Ptr b) = Some h'" "is_list h' b (ys @ [e])"
    "frame h1 h' (set (e # b # ys))"
    using list_add_tail_spec [OF b1] e d by auto
  have "is_list h' a (remove1 e xs)"
    using is_list_frame [OF 2(3), of a "remove1 e xs"] 1(4) d e is_list_distinct [OF l] by auto
  moreover have "frame h h' (set (a # xs) \<union> set (b # ys))"
    using frame_trans [OF 1(5) 2(3)] by (rule frame_mono) (use e in auto)
  ultimately show ?thesis using 1 2 by (simp add: list_move_tail_def)
qed

section \<open>Splicing\<close>

definition splice_heap :: "'a lheap \<Rightarrow> 'a \<Rightarrow> 'a \<Rightarrow> 'a \<Rightarrow> 'a \<Rightarrow> 'a lheap" where
  "splice_heap h p f l n =
     h\<lparr>nxt := (nxt h)(p \<mapsto> Ptr f, l \<mapsto> Ptr n), prv := (prv h)(f \<mapsto> Ptr p, n \<mapsto> Ptr l)\<rparr>"

lemma splice_heap_list:
  assumes a: "is_list h a (ys @ zs)" and b: "is_list h b ls" and ne: "ls \<noteq> []"
    and dj: "set (a # ys @ zs) \<inter> set (b # ls) = {}"
    and p: "p = last (a # ys)" and n: "n = hd (zs @ [a])"
  shows "is_list (splice_heap h p (hd ls) (last ls) n) a (ys @ ls @ zs)"
proof -
  let ?h = "splice_heap h p (hd ls) (last ls) n"
  have d: "distinct ((a # ys) @ ls @ zs)" using a b dj by (auto simp: is_list_def)
  have sa: "seg h ((a # ys) @ zs)" and la: "linked h (last (a # ys @ zs)) a"
    using a by (simp_all add: is_list_seg)
  have sb: "seg h ls" using b by (simp add: is_list_seg seg_Cons)
  have mem: "p \<in> set (a # ys)" "n \<in> set (zs @ [a])" "hd ls \<in> set ls" "last ls \<in> set ls"
    using ne by (cases zs; auto simp: p n)+
  have off: "p \<noteq> hd ls" "p \<noteq> last ls" "n \<noteq> hd ls" "n \<noteq> last ls" using mem d by auto
  have s1: "seg ?h (a # ys)"
    by (rule seg_relinked [of h]) (use sa seg_append [of h "a # ys" zs] d mem off in
      \<open>auto simp: splice_heap_def p n split: if_splits\<close>; cases zs; auto)+
  have s2: "seg ?h ls"
    by (rule seg_relinked [OF sb]) (use d mem off in \<open>auto simp: splice_heap_def\<close>)
  have s3: "seg ?h zs"
    by (rule seg_relinked [of h]) (use sa seg_append [of h "a # ys" zs] d mem off in
      \<open>auto simp: splice_heap_def n\<close>; cases zs; auto)+
  have k1: "linked ?h p (hd ls)" "linked ?h (last ls) n"
    using off by (simp_all add: linked_def splice_heap_def)
  have k2: "linked ?h (last zs) a" if "zs \<noteq> []"
  proof -
    have "last zs \<in> set zs" "n \<in> set zs" using that by (simp_all add: n)
    then have "last zs \<noteq> p" "last zs \<noteq> last ls" "a \<noteq> n" "a \<noteq> hd ls"
      using d mem by auto
    then show ?thesis using la that by (simp add: linked_def splice_heap_def)
  qed
  have "seg ?h ((a # ys) @ ls @ zs)"
    unfolding seg_append using s1 s2 s3 k1 ne n p by (cases zs) auto
  moreover have "linked ?h (last (a # ys @ ls @ zs)) a"
    using k1(2) k2 ne n by (cases "zs = []") auto
  ultimately show ?thesis unfolding is_list_seg using d by simp
qed

lemma list_splice_between_eq:
  assumes b: "is_list h b ls" "ls \<noteq> []" and nd: "node h p" "node h n"
    and off: "p \<notin> set (b # ls)" "n \<notin> set (b # ls)"
  shows "list_splice_between h (Ptr b) (Ptr p) (Ptr n) = Some (splice_heap h p (hd ls) (last ls) n)"
proof -
  have f: "nxt h b = Some (Ptr (hd ls))" and l: "prv h b = Some (Ptr (last ls))"
    using is_list_first [OF b(1)] is_list_last [OF b(1)] b(2) by simp_all
  have "node h (hd ls)" "node h (last ls)" using is_list_node [OF b(1)] b(2) by auto
  then have dom: "hd ls \<in> dom (prv h)" "last ls \<in> dom (nxt h)" "p \<in> dom (nxt h)" "n \<in> dom (prv h)"
    using nd by (auto simp: node_def)
  then show ?thesis
    using f l by (simp add: list_splice_between_def splice_heap_def)
qed

lemma splice_heap_frame:
  "node h p \<Longrightarrow> node h f \<Longrightarrow> node h l \<Longrightarrow> node h n \<Longrightarrow> frame h (splice_heap h p f l n) {p, f, l, n}"
  by (auto simp: frame_def splice_heap_def node_def)

text \<open>Both ends of a list, as the insertion points of \<^verbatim>\<open>list_splice\<close> and \<^verbatim>\<open>list_splice_tail\<close>.\<close>

lemma splice_at:
  assumes a: "is_list h a (ys @ zs)" and b: "is_list h b ls" and ne: "ls \<noteq> []"
    and dj: "set (a # ys @ zs) \<inter> set (b # ls) = {}"
    and p: "p = last (a # ys)" and n: "n = hd (zs @ [a])"
  shows "\<exists>h'. list_splice_between h (Ptr b) (Ptr p) (Ptr n) = Some h' \<and> is_list h' a (ys @ ls @ zs)
    \<and> frame h h' (set (a # ys @ zs) \<union> set ls)"
proof -
  have pn: "p \<in> set (a # ys @ zs)" "n \<in> set (a # ys @ zs)" by (cases zs; simp add: p n)+
  have nd: "node h p" "node h n" "node h (hd ls)" "node h (last ls)"
    using is_list_node [OF a] is_list_node [OF b] pn ne by auto
  have "list_splice_between h (Ptr b) (Ptr p) (Ptr n) = Some (splice_heap h p (hd ls) (last ls) n)"
    by (rule list_splice_between_eq [OF b ne nd(1,2)]) (use pn dj in auto)
  moreover have "frame h (splice_heap h p (hd ls) (last ls) n) (set (a # ys @ zs) \<union> set ls)"
    by (rule frame_mono [OF splice_heap_frame [OF nd(1,3,4,2)]]) (use pn ne in auto)
  ultimately show ?thesis using splice_heap_list [OF a b ne dj p n] by blast
qed

lemma list_splice_spec:
  assumes a: "is_list h a xs" and b: "is_list h b ls" and dj: "set (a # xs) \<inter> set (b # ls) = {}"
  shows "\<exists>h'. list_splice h (Ptr b) (Ptr a) = Some h' \<and> is_list h' a (ls @ xs)
    \<and> frame h h' (set (a # xs) \<union> set ls)"
proof (cases "ls = []")
  case False
  then show ?thesis
    using splice_at [of h a "[]" xs b ls a "hd (xs @ [a])"] a b dj is_list_first [OF a]
      list_empty_spec [OF b] by (simp add: list_splice_def)
qed (use list_empty_spec [OF b] a in \<open>auto simp: list_splice_def\<close>)

lemma list_splice_tail_spec:
  assumes a: "is_list h a xs" and b: "is_list h b ls" and dj: "set (a # xs) \<inter> set (b # ls) = {}"
  shows "\<exists>h'. list_splice_tail h (Ptr b) (Ptr a) = Some h' \<and> is_list h' a (xs @ ls)
    \<and> frame h h' (set (a # xs) \<union> set ls)"
proof (cases "ls = []")
  case False
  then show ?thesis
    using splice_at [of h a xs "[]" b ls "last (a # xs)" a] a b dj is_list_last [OF a]
      list_empty_spec [OF b] by (simp add: list_splice_tail_def)
qed (use list_empty_spec [OF b] a in \<open>auto simp: list_splice_tail_def\<close>)

lemma INIT_LIST_HEAD_spec:
  assumes "node h b"
  shows "\<exists>h'. INIT_LIST_HEAD h (Ptr b) = Some h' \<and> is_list h' b [] \<and> frame h h' {b}"
proof -
  have "b \<in> dom (nxt h)" "b \<in> dom (prv h)" using assms by (auto simp: node_def)
  then have "INIT_LIST_HEAD h (Ptr b) = Some (h\<lparr>nxt := (nxt h)(b \<mapsto> Ptr b), prv := (prv h)(b \<mapsto> Ptr b)\<rparr>)"
    by (simp add: INIT_LIST_HEAD_def)
  then show ?thesis using assms by (auto simp: is_list_def linked_def frame_def node_def)
qed

lemma list_splice_init_spec:
  assumes a: "is_list h a xs" and b: "is_list h b ls" and dj: "set (a # xs) \<inter> set (b # ls) = {}"
  shows "\<exists>h'. list_splice_init h (Ptr b) (Ptr a) = Some h' \<and> is_list h' a (ls @ xs) \<and> is_list h' b []
    \<and> frame h h' (set (a # xs) \<union> set (b # ls))"
proof (cases "ls = []")
  case False
  obtain h1 where 1: "list_splice_between h (Ptr b) (Ptr a) (Ptr (hd (xs @ [a]))) = Some h1"
    "is_list h1 a (ls @ xs)" "frame h h1 (set (a # xs) \<union> set ls)"
    using splice_at [of h a "[]" xs b ls a "hd (xs @ [a])"] a b dj False by auto
  have "node h1 b" using 1(3) is_list_node [OF b] by (simp add: frame_node)
  then obtain h' where 2: "INIT_LIST_HEAD h1 (Ptr b) = Some h'" "is_list h' b []" "frame h1 h' {b}"
    using INIT_LIST_HEAD_spec by metis
  have "b \<notin> set (a # ls @ xs)" using is_list_distinct [OF b] dj by auto
  then have "is_list h' a (ls @ xs)" using is_list_frame [OF 2(3), of a "ls @ xs"] 1(2) by auto
  moreover have "frame h h' (set (a # xs) \<union> set (b # ls))"
    using frame_trans [OF 1(3) 2(3)] by (rule frame_mono) auto
  ultimately show ?thesis
    using False 1(1) 2 is_list_first [OF a] list_empty_spec [OF b] by (simp add: list_splice_init_def)
qed (use list_empty_spec [OF b] a b in \<open>auto simp: list_splice_init_def\<close>)

lemma list_splice_tail_init_spec:
  assumes a: "is_list h a xs" and b: "is_list h b ls" and dj: "set (a # xs) \<inter> set (b # ls) = {}"
  shows "\<exists>h'. list_splice_tail_init h (Ptr b) (Ptr a) = Some h' \<and> is_list h' a (xs @ ls)
    \<and> is_list h' b [] \<and> frame h h' (set (a # xs) \<union> set (b # ls))"
proof (cases "ls = []")
  case False
  obtain h1 where 1: "list_splice_between h (Ptr b) (Ptr (last (a # xs))) (Ptr a) = Some h1"
    "is_list h1 a (xs @ ls)" "frame h h1 (set (a # xs) \<union> set ls)"
    using splice_at [of h a xs "[]" b ls "last (a # xs)" a] a b dj False by auto
  have "node h1 b" using 1(3) is_list_node [OF b] by (simp add: frame_node)
  then obtain h' where 2: "INIT_LIST_HEAD h1 (Ptr b) = Some h'" "is_list h' b []" "frame h1 h' {b}"
    using INIT_LIST_HEAD_spec by metis
  have "b \<notin> set (a # xs @ ls)" using is_list_distinct [OF b] dj by auto
  then have "is_list h' a (xs @ ls)" using is_list_frame [OF 2(3), of a "xs @ ls"] 1(2) by auto
  moreover have "frame h h' (set (a # xs) \<union> set (b # ls))"
    using frame_trans [OF 1(3) 2(3)] by (rule frame_mono) auto
  ultimately show ?thesis
    using False 1(1) 2 is_list_last [OF a] list_empty_spec [OF b] by (simp add: list_splice_tail_init_def)
qed (use list_empty_spec [OF b] a b in \<open>auto simp: list_splice_tail_init_def\<close>)

section \<open>Cutting and replacing\<close>

lemma list_cut_position_spec:
  assumes a: "is_list h a (ys @ e # zs)" and nl: "node h l" and off: "l \<notin> set (a # ys @ e # zs)"
  shows "\<exists>h'. list_cut_position h (Ptr l) (Ptr a) (Ptr e) = Some h' \<and> is_list h' l (ys @ [e])
    \<and> is_list h' a zs \<and> frame h h' (set (l # a # ys @ e # zs))"
proof -
  define f n where "f = hd (ys @ [e])" and "n = hd (zs @ [a])"
  let ?h = "h\<lparr>nxt := (nxt h)(l \<mapsto> Ptr f, e \<mapsto> Ptr l, a \<mapsto> Ptr n),
              prv := (prv h)(f \<mapsto> Ptr l, l \<mapsto> Ptr e, n \<mapsto> Ptr a)\<rparr>"
  have d: "distinct ((a # ys @ [e]) @ zs)" using a by (simp add: is_list_def)
  have f: "nxt h a = Some (Ptr f)" using is_list_first [OF a] by (cases ys) (simp_all add: f_def)
  note nb = list_neighbours [OF a, folded n_def]
  have mem: "f \<in> set (ys @ [e])" "n \<in> set (zs @ [a])" by (cases ys; simp add: f_def) (cases zs; simp add: n_def)
  have nodes: "node h a" "node h e" "node h f" "node h n" using is_list_node [OF a] mem by auto
  then have dom: "l \<in> dom (nxt h)" "l \<in> dom (prv h)" "f \<in> dom (prv h)" "e \<in> dom (nxt h)"
    "a \<in> dom (nxt h)" "n \<in> dom (prv h)" using nl by (auto simp: node_def)
  have "l \<noteq> f" "l \<noteq> n" "l \<noteq> e" "l \<noteq> a" "a \<noteq> e" "f \<noteq> n" using mem off d by auto
  then have raw: "list_cut_position_raw h (Ptr l) (Ptr a) (Ptr e) = Some ?h"
    using dom f nb(1) by (simp add: list_cut_position_raw_def fun_upd_twist)
  have "list_is_singular h (Ptr a) = Some (ys @ zs = [])" and "ys @ zs = [] \<Longrightarrow> f = e"
    using list_is_singular_spec [OF a] by (simp_all add: f_def)
  then have "list_cut_position h (Ptr l) (Ptr a) (Ptr e) = Some ?h"
    using raw list_empty_spec [OF a] f \<open>a \<noteq> e\<close> by (auto simp: list_cut_position_def)
  moreover have sg: "seg h (a # ys @ [e])" "seg h zs" and la: "zs \<noteq> [] \<Longrightarrow> linked h (last zs) a"
    using a seg_append [of h "a # ys @ [e]" zs] by (auto simp: is_list_seg)
  have "seg h (ys @ [e])" using sg(1) by (simp add: seg_Cons [of h a])
  then have "seg ?h (ys @ [e])"
    by (rule seg_relinked) (use d mem off in \<open>auto simp: f_def\<close>)
  then have "is_list ?h l (ys @ [e])"
    using off d mem \<open>f \<noteq> n\<close> \<open>l \<noteq> n\<close> \<open>a \<noteq> e\<close> \<open>l \<noteq> e\<close> \<open>l \<noteq> a\<close>
    by (auto simp: is_list_seg seg_Cons [of _ l] linked_def f_def [symmetric])
  moreover have "seg ?h zs"
    by (rule seg_relinked [OF sg(2)]) (use d mem off in \<open>cases zs; auto simp: n_def\<close>)+
  then have "is_list ?h a zs"
  proof (cases "zs = []")
    case False
    then have "last zs \<in> set zs" "n = hd zs" by (simp_all add: n_def)
    moreover from this have "last zs \<noteq> a" "last zs \<noteq> e" "last zs \<noteq> l" "a \<noteq> n" "a \<noteq> f"
      using d mem off False by auto
    ultimately show ?thesis using False \<open>seg ?h zs\<close> la d \<open>l \<noteq> a\<close>
      by (auto simp: is_list_seg seg_Cons [of _ a] linked_def)
  qed (use d in \<open>simp add: is_list_seg linked_def n_def\<close>)
  moreover have "frame h ?h (set (l # a # ys @ e # zs))"
    using mem dom nodes nl by (auto simp: frame_def node_def)
  ultimately show ?thesis by blast
qed

text \<open>Cutting at the head itself moves nothing and makes the target list empty.\<close>

lemma list_cut_position_head:
  assumes a: "is_list h a xs" "xs \<noteq> []" and l: "node h l" "l \<notin> set (a # xs)"
  shows "\<exists>h'. list_cut_position h (Ptr l) (Ptr a) (Ptr a) = Some h' \<and> is_list h' l [] \<and> is_list h' a xs"
proof -
  obtain h' where h': "INIT_LIST_HEAD h (Ptr l) = Some h'" "is_list h' l []" "frame h h' {l}"
    using INIT_LIST_HEAD_spec [OF l(1)] by metis
  have "is_list h' a xs" using is_list_frame [OF h'(3), of a xs] a(1) l(2) by auto
  then show ?thesis
    using h' a(2) list_empty_spec [OF a(1)] list_is_singular_spec [OF a(1)] is_list_first [OF a(1)]
    by (auto simp: list_cut_position_def)
qed

definition replace_heap :: "'a lheap \<Rightarrow> 'a \<Rightarrow> 'a \<Rightarrow> 'a \<Rightarrow> 'a lheap" where
  "replace_heap h new p n =
     h\<lparr>nxt := (nxt h)(new \<mapsto> Ptr n, p \<mapsto> Ptr new), prv := (prv h)(n \<mapsto> Ptr new, new \<mapsto> Ptr p)\<rparr>"

lemma list_replace_eq:
  assumes "nxt h old = Some (Ptr n)" "prv h old = Some (Ptr p)" "node h new" "node h p" "node h n"
    "old \<noteq> new" "n \<noteq> old" "n \<noteq> new" "p \<noteq> new"
  shows "list_replace h (Ptr old) (Ptr new) = Some (replace_heap h new p n)"
proof -
  have "new \<in> dom (nxt h)" "new \<in> dom (prv h)" "p \<in> dom (nxt h)" "n \<in> dom (prv h)"
    using assms by (auto simp: node_def)
  then show ?thesis using assms by (simp add: list_replace_def replace_heap_def)
qed

lemma list_replace_spec:
  assumes a: "is_list h a (ys @ old # zs)" and nd: "node h new" and off: "new \<notin> set (a # ys @ old # zs)"
  shows "\<exists>h'. list_replace h (Ptr old) (Ptr new) = Some h' \<and> is_list h' a (ys @ new # zs)
    \<and> frame h h' (set (new # a # ys @ old # zs))"
proof -
  define p n where "p = last (a # ys)" and "n = hd (zs @ [a])"
  note nb = list_neighbours [OF a, folded p_def n_def]
  let ?h = "replace_heap h new p n"
  have "list_replace h (Ptr old) (Ptr new) = Some ?h"
    by (rule list_replace_eq [OF nb(1,2) nd nb(4,5)]) (use nb off in auto)
  moreover have "?h = insert_heap (remove_heap h p n) new p n"
    by (simp add: replace_heap_def insert_heap_def remove_heap_def fun_upd_twist)
  moreover have "is_list (insert_heap (remove_heap h p n) new p n) a (ys @ new # zs)"
    unfolding p_def n_def by (rule insert_heap_list [OF remove_heap_list [OF a]]) (use off in auto)
  moreover have "frame h ?h (set (new # a # ys @ old # zs))"
    using nb nd by (auto simp: replace_heap_def frame_def node_def)
  ultimately show ?thesis by auto
qed

lemma list_replace_init_spec:
  assumes a: "is_list h a (ys @ old # zs)" and nd: "node h new" and off: "new \<notin> set (a # ys @ old # zs)"
  shows "\<exists>h'. list_replace_init h (Ptr old) (Ptr new) = Some h' \<and> is_list h' a (ys @ new # zs)
    \<and> is_list h' old [] \<and> frame h h' (set (new # a # ys @ old # zs))"
proof -
  obtain h1 where 1: "list_replace h (Ptr old) (Ptr new) = Some h1" "is_list h1 a (ys @ new # zs)"
    "frame h h1 (set (new # a # ys @ old # zs))"
    using list_replace_spec [OF assms] by blast
  have "node h1 old" using 1(3) is_list_node [OF a] by (simp add: frame_node)
  then obtain h' where 2: "INIT_LIST_HEAD h1 (Ptr old) = Some h'" "is_list h' old []" "frame h1 h' {old}"
    using INIT_LIST_HEAD_spec by metis
  have "old \<notin> set (a # ys @ new # zs)" using is_list_distinct [OF a] off by auto
  then have "is_list h' a (ys @ new # zs)" using is_list_frame [OF 2(3), of a "ys @ new # zs"] 1(2) by auto
  moreover have "frame h h' (set (new # a # ys @ old # zs))"
    using frame_trans [OF 1(3) 2(3)] by (rule frame_mono) auto
  ultimately show ?thesis using 1 2 by (simp add: list_replace_init_def)
qed

section \<open>The interface of the lists\<close>

text \<open>
  What the clients of the lists (the wait queues, the event list) rely on: a relation
  \<open>lst\<close> between heaps and sequences, insertion at both ends and removal of any node. A
  client that enqueues with \<open>add_tail\<close> and removes with \<open>del_init\<close> has a queue.
\<close>

locale list_store =
  fixes lst :: "'h \<Rightarrow> 'a \<Rightarrow> 'a list \<Rightarrow> bool"
    and nd :: "'h \<Rightarrow> 'a \<Rightarrow> bool"
    and fr :: "'h \<Rightarrow> 'h \<Rightarrow> 'a set \<Rightarrow> bool"
    and add :: "'h \<Rightarrow> 'a ptr \<Rightarrow> 'a ptr \<Rightarrow> 'h option"
    and add_tail :: "'h \<Rightarrow> 'a ptr \<Rightarrow> 'a ptr \<Rightarrow> 'h option"
    and del_init :: "'h \<Rightarrow> 'a ptr \<Rightarrow> 'h option"
  assumes lst_distinct: "lst h a xs \<Longrightarrow> distinct xs \<and> a \<notin> set xs"
    and lst_frame: "fr h h' S \<Longrightarrow> S \<inter> set (a # xs) = {} \<Longrightarrow> lst h' a xs = lst h a xs"
    and fr_nd: "fr h h' S \<Longrightarrow> nd h' c = nd h c"
    and fr_trans: "fr h h' S \<Longrightarrow> fr h' h'' T \<Longrightarrow> fr h h'' (S \<union> T)"
    and fr_refl: "fr h h {}"
    and fr_mono: "fr h h' S \<Longrightarrow> S \<subseteq> T \<Longrightarrow> fr h h' T"
    and add_law: "lst h a xs \<Longrightarrow> nd h x \<Longrightarrow> x \<notin> set (a # xs) \<Longrightarrow>
      \<exists>h'. add h (Ptr x) (Ptr a) = Some h' \<and> lst h' a (x # xs) \<and> fr h h' (set (x # a # xs))"
    and add_tail_law: "lst h a xs \<Longrightarrow> nd h x \<Longrightarrow> x \<notin> set (a # xs) \<Longrightarrow>
      \<exists>h'. add_tail h (Ptr x) (Ptr a) = Some h' \<and> lst h' a (xs @ [x]) \<and> fr h h' (set (x # a # xs))"
    and del_init_law: "lst h a xs \<Longrightarrow> x \<in> set xs \<Longrightarrow>
      \<exists>h'. del_init h (Ptr x) = Some h' \<and> lst h' a (remove1 x xs) \<and> lst h' x [] \<and> fr h h' (set (a # xs))"
begin

text \<open>Enqueuing a batch of nodes one after the other keeps their order.\<close>

fun add_tail_all :: "'h \<Rightarrow> 'a list \<Rightarrow> 'a \<Rightarrow> 'h option" where
  "add_tail_all h [] a = Some h"
| "add_tail_all h (x # xs) a = Option.bind (add_tail h (Ptr x) (Ptr a)) (\<lambda>h'. add_tail_all h' xs a)"

lemma add_tail_all_lst:
  "lst h a xs \<Longrightarrow> \<forall>x \<in> set ns. nd h x \<Longrightarrow> distinct ns \<Longrightarrow> set ns \<inter> set (a # xs) = {} \<Longrightarrow>
   \<exists>h'. add_tail_all h ns a = Some h' \<and> lst h' a (xs @ ns) \<and> fr h h' (set ns \<union> set (a # xs))"
proof (induction ns arbitrary: h xs)
  case Nil
  then show ?case using fr_mono [OF fr_refl] by auto
next
  case (Cons n ns)
  then obtain h1 where 1: "add_tail h (Ptr n) (Ptr a) = Some h1" "lst h1 a (xs @ [n])"
    "fr h h1 (set (n # a # xs))" using add_tail_law [of h a xs n] by auto
  obtain h' where 2: "add_tail_all h1 ns a = Some h'" "lst h' a ((xs @ [n]) @ ns)"
    "fr h1 h' (set ns \<union> set (a # xs @ [n]))"
    using Cons.IH [OF 1(2)] Cons.prems fr_nd [OF 1(3)] by auto
  have "fr h h' (set (n # ns) \<union> set (a # xs))"
    using fr_trans [OF 1(3) 2(3)] by (rule fr_mono) auto
  then show ?case using 1 2 by simp
qed

text \<open>Inserting a node at the front and removing it again gives back the list.\<close>

lemma add_then_del_init:
  assumes "lst h a xs" "nd h x" "x \<notin> set (a # xs)"
  shows "\<exists>h1 h2. add h (Ptr x) (Ptr a) = Some h1 \<and> del_init h1 (Ptr x) = Some h2 \<and> lst h2 a xs
    \<and> lst h2 x []"
proof -
  obtain h1 where 1: "add h (Ptr x) (Ptr a) = Some h1" "lst h1 a (x # xs)"
    using add_law [OF assms] by blast
  then show ?thesis using del_init_law [OF 1(2), of x] by auto
qed

end

interpretation klist: list_store is_list node frame list_add list_add_tail list_del_init
proof (unfold_locales, goal_cases)
  case 1 then show ?case by (rule is_list_distinct)
next
  case 2 then show ?case by (rule is_list_frame)
next
  case 3 then show ?case by (rule frame_node)
next
  case 4 then show ?case by (rule frame_trans)
next
  case 5 show ?case by simp
next
  case 6 then show ?case by (rule frame_mono)
next
  case 7 then show ?case by (rule list_add_spec)
next
  case 8 then show ?case by (rule list_add_tail_spec)
next
  case 9 then show ?case by (rule list_del_init_spec)
qed

end
