(* ===== verification/Wait_Queue.thy ===== *)
theory Wait_Queue
  imports Kernel_List
begin

unbundle bit_operations_syntax

text \<open>
  Wait queues: include/linux/wait.h, kernel/wait.c and the wake-up core of kernel/sched.c.
  A queue head and a queue entry are named by addresses; the links of the queue are nodes of
  the list heap of \<^theory_text>\<open>Kernel_List\<close>. A task is reduced to what the wait queues read and
  write: its state, whether it is on a run queue, and its pending signals. A queue and the
  spin lock inside it are one object, so taking the lock of a freed queue is undefined
  behaviour (\<open>queue_lock\<close> below).

  What the other tasks do while the current one sleeps is an argument: \<open>schedule\<close> takes a
  list of actions of the environment and gives the processor back when the task is on a run
  queue again.
\<close>

section \<open>State\<close>

type_synonym addr = nat

text \<open>The list nodes of the modelled objects: \<^verbatim>\<open>&e->eventlist\<close>, \<^verbatim>\<open>&q->task_list\<close> and
  \<^verbatim>\<open>&wait->task_list\<close>.\<close>

datatype lnode = ELink addr | QHead addr | WLink addr

datatype wait_queue_func = Default_wake | Autoremove_wake | Wake_bit

record wait_bit_key =
  key_flags :: addr
  key_bit_nr :: nat

record wait_queue =
  wq_flags :: u32
  wq_private :: "addr option"
  wq_func :: wait_queue_func
  wq_key :: "wait_bit_key option"

record task =
  t_state :: u32
  t_on_rq :: bool
  t_sigpending :: bool
  t_fatal :: bool
  t_euid :: u32
  t_egid :: u32

record wstate =
  lists :: "lnode lheap"
  waits :: "addr \<rightharpoonup> wait_queue"
  tasks :: "addr \<rightharpoonup> task"
  kwords :: "addr \<rightharpoonup> u64"

definition WQ_FLAG_EXCLUSIVE :: u32 where "WQ_FLAG_EXCLUSIVE = 1"
definition TASK_RUNNING :: u32 where "TASK_RUNNING = 0"
definition TASK_INTERRUPTIBLE :: u32 where "TASK_INTERRUPTIBLE = 1"
definition TASK_UNINTERRUPTIBLE :: u32 where "TASK_UNINTERRUPTIBLE = 2"
definition TASK_WAKEKILL :: u32 where "TASK_WAKEKILL = 128"
definition TASK_KILLABLE :: u32 where "TASK_KILLABLE = TASK_WAKEKILL OR TASK_UNINTERRUPTIBLE"
definition TASK_NORMAL :: u32 where "TASK_NORMAL = TASK_INTERRUPTIBLE OR TASK_UNINTERRUPTIBLE"

lemmas task_state_defs = TASK_RUNNING_def TASK_INTERRUPTIBLE_def TASK_UNINTERRUPTIBLE_def
  TASK_WAKEKILL_def TASK_KILLABLE_def TASK_NORMAL_def

definition upd_lists :: "(lnode lheap \<Rightarrow> lnode lheap option) \<Rightarrow> 'z wstate_scheme \<Rightarrow> 'z wstate_scheme option" where
  "upd_lists f s = do { l \<leftarrow> f (lists s); Some (s\<lparr>lists := l\<rparr>) }"

definition set_task :: "'z wstate_scheme \<Rightarrow> addr \<Rightarrow> task \<Rightarrow> 'z wstate_scheme" where
  "set_task s p t = s\<lparr>tasks := (tasks s)(p \<mapsto> t)\<rparr>"

definition set_wait :: "'z wstate_scheme \<Rightarrow> addr \<Rightarrow> wait_queue \<Rightarrow> 'z wstate_scheme" where
  "set_wait s w e = s\<lparr>waits := (waits s)(w \<mapsto> e)\<rparr>"

text \<open>\<^verbatim>\<open>spin_lock_irqsave(&q->lock, ..)\<close>: the queue is accessed. The critical sections are single
  steps of the model.\<close>

definition queue_lock :: "'z wstate_scheme \<Rightarrow> addr \<Rightarrow> unit option" where
  "queue_lock s q = (if node (lists s) (QHead q) then Some () else None)"

definition set_task_state :: "'z wstate_scheme \<Rightarrow> addr \<Rightarrow> u32 \<Rightarrow> 'z wstate_scheme option" where
  "set_task_state s p st = do { t \<leftarrow> tasks s p; Some (set_task s p (t\<lparr>t_state := st\<rparr>)) }"

section \<open>Initialisation\<close>

definition init_waitqueue_head :: "'z wstate_scheme \<Rightarrow> addr \<Rightarrow> 'z wstate_scheme option" where
  "init_waitqueue_head s q = upd_lists (\<lambda>l. INIT_LIST_HEAD l (Ptr (QHead q))) s"

definition init_waitqueue_entry :: "'z wstate_scheme \<Rightarrow> addr \<Rightarrow> addr \<Rightarrow> 'z wstate_scheme option" where
  "init_waitqueue_entry s w p = do {
     e \<leftarrow> waits s w;
     Some (set_wait s w (e\<lparr>wq_flags := 0, wq_private := Some p, wq_func := Default_wake\<rparr>)) }"

definition init_waitqueue_func_entry ::
  "'z wstate_scheme \<Rightarrow> addr \<Rightarrow> wait_queue_func \<Rightarrow> 'z wstate_scheme option" where
  "init_waitqueue_func_entry s w f = do {
     e \<leftarrow> waits s w;
     Some (set_wait s w (e\<lparr>wq_flags := 0, wq_private := None, wq_func := f\<rparr>)) }"

text \<open>\<^verbatim>\<open>DEFINE_WAIT\<close>: a fresh entry on the stack of the current task.\<close>

definition DEFINE_WAIT :: "'z wstate_scheme \<Rightarrow> addr \<Rightarrow> addr \<Rightarrow> 'z wstate_scheme" where
  "DEFINE_WAIT s w cur =
     set_wait s w \<lparr>wq_flags = 0, wq_private = Some cur, wq_func = Autoremove_wake, wq_key = None\<rparr>
       \<lparr>lists := mk_node (lists s) (WLink w) (Ptr (WLink w)) (Ptr (WLink w))\<rparr>"

definition DEFINE_WAIT_BIT :: "'z wstate_scheme \<Rightarrow> addr \<Rightarrow> addr \<Rightarrow> addr \<Rightarrow> nat \<Rightarrow> 'z wstate_scheme" where
  "DEFINE_WAIT_BIT s w cur word b =
     set_wait s w \<lparr>wq_flags = 0, wq_private = Some cur, wq_func = Wake_bit,
       wq_key = Some \<lparr>key_flags = word, key_bit_nr = b\<rparr>\<rparr>
       \<lparr>lists := mk_node (lists s) (WLink w) (Ptr (WLink w)) (Ptr (WLink w))\<rparr>"

definition init_wait :: "'z wstate_scheme \<Rightarrow> addr \<Rightarrow> addr \<Rightarrow> 'z wstate_scheme option" where
  "init_wait s w cur = do {
     e \<leftarrow> waits s w;
     upd_lists (\<lambda>l. INIT_LIST_HEAD l (Ptr (WLink w)))
       (set_wait s w (e\<lparr>wq_private := Some cur, wq_func := Autoremove_wake\<rparr>)) }"

section \<open>Queue membership\<close>

definition waitqueue_active :: "'z wstate_scheme \<Rightarrow> addr \<Rightarrow> bool option" where
  "waitqueue_active s q = do { e \<leftarrow> list_empty (lists s) (Ptr (QHead q)); Some (\<not> e) }"

definition add_wait_queue_raw :: "'z wstate_scheme \<Rightarrow> addr \<Rightarrow> addr \<Rightarrow> 'z wstate_scheme option" where
  "add_wait_queue_raw s q w = upd_lists (\<lambda>l. list_add l (Ptr (WLink w)) (Ptr (QHead q))) s"

definition add_wait_queue_tail_raw :: "'z wstate_scheme \<Rightarrow> addr \<Rightarrow> addr \<Rightarrow> 'z wstate_scheme option" where
  "add_wait_queue_tail_raw s q w = upd_lists (\<lambda>l. list_add_tail l (Ptr (WLink w)) (Ptr (QHead q))) s"

definition remove_wait_queue_raw :: "'z wstate_scheme \<Rightarrow> addr \<Rightarrow> addr \<Rightarrow> 'z wstate_scheme option" where
  "remove_wait_queue_raw s q w = upd_lists (\<lambda>l. list_del l (Ptr (WLink w))) s"

definition clear_exclusive :: "'z wstate_scheme \<Rightarrow> addr \<Rightarrow> 'z wstate_scheme option" where
  "clear_exclusive s w = do {
     e \<leftarrow> waits s w;
     Some (set_wait s w (e\<lparr>wq_flags := wq_flags e AND NOT WQ_FLAG_EXCLUSIVE\<rparr>)) }"

definition set_exclusive :: "'z wstate_scheme \<Rightarrow> addr \<Rightarrow> 'z wstate_scheme option" where
  "set_exclusive s w = do {
     e \<leftarrow> waits s w;
     Some (set_wait s w (e\<lparr>wq_flags := wq_flags e OR WQ_FLAG_EXCLUSIVE\<rparr>)) }"

definition add_wait_queue :: "'z wstate_scheme \<Rightarrow> addr \<Rightarrow> addr \<Rightarrow> 'z wstate_scheme option" where
  "add_wait_queue s q w = do {
     s1 \<leftarrow> clear_exclusive s w;
     _ \<leftarrow> queue_lock s1 q;
     add_wait_queue_raw s1 q w }"

definition add_wait_queue_exclusive :: "'z wstate_scheme \<Rightarrow> addr \<Rightarrow> addr \<Rightarrow> 'z wstate_scheme option" where
  "add_wait_queue_exclusive s q w = do {
     s1 \<leftarrow> set_exclusive s w;
     _ \<leftarrow> queue_lock s1 q;
     add_wait_queue_tail_raw s1 q w }"

definition add_wait_queue_exclusive_locked ::
  "'z wstate_scheme \<Rightarrow> addr \<Rightarrow> addr \<Rightarrow> 'z wstate_scheme option" where
  "add_wait_queue_exclusive_locked s q w = do {
     s1 \<leftarrow> set_exclusive s w;
     add_wait_queue_tail_raw s1 q w }"

definition remove_wait_queue :: "'z wstate_scheme \<Rightarrow> addr \<Rightarrow> addr \<Rightarrow> 'z wstate_scheme option" where
  "remove_wait_queue s q w = do {
     _ \<leftarrow> queue_lock s q;
     remove_wait_queue_raw s q w }"

definition prepare_to_wait ::
  "'z wstate_scheme \<Rightarrow> addr \<Rightarrow> addr \<Rightarrow> addr \<Rightarrow> u32 \<Rightarrow> 'z wstate_scheme option" where
  "prepare_to_wait s cur q w st = do {
     s1 \<leftarrow> clear_exclusive s w;
     _ \<leftarrow> queue_lock s1 q;
     emp \<leftarrow> list_empty (lists s1) (Ptr (WLink w));
     s2 \<leftarrow> (if emp then add_wait_queue_raw s1 q w else Some s1);
     set_task_state s2 cur st }"

definition prepare_to_wait_exclusive ::
  "'z wstate_scheme \<Rightarrow> addr \<Rightarrow> addr \<Rightarrow> addr \<Rightarrow> u32 \<Rightarrow> 'z wstate_scheme option" where
  "prepare_to_wait_exclusive s cur q w st = do {
     s1 \<leftarrow> set_exclusive s w;
     _ \<leftarrow> queue_lock s1 q;
     emp \<leftarrow> list_empty (lists s1) (Ptr (WLink w));
     s2 \<leftarrow> (if emp then add_wait_queue_tail_raw s1 q w else Some s1);
     set_task_state s2 cur st }"

definition finish_wait :: "'z wstate_scheme \<Rightarrow> addr \<Rightarrow> addr \<Rightarrow> addr \<Rightarrow> 'z wstate_scheme option" where
  "finish_wait s cur q w = do {
     s1 \<leftarrow> set_task_state s cur TASK_RUNNING;
     emp \<leftarrow> list_empty_careful (lists s1) (Ptr (WLink w));
     if emp then Some s1
     else do {
       _ \<leftarrow> queue_lock s1 q;
       upd_lists (\<lambda>l. list_del_init l (Ptr (WLink w))) s1 } }"

section \<open>Waking up\<close>

text \<open>
  \<^verbatim>\<open>try_to_wake_up\<close>: the task state and run-queue membership. The choice of a processor, the
  clock and the statistics are not part of the model; on every path of the code that reaches
  \<^verbatim>\<open>activate_task\<close> the task ends up on a run queue in state \<^verbatim>\<open>TASK_RUNNING\<close>.
\<close>

definition try_to_wake_up ::
  "'z wstate_scheme \<Rightarrow> addr \<Rightarrow> u32 \<Rightarrow> (bool \<times> 'z wstate_scheme) option" where
  "try_to_wake_up s p mode = do {
     t \<leftarrow> tasks s p;
     if t_state t AND mode = 0 then Some (False, s)
     else if t_on_rq t then Some (False, set_task s p (t\<lparr>t_state := TASK_RUNNING\<rparr>))
     else Some (True, set_task s p (t\<lparr>t_state := TASK_RUNNING, t_on_rq := True\<rparr>)) }"

definition wake_up_process :: "'z wstate_scheme \<Rightarrow> addr \<Rightarrow> (bool \<times> 'z wstate_scheme) option" where
  "wake_up_process s p = try_to_wake_up s p TASK_NORMAL"

definition wake_up_state :: "'z wstate_scheme \<Rightarrow> addr \<Rightarrow> u32 \<Rightarrow> (bool \<times> 'z wstate_scheme) option" where
  "wake_up_state s p st = try_to_wake_up s p st"

definition default_wake_function ::
  "'z wstate_scheme \<Rightarrow> addr \<Rightarrow> u32 \<Rightarrow> (bool \<times> 'z wstate_scheme) option" where
  "default_wake_function s w mode = do {
     e \<leftarrow> waits s w;
     p \<leftarrow> wq_private e;
     try_to_wake_up s p mode }"

definition autoremove_wake_function ::
  "'z wstate_scheme \<Rightarrow> addr \<Rightarrow> u32 \<Rightarrow> (bool \<times> 'z wstate_scheme) option" where
  "autoremove_wake_function s w mode = do {
     (ret, s1) \<leftarrow> default_wake_function s w mode;
     if ret then do {
       s2 \<leftarrow> upd_lists (\<lambda>l. list_del_init l (Ptr (WLink w))) s1;
       Some (ret, s2) }
     else Some (ret, s1) }"

definition test_bit :: "'z wstate_scheme \<Rightarrow> nat \<Rightarrow> addr \<Rightarrow> bool option" where
  "test_bit s b word = do { v \<leftarrow> kwords s word; Some (bit v b) }"

definition wake_bit_function ::
  "'z wstate_scheme \<Rightarrow> addr \<Rightarrow> u32 \<Rightarrow> wait_bit_key option \<Rightarrow> (bool \<times> 'z wstate_scheme) option" where
  "wake_bit_function s w mode arg = do {
     key \<leftarrow> arg;
     e \<leftarrow> waits s w;
     k \<leftarrow> wq_key e;
     if key_flags k \<noteq> key_flags key \<or> key_bit_nr k \<noteq> key_bit_nr key then Some (False, s)
     else do {
       b \<leftarrow> test_bit s (key_bit_nr key) (key_flags key);
       if b then Some (False, s) else autoremove_wake_function s w mode } }"

text \<open>The indirect call \<^verbatim>\<open>curr->func(curr, mode, wake_flags, key)\<close>.\<close>

definition call_wake_func ::
  "'z wstate_scheme \<Rightarrow> addr \<Rightarrow> u32 \<Rightarrow> wait_bit_key option \<Rightarrow> (bool \<times> 'z wstate_scheme) option" where
  "call_wake_func s w mode key = do {
     e \<leftarrow> waits s w;
     case wq_func e of
       Default_wake \<Rightarrow> default_wake_function s w mode
     | Autoremove_wake \<Rightarrow> autoremove_wake_function s w mode
     | Wake_bit \<Rightarrow> wake_bit_function s w mode key }"

text \<open>
  The loop of \<^verbatim>\<open>__wake_up_common\<close> with the cursor \<open>cu\<close> (\<^verbatim>\<open>curr\<close>) and the saved successor \<^verbatim>\<open>next\<close> of
  \<^verbatim>\<open>list_for_each_entry_safe\<close>; \<open>nr\<close> is \<^verbatim>\<open>nr_exclusive\<close>, a C int.
\<close>

partial_function (option) wake_up_loop ::
  "'z wstate_scheme \<Rightarrow> addr \<Rightarrow> u32 \<Rightarrow> int \<Rightarrow> wait_bit_key option \<Rightarrow> lnode ptr \<Rightarrow> lnode ptr
    \<Rightarrow> 'z wstate_scheme option" where
  "wake_up_loop s q mode nr key cu n =
     (if cu = Ptr (QHead q) then Some s
      else case cu of
        Ptr (WLink w) \<Rightarrow>
          Option.bind (waits s w) (\<lambda>e.
          Option.bind (call_wake_func s w mode key) (\<lambda>r.
            let excl = fst r \<and> wq_flags e AND WQ_FLAG_EXCLUSIVE \<noteq> 0;
                nr' = (if excl then cint (nr - 1) else nr)
            in if excl \<and> nr' = 0 then Some (snd r)
               else Option.bind (rd (nxt (lists (snd r))) n) (\<lambda>n2.
                 wake_up_loop (snd r) q mode nr' key n n2)))
      | _ \<Rightarrow> None)"

definition wake_up_common ::
  "'z wstate_scheme \<Rightarrow> addr \<Rightarrow> u32 \<Rightarrow> int \<Rightarrow> wait_bit_key option \<Rightarrow> 'z wstate_scheme option" where
  "wake_up_common s q mode nr key = do {
     cu \<leftarrow> rd (nxt (lists s)) (Ptr (QHead q));
     n \<leftarrow> rd (nxt (lists s)) cu;
     wake_up_loop s q mode nr key cu n }"

definition wake_up_raw ::
  "'z wstate_scheme \<Rightarrow> addr \<Rightarrow> u32 \<Rightarrow> int \<Rightarrow> wait_bit_key option \<Rightarrow> 'z wstate_scheme option" where
  "wake_up_raw s q mode nr key = do { _ \<leftarrow> queue_lock s q; wake_up_common s q mode nr key }"

definition wake_up_locked :: "'z wstate_scheme \<Rightarrow> addr \<Rightarrow> u32 \<Rightarrow> 'z wstate_scheme option" where
  "wake_up_locked s q mode = wake_up_common s q mode 1 None"

definition wake_up_locked_key ::
  "'z wstate_scheme \<Rightarrow> addr \<Rightarrow> u32 \<Rightarrow> wait_bit_key option \<Rightarrow> 'z wstate_scheme option" where
  "wake_up_locked_key s q mode key = wake_up_common s q mode 1 key"

text \<open>\<^verbatim>\<open>__wake_up_sync_key\<close> differs from \<^verbatim>\<open>__wake_up\<close> in the hint to the scheduler and in that it
  accepts a null queue.\<close>

definition wake_up_sync_key ::
  "'z wstate_scheme \<Rightarrow> addr option \<Rightarrow> u32 \<Rightarrow> int \<Rightarrow> wait_bit_key option \<Rightarrow> 'z wstate_scheme option" where
  "wake_up_sync_key s q mode nr key = (case q of
     None \<Rightarrow> Some s
   | Some q' \<Rightarrow> do { _ \<leftarrow> queue_lock s q'; wake_up_common s q' mode nr key })"

definition wake_up :: "'z wstate_scheme \<Rightarrow> addr \<Rightarrow> 'z wstate_scheme option" where
  "wake_up s q = wake_up_raw s q TASK_NORMAL 1 None"

definition wake_up_all :: "'z wstate_scheme \<Rightarrow> addr \<Rightarrow> 'z wstate_scheme option" where
  "wake_up_all s q = wake_up_raw s q TASK_NORMAL 0 None"

definition abort_exclusive_wait ::
  "'z wstate_scheme \<Rightarrow> addr \<Rightarrow> addr \<Rightarrow> addr \<Rightarrow> u32 \<Rightarrow> wait_bit_key option \<Rightarrow> 'z wstate_scheme option" where
  "abort_exclusive_wait s cur q w mode key = do {
     s1 \<leftarrow> set_task_state s cur TASK_RUNNING;
     _ \<leftarrow> queue_lock s1 q;
     emp \<leftarrow> list_empty (lists s1) (Ptr (WLink w));
     if \<not> emp then upd_lists (\<lambda>l. list_del_init l (Ptr (WLink w))) s1
     else do {
       act \<leftarrow> waitqueue_active s1 q;
       if act then wake_up_locked_key s1 q mode key else Some s1 } }"

definition wake_up_bit_raw :: "'z wstate_scheme \<Rightarrow> addr \<Rightarrow> addr \<Rightarrow> nat \<Rightarrow> 'z wstate_scheme option" where
  "wake_up_bit_raw s q word b = do {
     act \<leftarrow> waitqueue_active s q;
     if act then wake_up_raw s q TASK_NORMAL 1 (Some \<lparr>key_flags = word, key_bit_nr = b\<rparr>)
     else Some s }"

section \<open>Sleeping\<close>

definition signal_pending_state :: "u32 \<Rightarrow> task \<Rightarrow> bool" where
  "signal_pending_state st t =
     (if st AND (TASK_INTERRUPTIBLE OR TASK_WAKEKILL) = 0 then False
      else if \<not> t_sigpending t then False
      else st AND TASK_INTERRUPTIBLE \<noteq> 0 \<or> t_fatal t)"

text \<open>The part of \<^verbatim>\<open>schedule\<close> that concerns the task that calls it.\<close>

definition schedule_out :: "'z wstate_scheme \<Rightarrow> addr \<Rightarrow> 'z wstate_scheme option" where
  "schedule_out s cur = do {
     t \<leftarrow> tasks s cur;
     if t_state t \<noteq> 0 then
       if signal_pending_state (t_state t) t then Some (set_task s cur (t\<lparr>t_state := TASK_RUNNING\<rparr>))
       else Some (set_task s cur (t\<lparr>t_on_rq := False\<rparr>))
     else Some s }"

text \<open>
  The environment: one action per turn the other tasks get. The sleeper runs again after the
  first turn that leaves it on a run queue; if the turns run out it sleeps for good.
\<close>

datatype 's resumed = Resumed 's "('s \<Rightarrow> 's option) list" | Asleep 's

fun run_others ::
  "addr \<Rightarrow> ('z wstate_scheme \<Rightarrow> 'z wstate_scheme option) list \<Rightarrow> 'z wstate_scheme
    \<Rightarrow> 'z wstate_scheme resumed option" where
  "run_others cur [] s = Some (Asleep s)"
| "run_others cur (e # es) s = do {
     s1 \<leftarrow> e s;
     t \<leftarrow> tasks s1 cur;
     if t_on_rq t then Some (Resumed s1 es) else run_others cur es s1 }"

definition schedule ::
  "addr \<Rightarrow> ('z wstate_scheme \<Rightarrow> 'z wstate_scheme option) list \<Rightarrow> 'z wstate_scheme
    \<Rightarrow> 'z wstate_scheme resumed option" where
  "schedule cur es s = do { s1 \<leftarrow> schedule_out s cur; run_others cur es s1 }"

text \<open>A call that may block: it returned a value, or it still sleeps.\<close>

datatype ('s, 'r) outcome = Returned 's 'r | Blocked 's

lemma run_others_shorter:
  "run_others cur es s = Some (Resumed s' es') \<Longrightarrow> length es' < length es"
  by (induction es arbitrary: s) (auto split: if_splits elim!: bind_SomeE simp: less_Suc_eq)

lemma schedule_shorter [termination_simp]:
  "schedule cur es s = Some (Resumed s' es') \<Longrightarrow> length es' < length es"
  by (auto simp: schedule_def elim!: bind_SomeE dest: run_others_shorter)

text \<open>
  The sleep loop of \<^verbatim>\<open>__wait_event_interruptible(wq, condition, ret)\<close>; the condition is an
  expression over the state that may itself fault.
\<close>

function wait_event_interruptible_loop ::
  "('z wstate_scheme \<Rightarrow> bool option) \<Rightarrow> addr \<Rightarrow> addr \<Rightarrow> addr
    \<Rightarrow> ('z wstate_scheme \<Rightarrow> 'z wstate_scheme option) list \<Rightarrow> 'z wstate_scheme
    \<Rightarrow> ('z wstate_scheme, int) outcome option" where
  "wait_event_interruptible_loop cond cur q w es s = do {
     s1 \<leftarrow> prepare_to_wait s cur q w TASK_INTERRUPTIBLE;
     c \<leftarrow> cond s1;
     if c then do { s2 \<leftarrow> finish_wait s1 cur q w; Some (Returned s2 0) }
     else do {
       t \<leftarrow> tasks s1 cur;
       if \<not> t_sigpending t then
         (case schedule cur es s1 of
            None \<Rightarrow> None
          | Some (Asleep s2) \<Rightarrow> Some (Blocked s2)
          | Some (Resumed s2 es2) \<Rightarrow> wait_event_interruptible_loop cond cur q w es2 s2)
       else do { s2 \<leftarrow> finish_wait s1 cur q w; Some (Returned s2 (- ERESTARTSYS)) } } }"
  by pat_completeness auto
termination
  by (relation "measure (\<lambda>(cond, cur, q, w, es, s). length es)") (auto dest: schedule_shorter)

declare wait_event_interruptible_loop.simps [simp del]

text \<open>The entry lives on the stack: it is gone when its block is left.\<close>

definition wait_scope_exit :: "'z wstate_scheme \<Rightarrow> addr \<Rightarrow> 'z wstate_scheme" where
  "wait_scope_exit s w = s\<lparr>lists := free_node (lists s) (WLink w), waits := (waits s)(w := None)\<rparr>"

definition wait_event_interruptible ::
  "('z wstate_scheme \<Rightarrow> bool option) \<Rightarrow> addr \<Rightarrow> addr \<Rightarrow> addr
    \<Rightarrow> ('z wstate_scheme \<Rightarrow> 'z wstate_scheme option) list \<Rightarrow> 'z wstate_scheme
    \<Rightarrow> ('z wstate_scheme, int) outcome option" where
  "wait_event_interruptible cond cur q w es s = do {
     c \<leftarrow> cond s;
     if c then Some (Returned s 0)
     else do {
       r \<leftarrow> wait_event_interruptible_loop cond cur q w es (DEFINE_WAIT s w cur);
       Some (case r of
         Returned s2 ret \<Rightarrow> Returned (wait_scope_exit s2 w) ret
       | Blocked s2 \<Rightarrow> Blocked s2) } }"

section \<open>Queues as sequences of waiters\<close>

definition on_queue :: "'z wstate_scheme \<Rightarrow> addr \<Rightarrow> addr list \<Rightarrow> bool" where
  "on_queue s q ws \<longleftrightarrow> is_list (lists s) (QHead q) (map WLink ws)"

text \<open>A waiter that the wake-up functions can handle: its entry and its task exist.\<close>

definition waiter :: "'z wstate_scheme \<Rightarrow> addr \<Rightarrow> bool" where
  "waiter s w \<longleftrightarrow> (\<exists>e p. waits s w = Some e \<and> wq_private e = Some p \<and> p \<in> dom (tasks s)
     \<and> wq_func e \<noteq> Wake_bit)"

definition ttwu_wakes :: "(addr \<rightharpoonup> task) \<Rightarrow> addr \<Rightarrow> u32 \<Rightarrow> bool" where
  "ttwu_wakes ts p mode \<longleftrightarrow> t_state (the (ts p)) AND mode \<noteq> 0 \<and> \<not> t_on_rq (the (ts p))"

definition ttwu_tasks :: "(addr \<rightharpoonup> task) \<Rightarrow> addr \<Rightarrow> u32 \<Rightarrow> (addr \<rightharpoonup> task)" where
  "ttwu_tasks ts p mode =
     (if t_state (the (ts p)) AND mode = 0 then ts
      else ts(p \<mapsto> (the (ts p))\<lparr>t_state := TASK_RUNNING, t_on_rq := True\<rparr>))"

text \<open>
  The specification of a wake-up on sequences: walk the waiters from the front, wake each one
  that sleeps in the given mode, drop the woken entries that remove themselves, and stop after
  the \<open>nr\<close>-th exclusive one.
\<close>

fun wake_seq :: "(addr \<rightharpoonup> wait_queue) \<Rightarrow> u32 \<Rightarrow> addr list \<Rightarrow> int \<Rightarrow> (addr \<rightharpoonup> task)
    \<Rightarrow> (addr \<rightharpoonup> task) \<times> addr list" where
  "wake_seq es mode [] nr ts = (ts, [])"
| "wake_seq es mode (w # ws) nr ts =
     (let e = the (es w); p = the (wq_private e);
          woken = ttwu_wakes ts p mode;
          kept = (if woken \<and> wq_func e = Autoremove_wake then [] else [w]);
          excl = woken \<and> wq_flags e AND WQ_FLAG_EXCLUSIVE \<noteq> 0;
          nr' = (if excl then cint (nr - 1) else nr)
      in if excl \<and> nr' = 0 then (ttwu_tasks ts p mode, kept @ ws)
         else map_prod id (append kept) (wake_seq es mode ws nr' (ttwu_tasks ts p mode)))"

lemma inj_WLink [simp]: "inj_on WLink A"
  by (simp add: inj_on_def)

lemma distinct_WLink [simp]: "distinct (map WLink ws) = distinct ws"
  by (simp add: distinct_map)

lemma remove1_WLink: "remove1 (WLink w) (map WLink ws) = map WLink (remove1 w ws)"
  by (induction ws) auto

lemma on_queue_distinct: "on_queue s q ws \<Longrightarrow> distinct ws"
  by (auto simp: on_queue_def dest: is_list_distinct)

lemma on_queue_lists_only: "lists s = lists s' \<Longrightarrow> on_queue s q ws = on_queue s' q ws"
  by (simp add: on_queue_def)

lemma upd_lists_eq: "f (lists s) = Some l \<Longrightarrow> upd_lists f s = Some (s\<lparr>lists := l\<rparr>)"
  by (simp add: upd_lists_def)

lemma try_to_wake_up_eq:
  assumes "p \<in> dom (tasks s)"
  shows "try_to_wake_up s p mode =
    Some (ttwu_wakes (tasks s) p mode, s\<lparr>tasks := ttwu_tasks (tasks s) p mode\<rparr>)"
proof -
  obtain t where t: "tasks s p = Some t" using assms by auto
  then show ?thesis
    by (cases t) (auto simp: try_to_wake_up_def ttwu_wakes_def ttwu_tasks_def set_task_def)
qed

text \<open>One call of a wake function, on the queue it is called from.\<close>

lemma call_wake_func_spec:
  assumes q: "on_queue s q (ds @ w # ws)" and e: "waits s w = Some e" "wq_private e = Some p"
    "p \<in> dom (tasks s)" "wq_func e \<noteq> Wake_bit"
    and woken: "woken = ttwu_wakes (tasks s) p mode"
    and kept: "kept = (if woken \<and> wq_func e = Autoremove_wake then [] else [w])"
  shows "\<exists>l. call_wake_func s w mode key =
      Some (woken, s\<lparr>lists := l, tasks := ttwu_tasks (tasks s) p mode\<rparr>)
    \<and> is_list l (QHead q) (map WLink (ds @ kept @ ws))
    \<and> (kept = [] \<longrightarrow> is_list l (WLink w) [])
    \<and> frame (lists s) l (set (QHead q # map WLink (ds @ w # ws)))"
proof -
  have l: "is_list (lists s) (QHead q) (map WLink ds @ WLink w # map WLink ws)"
    using q by (simp add: on_queue_def)
  have d: "default_wake_function s w mode = Some (woken, s\<lparr>tasks := ttwu_tasks (tasks s) p mode\<rparr>)"
    using e woken by (simp add: default_wake_function_def try_to_wake_up_eq)
  show ?thesis
  proof (cases "woken \<and> wq_func e = Autoremove_wake")
    case True
    obtain l' where l': "list_del_init (lists s) (Ptr (WLink w)) = Some l'"
      "is_list l' (QHead q) (map WLink ds @ map WLink ws)" "is_list l' (WLink w) []"
      "frame (lists s) l' (set (QHead q # map WLink ds @ WLink w # map WLink ws))"
      using list_del_init_spec_at [OF l] by blast
    then have "call_wake_func s w mode key =
        Some (woken, s\<lparr>lists := l', tasks := ttwu_tasks (tasks s) p mode\<rparr>)"
      using True e d by (simp add: call_wake_func_def autoremove_wake_function_def upd_lists_def)
    then show ?thesis using l' True kept by auto
  next
    case False
    have "call_wake_func s w mode key =
        Some (woken, s\<lparr>lists := lists s, tasks := ttwu_tasks (tasks s) p mode\<rparr>)"
      using False e d
      by (cases "wq_func e") (auto simp: call_wake_func_def autoremove_wake_function_def)
    then show ?thesis using l False kept by (intro exI [of _ "lists s"]) auto
  qed
qed

lemma waiter_upd: "waiter (s\<lparr>lists := l, tasks := ttwu_tasks (tasks s) p mode\<rparr>) w \<longleftrightarrow> waiter s w"
  if "p \<in> dom (tasks s)"
proof -
  have "dom (ttwu_tasks (tasks s) p mode) = dom (tasks s)" using that by (auto simp: ttwu_tasks_def)
  then show ?thesis by (simp add: waiter_def)
qed

text \<open>One round of the loop, beside one round of \<open>wake_seq\<close>: \<open>kept\<close> is what stays of the entry in the queue.\<close>

lemma wake_up_loop_step:
  assumes q: "on_queue s q (ds @ w # ws)" and w: "waiter s w"
    and n: "rd (nxt (lists s)) (Ptr (WLink w)) = Some n"
  obtains l1 p kept stop nr' where
    "p \<in> dom (tasks s)" "kept = [] \<or> kept = [w]" "n = Ptr (hd (map WLink ws @ [QHead q]))"
    "is_list l1 (QHead q) (map WLink (ds @ kept @ ws))" "kept = [] \<longrightarrow> is_list l1 (WLink w) []"
    "frame (lists s) l1 (set (QHead q # map WLink (ds @ w # ws)))"
    "wake_up_loop s q mode nr key (Ptr (WLink w)) n =
      (let s1 = s\<lparr>lists := l1, tasks := ttwu_tasks (tasks s) p mode\<rparr> in
       if stop then Some s1 else Option.bind (rd (nxt l1) n) (\<lambda>n2. wake_up_loop s1 q mode nr' key n n2))"
    "wake_seq (waits s) mode (w # ws) nr (tasks s) =
      (if stop then (ttwu_tasks (tasks s) p mode, kept @ ws)
       else map_prod id (append kept) (wake_seq (waits s) mode ws nr' (ttwu_tasks (tasks s) p mode)))"
proof -
  obtain e p where e: "waits s w = Some e" "wq_private e = Some p" "p \<in> dom (tasks s)" "wq_func e \<noteq> Wake_bit"
    using w by (auto simp: waiter_def)
  define woken where "woken = ttwu_wakes (tasks s) p mode"
  define kept where "kept = (if woken \<and> wq_func e = Autoremove_wake then [] else [w])"
  define excl where "excl = (woken \<and> wq_flags e AND WQ_FLAG_EXCLUSIVE \<noteq> 0)"
  define nr' where "nr' = (if excl then cint (nr - 1) else nr)"
  obtain l1 where l1: "call_wake_func s w mode key =
      Some (woken, s\<lparr>lists := l1, tasks := ttwu_tasks (tasks s) p mode\<rparr>)"
    "is_list l1 (QHead q) (map WLink (ds @ kept @ ws))" "kept = [] \<longrightarrow> is_list l1 (WLink w) []"
    "frame (lists s) l1 (set (QHead q # map WLink (ds @ w # ws)))"
    using call_wake_func_spec [OF q e woken_def kept_def] by blast
  show ?thesis
  proof (rule that [OF e(3) _ _ l1(2-4), of "excl \<and> nr' = 0" nr'])
    show "kept = [] \<or> kept = [w]" by (simp add: kept_def)
    show "n = Ptr (hd (map WLink ws @ [QHead q]))"
      using is_list_nth_next(1) [of "lists s" "QHead q" "map WLink ds" "WLink w" "map WLink ws"] q n
      by (simp add: on_queue_def)
  next
    show "wake_up_loop s q mode nr key (Ptr (WLink w)) n =
        (let s1 = s\<lparr>lists := l1, tasks := ttwu_tasks (tasks s) p mode\<rparr> in
         if excl \<and> nr' = 0 then Some s1 else Option.bind (rd (nxt l1) n) (\<lambda>n2. wake_up_loop s1 q mode nr' key n n2))"
      unfolding wake_up_loop.simps [of s q mode nr key "Ptr (WLink w)" n]
      using e(1) l1(1) by (auto simp: Let_def excl_def nr'_def)
  next
    show "wake_seq (waits s) mode (w # ws) nr (tasks s) =
        (if excl \<and> nr' = 0 then (ttwu_tasks (tasks s) p mode, kept @ ws)
         else map_prod id (append kept) (wake_seq (waits s) mode ws nr' (ttwu_tasks (tasks s) p mode)))"
      by (simp only: wake_seq.simps Let_def e option.sel flip: woken_def kept_def excl_def nr'_def)
  qed
qed

lemma wake_up_loop_spec:
  assumes "on_queue s q (ds @ ws)" "\<And>w. w \<in> set ws \<Longrightarrow> waiter s w"
    and "cu = Ptr (hd (map WLink ws @ [QHead q]))" "rd (nxt (lists s)) cu = Some n"
    and "wake_seq (waits s) mode ws nr (tasks s) = (ts, ks)"
  shows "\<exists>l. wake_up_loop s q mode nr key cu n = Some (s\<lparr>lists := l, tasks := ts\<rparr>)
    \<and> is_list l (QHead q) (map WLink (ds @ ks)) \<and> set ks \<subseteq> set ws
    \<and> (\<forall>w \<in> set ws - set ks. is_list l (WLink w) [])
    \<and> frame (lists s) l (set (QHead q # map WLink (ds @ ws)))"
  using assms
proof (induction ws arbitrary: s ds nr cu n ks)
  case Nil
  then show ?case
    by (intro exI [of _ "lists s"]) (simp add: wake_up_loop.simps [of s q] on_queue_def)
next
  case (Cons w ws)
  have cu: "cu = Ptr (WLink w)" and w: "waiter s w" and n: "rd (nxt (lists s)) (Ptr (WLink w)) = Some n"
    using Cons.prems(2-4) by auto
  have dist: "distinct (ds @ w # ws)" using on_queue_distinct [OF Cons.prems(1)] .
  obtain l1 p kept stop nr' where p: "p \<in> dom (tasks s)" and kw: "kept = [] \<or> kept = [w]"
    and nq: "n = Ptr (hd (map WLink ws @ [QHead q]))"
    and l1: "is_list l1 (QHead q) (map WLink (ds @ kept @ ws))" "kept = [] \<longrightarrow> is_list l1 (WLink w) []"
    "frame (lists s) l1 (set (QHead q # map WLink (ds @ w # ws)))"
    and step: "wake_up_loop s q mode nr key (Ptr (WLink w)) n =
      (let s1 = s\<lparr>lists := l1, tasks := ttwu_tasks (tasks s) p mode\<rparr> in
       if stop then Some s1 else Option.bind (rd (nxt l1) n) (\<lambda>n2. wake_up_loop s1 q mode nr' key n n2))"
    and seq: "wake_seq (waits s) mode (w # ws) nr (tasks s) =
      (if stop then (ttwu_tasks (tasks s) p mode, kept @ ws)
       else map_prod id (append kept) (wake_seq (waits s) mode ws nr' (ttwu_tasks (tasks s) p mode)))"
    by (rule wake_up_loop_step [OF Cons.prems(1) w n])
  let ?s1 = "s\<lparr>lists := l1, tasks := ttwu_tasks (tasks s) p mode\<rparr>"
  show ?case
  proof (cases stop)
    case True
    then have "ks = kept @ ws" "ts = ttwu_tasks (tasks s) p mode" using seq Cons.prems(5) by auto
    then show ?thesis
      using step True l1 kw dist by (intro exI [of _ l1]) (auto simp: cu)
  next
    case False
    obtain ks' where ks': "wake_seq (waits s) mode ws nr' (ttwu_tasks (tasks s) p mode) = (ts, ks')"
      "ks = kept @ ks'"
      using seq Cons.prems(5) False by (cases "wake_seq (waits s) mode ws nr' (ttwu_tasks (tasks s) p mode)") auto
    have "hd (map WLink ws @ [QHead q]) \<in> set (QHead q # map WLink (ds @ kept @ ws))" by (cases ws) auto
    then have "node l1 (hd (map WLink ws @ [QHead q]))" using is_list_node [OF l1(1)] by blast
    then obtain n2 where n2: "rd (nxt l1) n = Some n2" by (auto simp: nq node_def)
    obtain l where l: "wake_up_loop ?s1 q mode nr' key n n2 = Some (?s1\<lparr>lists := l, tasks := ts\<rparr>)"
      "is_list l (QHead q) (map WLink ((ds @ kept) @ ks'))" "set ks' \<subseteq> set ws"
      "\<forall>w \<in> set ws - set ks'. is_list l (WLink w) []"
      "frame l1 l (set (QHead q # map WLink ((ds @ kept) @ ws)))"
      using Cons.IH [of ?s1 "ds @ kept" n n2 nr' ks'] l1(1) n2 nq ks'(1) Cons.prems(2) p
      by (auto simp: on_queue_def waiter_upd)
    have "is_list l (WLink w) []" if "kept = []"
      using is_list_frame [OF l(5), of "WLink w" "[]"] l1(2) that dist by auto
    then have "\<forall>v \<in> set (w # ws) - set ks. is_list l (WLink v) []" using l(4) ks'(2) kw by auto
    moreover have "frame (lists s) l (set (QHead q # map WLink (ds @ w # ws)))"
      using frame_trans [OF l1(3) l(5)] by (rule frame_mono) (use kw in auto)
    ultimately show ?thesis
      using step False n2 l ks'(2) kw by (intro exI [of _ l]) (auto simp: cu)
  qed
qed

text \<open>\<^verbatim>\<open>__wake_up_common\<close> implements the specification on sequences.\<close>

lemma wake_up_common_spec:
  assumes q: "on_queue s q ws" and w: "\<And>w. w \<in> set ws \<Longrightarrow> waiter s w"
    and seq: "wake_seq (waits s) mode ws nr (tasks s) = (ts, ks)"
  shows "\<exists>l. wake_up_common s q mode nr key = Some (s\<lparr>lists := l, tasks := ts\<rparr>)
    \<and> is_list l (QHead q) (map WLink ks) \<and> set ks \<subseteq> set ws
    \<and> (\<forall>w \<in> set ws - set ks. is_list l (WLink w) [])
    \<and> frame (lists s) l (set (QHead q # map WLink ws))"
proof -
  have l: "is_list (lists s) (QHead q) (map WLink ws)" using q by (simp add: on_queue_def)
  let ?cu = "hd (map WLink ws @ [QHead q])"
  have "?cu \<in> set (QHead q # map WLink ws)" by (cases ws) auto
  then have "node (lists s) ?cu" using is_list_node [OF l] by blast
  then obtain n where n: "rd (nxt (lists s)) (Ptr ?cu) = Some n" by (auto simp: node_def)
  have eq: "wake_up_common s q mode nr key = wake_up_loop s q mode nr key (Ptr ?cu) n"
    using is_list_first [OF l] n by (simp add: wake_up_common_def)
  have "on_queue s q ([] @ ws)" using q by simp
  from wake_up_loop_spec [OF this w refl n seq] show ?thesis unfolding eq by simp
qed

lemma on_queue_lock: "on_queue s q ws \<Longrightarrow> queue_lock s q = Some ()"
  by (simp add: on_queue_def queue_lock_def is_list_node)

lemma wake_up_raw_eq: "on_queue s q ws \<Longrightarrow> wake_up_raw s q mode nr key = wake_up_common s q mode nr key"
  by (simp add: wake_up_raw_def on_queue_lock)

section \<open>Who is woken\<close>

definition wq_task :: "(addr \<rightharpoonup> wait_queue) \<Rightarrow> addr \<Rightarrow> addr" where
  "wq_task es w = the (wq_private (the (es w)))"

text \<open>Waiters that \<^verbatim>\<open>prepare_to_wait\<close> has put to sleep: entries that remove themselves, one per
  task, whose tasks sleep in the given mode.\<close>

definition sleepers :: "(addr \<rightharpoonup> wait_queue) \<Rightarrow> (addr \<rightharpoonup> task) \<Rightarrow> u32 \<Rightarrow> addr list \<Rightarrow> bool" where
  "sleepers es ts mode ws \<longleftrightarrow>
     (\<forall>w \<in> set ws. wq_func (the (es w)) = Autoremove_wake \<and> ttwu_wakes ts (wq_task es w) mode)
     \<and> distinct (map (wq_task es) ws)"

definition exclusive :: "(addr \<rightharpoonup> wait_queue) \<Rightarrow> addr \<Rightarrow> bool" where
  "exclusive es w \<longleftrightarrow> wq_flags (the (es w)) AND WQ_FLAG_EXCLUSIVE \<noteq> 0"

definition set_running :: "(addr \<rightharpoonup> task) \<Rightarrow> addr list \<Rightarrow> (addr \<rightharpoonup> task)" where
  "set_running ts ps p =
     (if p \<in> set ps then Some ((the (ts p))\<lparr>t_state := TASK_RUNNING, t_on_rq := True\<rparr>) else ts p)"

lemma set_running_Nil [simp]: "set_running ts [] = ts"
  by (simp add: set_running_def fun_eq_iff)

lemma ttwu_tasks_sleeping:
  "ttwu_wakes ts p mode \<Longrightarrow> ttwu_tasks ts p mode = set_running ts [p]"
  by (auto simp: ttwu_wakes_def ttwu_tasks_def set_running_def fun_eq_iff)

lemma set_running_Cons:
  "p \<notin> set ps \<Longrightarrow> set_running (set_running ts [p]) ps = set_running ts (p # ps)"
  by (auto simp: set_running_def fun_eq_iff)

lemma sleepers_Cons:
  assumes "sleepers es ts mode (w # ws)"
  shows "sleepers es (set_running ts [wq_task es w]) mode ws"
    and "ttwu_wakes ts (wq_task es w) mode" "wq_func (the (es w)) = Autoremove_wake"
    and "wq_task es w \<notin> wq_task es ` set ws"
proof -
  show d: "wq_task es w \<notin> wq_task es ` set ws" "ttwu_wakes ts (wq_task es w) mode"
    "wq_func (the (es w)) = Autoremove_wake"
    using assms by (auto simp: sleepers_def)
  then have "v \<in> set ws \<Longrightarrow> wq_task es v \<noteq> wq_task es w" for v by (metis imageI)
  then show "sleepers es (set_running ts [wq_task es w]) mode ws"
    using assms by (auto simp: sleepers_def ttwu_wakes_def set_running_def)
qed

text \<open>Waking everybody: no entry is exclusive, so none stops the walk.\<close>

lemma wake_seq_all:
  assumes "sleepers es ts mode ws" "\<forall>w \<in> set ws. \<not> exclusive es w"
  shows "wake_seq es mode ws nr ts = (set_running ts (map (wq_task es) ws), [])"
  using assms
proof (induction ws arbitrary: ts)
  case (Cons w ws)
  note sl = sleepers_Cons [OF Cons.prems(1)]
  have "wake_seq es mode ws nr (set_running ts [wq_task es w]) =
      (set_running (set_running ts [wq_task es w]) (map (wq_task es) ws), [])"
    using Cons.IH [OF sl(1)] Cons.prems(2) by simp
  moreover have "wq_flags (the (es w)) AND WQ_FLAG_EXCLUSIVE = 0"
    using Cons.prems(2) by (simp add: exclusive_def)
  ultimately show ?case
    using sl(2,3,4) ttwu_tasks_sleeping [OF sl(2)]
    by (simp add: Let_def set_running_Cons flip: wq_task_def)
qed simp

text \<open>
  Waking one exclusive waiter: the non-exclusive waiters in front and the first exclusive one
  run, the other exclusive waiters stay queued (no thundering herd).
\<close>

lemma wake_seq_one:
  assumes "sleepers es ts mode (ns @ x # xs)" "\<forall>w \<in> set ns. \<not> exclusive es w" "exclusive es x"
  shows "wake_seq es mode (ns @ x # xs) 1 ts = (set_running ts (map (wq_task es) (ns @ [x])), xs)"
  using assms(1,2)
proof (induction ns arbitrary: ts)
  case Nil
  note sl = sleepers_Cons [OF Nil.prems(1) [simplified]]
  show ?case
    using sl(2,3) ttwu_tasks_sleeping [OF sl(2)] assms(3)
    by (simp add: Let_def exclusive_def flip: wq_task_def)
next
  case (Cons w ns)
  note sl = sleepers_Cons [OF Cons.prems(1) [simplified]]
  have "wake_seq es mode (ns @ x # xs) 1 (set_running ts [wq_task es w]) =
      (set_running (set_running ts [wq_task es w]) (map (wq_task es) (ns @ [x])), xs)"
    using Cons.IH [OF sl(1)] Cons.prems(2) by simp
  moreover have "wq_flags (the (es w)) AND WQ_FLAG_EXCLUSIVE = 0"
    using Cons.prems(2) by (simp add: exclusive_def)
  moreover have "wq_task es w \<notin> set (map (wq_task es) (ns @ [x]))" using sl(4) by auto
  ultimately show ?case
    using sl(2,3) ttwu_tasks_sleeping [OF sl(2)]
    by (simp add: Let_def set_running_Cons flip: wq_task_def)
qed

section \<open>Entering and leaving a queue\<close>

lemma set_wait_sel [simp]: "lists (set_wait s w e) = lists s" "tasks (set_wait s w e) = tasks s"
  "waits (set_wait s w e) = (waits s)(w \<mapsto> e)" "kwords (set_wait s w e) = kwords s"
  by (simp_all add: set_wait_def)

lemma set_task_sel [simp]: "lists (set_task s p t) = lists s" "waits (set_task s p t) = waits s"
  "tasks (set_task s p t) = (tasks s)(p \<mapsto> t)" "kwords (set_task s p t) = kwords s"
  by (simp_all add: set_task_def)

lemma queue_lock_upd [simp]: "queue_lock (set_wait s w e) q = queue_lock s q"
  "queue_lock (set_task s p t) q = queue_lock s q"
  by (simp_all add: queue_lock_def)

lemma prepare_to_wait_enqueues:
  assumes q: "on_queue s q ws" and w: "is_list (lists s) (WLink w) []" "w \<notin> set ws"
    and e: "waits s w = Some e" and t: "tasks s cur = Some t"
  shows "\<exists>l. prepare_to_wait s cur q w st =
      Some (s\<lparr>lists := l, waits := (waits s)(w \<mapsto> e\<lparr>wq_flags := wq_flags e AND NOT WQ_FLAG_EXCLUSIVE\<rparr>),
              tasks := (tasks s)(cur \<mapsto> t\<lparr>t_state := st\<rparr>)\<rparr>)
    \<and> is_list l (QHead q) (map WLink (w # ws))
    \<and> frame (lists s) l (set (QHead q # map WLink (w # ws)))"
proof -
  have 0: "is_list (lists s) (QHead q) (map WLink ws)" "node (lists s) (WLink w)"
    "WLink w \<notin> set (QHead q # map WLink ws)"
    using q w is_list_node [OF w(1)] by (auto simp: on_queue_def)
  obtain l where l: "list_add (lists s) (Ptr (WLink w)) (Ptr (QHead q)) = Some l"
    "is_list l (QHead q) (WLink w # map WLink ws)"
    "frame (lists s) l (set (WLink w # QHead q # map WLink ws))"
    using klist.add_law [OF 0] by blast
  have "prepare_to_wait s cur q w st =
      Some (s\<lparr>lists := l, waits := (waits s)(w \<mapsto> e\<lparr>wq_flags := wq_flags e AND NOT WQ_FLAG_EXCLUSIVE\<rparr>),
              tasks := (tasks s)(cur \<mapsto> t\<lparr>t_state := st\<rparr>)\<rparr>)"
    using e t l(1) list_empty_spec [OF w(1)] on_queue_lock [OF q]
    by (simp add: prepare_to_wait_def clear_exclusive_def add_wait_queue_raw_def upd_lists_def
        set_task_state_def) (simp add: set_task_def set_wait_def)
  moreover have "frame (lists s) l (set (QHead q # map WLink (w # ws)))"
    using l(3) by (rule frame_mono) auto
  ultimately show ?thesis using l(2) by (intro exI [of _ l]) simp
qed

lemma prepare_to_wait_queued:
  assumes q: "on_queue s q ws" and w: "w \<in> set ws"
    and e: "waits s w = Some e" and t: "tasks s cur = Some t"
  shows "prepare_to_wait s cur q w st =
      Some (s\<lparr>waits := (waits s)(w \<mapsto> e\<lparr>wq_flags := wq_flags e AND NOT WQ_FLAG_EXCLUSIVE\<rparr>),
              tasks := (tasks s)(cur \<mapsto> t\<lparr>t_state := st\<rparr>)\<rparr>)"
proof -
  obtain us vs where ws: "ws = us @ w # vs" using w by (auto dest: split_list)
  have l: "is_list (lists s) (QHead q) (map WLink us @ WLink w # map WLink vs)"
    using q ws by (simp add: on_queue_def)
  have "hd (map WLink vs @ [QHead q]) \<noteq> WLink w" using list_neighbours(7) [OF l] by simp
  then have "list_empty (lists s) (Ptr (WLink w)) = Some False"
    using is_list_nth_next(1) [OF l] by (simp add: list_empty_def)
  then show ?thesis
    using e t on_queue_lock [OF q]
    by (simp add: prepare_to_wait_def clear_exclusive_def set_task_state_def)
      (simp add: set_task_def set_wait_def)
qed

lemma finish_wait_queued:
  assumes q: "on_queue s q ws" and w: "w \<in> set ws" and t: "tasks s cur = Some t"
  shows "\<exists>l. finish_wait s cur q w =
      Some (s\<lparr>lists := l, tasks := (tasks s)(cur \<mapsto> t\<lparr>t_state := TASK_RUNNING\<rparr>)\<rparr>)
    \<and> is_list l (QHead q) (map WLink (remove1 w ws)) \<and> is_list l (WLink w) []
    \<and> frame (lists s) l (set (QHead q # map WLink ws))"
proof -
  have l: "is_list (lists s) (QHead q) (map WLink ws)" using q by (simp add: on_queue_def)
  then obtain l' where l': "list_del_init (lists s) (Ptr (WLink w)) = Some l'"
    "is_list l' (QHead q) (remove1 (WLink w) (map WLink ws))" "is_list l' (WLink w) []"
    "frame (lists s) l' (set (QHead q # map WLink ws))"
    using klist.del_init_law [OF l, of "WLink w"] w by auto
  obtain us vs where ws: "ws = us @ w # vs" using w by (auto dest: split_list)
  have lw: "is_list (lists s) (QHead q) (map WLink us @ WLink w # map WLink vs)"
    using l ws by simp
  have "list_empty_careful (lists s) (Ptr (WLink w)) = Some False"
    using is_list_nth_next(1) [OF lw] list_neighbours(7) [OF lw] by (simp add: list_empty_careful_def)
  then have "finish_wait s cur q w =
      Some (s\<lparr>lists := l', tasks := (tasks s)(cur \<mapsto> t\<lparr>t_state := TASK_RUNNING\<rparr>)\<rparr>)"
    using t l'(1) on_queue_lock [OF q]
    by (simp add: finish_wait_def set_task_state_def upd_lists_def) (simp add: set_task_def)
  then show ?thesis using l' by (auto simp: remove1_WLink)
qed

text \<open>A woken waiter has been taken off the queue already; then \<^verbatim>\<open>finish_wait\<close> does not touch the
  queue (which may be gone by then).\<close>

lemma finish_wait_unqueued:
  assumes "is_list (lists s) (WLink w) []" "tasks s cur = Some t"
  shows "finish_wait s cur q w = Some (s\<lparr>tasks := (tasks s)(cur \<mapsto> t\<lparr>t_state := TASK_RUNNING\<rparr>)\<rparr>)"
  using assms list_empty_careful_spec [OF assms(1)]
  by (simp add: finish_wait_def set_task_state_def set_task_def)

end
