(* ===== verification/Events.thy ===== *)
theory Events
  imports Wait_Queue
begin

unbundle bit_operations_syntax

text \<open>
  The event system calls of csc456/eventsyscalls.c over \<^verbatim>\<open>struct event\<close> of include/linux/event.h.
  An event is named by its address; its links \<^verbatim>\<open>eventlist\<close> and \<^verbatim>\<open>queue.task_list\<close> are nodes of
  the list heap, and the global \<^verbatim>\<open>allevents\<close> is the event at address 0. A system call takes
  the state and the address of the current task and returns the new state with the value of
  the call; \<^term>\<open>None\<close> is undefined behaviour (see \<^theory_text>\<open>Prelude\<close>).

  The allocator is an argument: \<^verbatim>\<open>sys_doeventopen\<close> takes what \<^verbatim>\<open>kmalloc\<close> returned, a fresh
  address with its uninitialised contents or null. The critical sections of the reader-writer
  lock \<^verbatim>\<open>lock\<close> are single steps; the lock itself is the subject of \<^theory_text>\<open>Locks\<close>. User memory is
  a map from addresses of 32-bit cells; a cell may be unmapped or read-only.
\<close>

section \<open>State\<close>

record event =
  ev_id :: int
  ev_uid :: u32
  ev_gid :: u32
  ev_uidFlag :: int
  ev_gidFlag :: int
  ev_condition :: int

record kstate = wstate +
  events :: "addr \<rightharpoonup> event"

definition allevents :: addr where
  "allevents = 0"

definition upd_event :: "kstate \<Rightarrow> addr \<Rightarrow> (event \<Rightarrow> event) \<Rightarrow> kstate option" where
  "upd_event s a f = do { e \<leftarrow> events s a; Some (s\<lparr>events := (events s)(a \<mapsto> f e)\<rparr>) }"

text \<open>The state at boot, before \<^verbatim>\<open>doevent_init\<close>: the global is zeroed memory.\<close>

definition boot_state :: "(addr \<rightharpoonup> task) \<Rightarrow> kstate" where
  "boot_state ts = \<lparr>
     lists = \<lparr>nxt = [ELink allevents \<mapsto> NULL, QHead allevents \<mapsto> NULL],
              prv = [ELink allevents \<mapsto> NULL, QHead allevents \<mapsto> NULL]\<rparr>,
     waits = Map.empty, tasks = ts, kwords = Map.empty,
     events = [allevents \<mapsto> \<lparr>ev_id = 0, ev_uid = 0, ev_gid = 0, ev_uidFlag = 0, ev_gidFlag = 0,
                             ev_condition = 0\<rparr>]\<rparr>"

definition doevent_init :: "kstate \<Rightarrow> kstate option" where
  "doevent_init s = do {
     s1 \<leftarrow> upd_lists (\<lambda>l. INIT_LIST_HEAD l (Ptr (ELink allevents))) s;
     s2 \<leftarrow> upd_event s1 allevents (\<lambda>e. e\<lparr>ev_id := - 1\<rparr>);
     init_waitqueue_head s2 allevents }"

section \<open>Utility functions\<close>

definition getTaskuid :: "kstate \<Rightarrow> addr \<Rightarrow> u32 option" where
  "getTaskuid s p = do { t \<leftarrow> tasks s p; Some (t_euid t) }"

definition getTaskgid :: "kstate \<Rightarrow> addr \<Rightarrow> u32 option" where
  "getTaskgid s p = do { t \<leftarrow> tasks s p; Some (t_egid t) }"

definition isValidEventId :: "int \<Rightarrow> bool" where
  "isValidEventId eventId \<longleftrightarrow> eventId < 0"

definition validateEvent :: "kstate \<Rightarrow> addr \<Rightarrow> bool \<Rightarrow> addr option \<Rightarrow> bool option" where
  "validateEvent s cur userCheck event = (case event of
     None \<Rightarrow> Some False
   | Some a \<Rightarrow>
       if userCheck then do {
         u \<leftarrow> getTaskuid s cur;
         if u = 0 then Some True
         else do {
           e \<leftarrow> events s a;
           if u = ev_uid e \<and> ev_uidFlag e = 1 then Some True
           else do {
             g \<leftarrow> getTaskgid s cur;
             Some (g = ev_gid e \<and> ev_gidFlag e = 1) } } }
       else Some True)"

definition validateUserEvent :: "kstate \<Rightarrow> addr \<Rightarrow> addr option \<Rightarrow> bool option" where
  "validateUserEvent s cur event = (case event of
     None \<Rightarrow> Some False
   | Some a \<Rightarrow> do {
       u \<leftarrow> getTaskuid s cur;
       if u = 0 then Some True
       else do { e \<leftarrow> events s a; Some (u = ev_uid e) } })"

text \<open>
  The search loop that every call repeats: \<open>we\<close> is the variable \<^verbatim>\<open>waitEvent\<close>, null in the calls
  that initialise it, an indeterminate value in \<^verbatim>\<open>sys_doeventchown\<close>, \<^verbatim>\<open>sys_doeventchmod\<close> and
  \<^verbatim>\<open>sys_doeventstat\<close>, which do not.
\<close>

definition search_body :: "kstate \<Rightarrow> int \<Rightarrow> lnode \<Rightarrow> addr option \<Rightarrow> (bool \<times> addr option) option" where
  "search_body s eventID i we = (case i of
     ELink a \<Rightarrow> do {
       e \<leftarrow> events s a;
       if ev_id e = eventID then Some (True, Some a) else Some (False, None) }
   | _ \<Rightarrow> None)"

definition search_event :: "kstate \<Rightarrow> int \<Rightarrow> addr option \<Rightarrow> addr option option" where
  "search_event s eventID we = list_for_each (lists s) (ELink allevents) (search_body s eventID) we"

text \<open>The loop \<^verbatim>\<open>list_for_each(j, &waitEvent->queue.task_list) process++\<close>.\<close>

definition count_waiters :: "kstate \<Rightarrow> addr \<Rightarrow> int option" where
  "count_waiters s a = list_for_each (lists s) (QHead a) (\<lambda>_ n. Some (False, cint (n + 1))) 0"

section \<open>System calls\<close>

text \<open>What \<^verbatim>\<open>kmalloc(sizeof(struct event))\<close> returned: null, or an address, with the
  uninitialised contents of the new object.\<close>

type_synonym kmalloc_event = "(addr \<times> event \<times> lnode ptr) option"

definition place_event :: "kstate \<Rightarrow> addr \<Rightarrow> event \<Rightarrow> lnode ptr \<Rightarrow> kstate" where
  "place_event s a g gp = s\<lparr>events := (events s)(a \<mapsto> g),
     lists := mk_node (mk_node (lists s) (ELink a) gp gp) (QHead a) gp gp\<rparr>"

definition sys_doeventopen :: "kstate \<Rightarrow> addr \<Rightarrow> kmalloc_event \<Rightarrow> (kstate \<times> int) option" where
  "sys_doeventopen s cur newevent = (case newevent of
     None \<Rightarrow> Some (s, - 1)
   | Some (a, g, gp) \<Rightarrow> do {
       s1 \<leftarrow> upd_lists (\<lambda>l. INIT_LIST_HEAD l (Ptr (ELink a))) (place_event s a g gp);
       s2 \<leftarrow> upd_lists (\<lambda>l. list_add_tail l (Ptr (ELink a)) (Ptr (ELink allevents))) s1;
       p \<leftarrow> rd (prv (lists s2)) (Ptr (ELink a));
       lastev \<leftarrow> (case p of Ptr (ELink b) \<Rightarrow> events s2 b | _ \<Rightarrow> None);
       s3 \<leftarrow> upd_event s2 a (\<lambda>e. e\<lparr>ev_id := cint (ev_id lastev + 1)\<rparr>);
       s4 \<leftarrow> upd_event s3 a (\<lambda>e. e\<lparr>ev_uidFlag := 1\<rparr>);
       s5 \<leftarrow> upd_event s4 a (\<lambda>e. e\<lparr>ev_gidFlag := 1\<rparr>);
       t \<leftarrow> tasks s5 cur;
       s6 \<leftarrow> upd_event s5 a (\<lambda>e. e\<lparr>ev_uid := t_euid t, ev_gid := t_egid t\<rparr>);
       s7 \<leftarrow> init_waitqueue_head s6 a;
       s8 \<leftarrow> upd_event s7 a (\<lambda>e. e\<lparr>ev_condition := 0\<rparr>);
       e \<leftarrow> events s8 a;
       Some (s8, ev_id e) })"

definition kfree_event :: "kstate \<Rightarrow> addr \<Rightarrow> kstate" where
  "kfree_event s a = s\<lparr>events := (events s)(a := None),
     lists := free_node (free_node (lists s) (ELink a)) (QHead a)\<rparr>"

text \<open>
  \<^verbatim>\<open>sys_doeventclose\<close> holds the lock twice: for reading while it looks the event up, and for
  writing while it wakes the waiters and unlinks the event. Each critical section is one
  definition, so that two calls can be interleaved at the points where the lock is free.
\<close>

definition close_lookup :: "kstate \<Rightarrow> addr \<Rightarrow> int \<Rightarrow> addr option option" where
  "close_lookup s cur eventID = do {
     we \<leftarrow> search_event s eventID None;
     ok \<leftarrow> validateEvent s cur True we;
     Some (if ok then we else None) }"

definition close_unlink :: "kstate \<Rightarrow> addr \<Rightarrow> bool \<Rightarrow> (kstate \<times> int) option" where
  "close_unlink s a process = do {
     (s1, n) \<leftarrow> (if process then do {
         n \<leftarrow> count_waiters s a;
         s' \<leftarrow> upd_event s a (\<lambda>e. e\<lparr>ev_condition := 1\<rparr>);
         s'' \<leftarrow> wake_up_all s' a;
         Some (s'', n) }
       else Some (s, 0));
     s2 \<leftarrow> upd_lists (\<lambda>l. list_del_init l (Ptr (ELink a))) s1;
     Some (s2, n) }"

definition close_event :: "kstate \<Rightarrow> addr \<Rightarrow> (kstate \<times> int) option" where
  "close_event s a = do {
     process \<leftarrow> waitqueue_active s a;
     (s1, n) \<leftarrow> close_unlink s a process;
     Some (kfree_event s1 a, n) }"

definition sys_doeventclose :: "kstate \<Rightarrow> addr \<Rightarrow> int \<Rightarrow> (kstate \<times> int) option" where
  "sys_doeventclose s cur eventID =
     (if isValidEventId eventID then Some (s, - 1)
      else do {
        found \<leftarrow> close_lookup s cur eventID;
        case found of
          Some a \<Rightarrow> close_event s a
        | None \<Rightarrow> Some (s, - 1) })"

text \<open>The condition \<^verbatim>\<open>waitEvent->condition != 0\<close> reads the event.\<close>

definition event_condition :: "addr \<Rightarrow> kstate \<Rightarrow> bool option" where
  "event_condition a s = do { e \<leftarrow> events s a; Some (ev_condition e \<noteq> 0) }"

text \<open>\<open>w\<close> is the address of the stack variable \<^verbatim>\<open>__wait\<close>; \<open>env\<close> are the turns of the other
  tasks while this one sleeps.\<close>

definition sys_doeventwait ::
  "kstate \<Rightarrow> addr \<Rightarrow> addr \<Rightarrow> (kstate \<Rightarrow> kstate option) list \<Rightarrow> int \<Rightarrow> (kstate, int) outcome option" where
  "sys_doeventwait s cur w env eventID =
     (if isValidEventId eventID then Some (Returned s (- 1))
      else do {
        we \<leftarrow> search_event s eventID None;
        ok \<leftarrow> validateEvent s cur True we;
        if ok then (case we of
          None \<Rightarrow> None
        | Some a \<Rightarrow> do {
            s1 \<leftarrow> upd_event s a (\<lambda>e. e\<lparr>ev_condition := 0\<rparr>);
            r \<leftarrow> wait_event_interruptible (event_condition a) cur a w env s1;
            Some (case r of Returned s2 _ \<Rightarrow> Returned s2 1 | Blocked s2 \<Rightarrow> Blocked s2) })
        else Some (Returned s (- 1)) })"

definition sys_doeventsig :: "kstate \<Rightarrow> addr \<Rightarrow> int \<Rightarrow> (kstate \<times> int) option" where
  "sys_doeventsig s cur eventID =
     (if isValidEventId eventID then Some (s, - 1)
      else do {
        we \<leftarrow> search_event s eventID None;
        ok \<leftarrow> validateEvent s cur True we;
        if ok then (case we of
          None \<Rightarrow> None
        | Some a \<Rightarrow> do {
            act \<leftarrow> waitqueue_active s a;
            if act then do {
              n \<leftarrow> count_waiters s a;
              s1 \<leftarrow> upd_event s a (\<lambda>e. e\<lparr>ev_condition := 1\<rparr>);
              s2 \<leftarrow> wake_up_all s1 a;
              Some (s2, n) }
            else Some (s, 0) })
        else Some (s, - 1) })"

section \<open>User memory\<close>

record umem =
  um_cells :: "addr \<rightharpoonup> u32"
  um_ro :: "addr \<Rightarrow> bool"

text \<open>Both functions return the number of bytes that could not be copied.\<close>

definition copy_from_user_cell :: "umem \<Rightarrow> addr \<Rightarrow> u32 \<times> nat" where
  "copy_from_user_cell m p = (case um_cells m p of Some v \<Rightarrow> (v, 0) | None \<Rightarrow> (0, 4))"

fun copy_to_user :: "umem \<Rightarrow> addr \<Rightarrow> u32 list \<Rightarrow> umem \<times> nat" where
  "copy_to_user m p [] = (m, 0)"
| "copy_to_user m p (v # vs) =
     (if um_cells m p = None \<or> um_ro m p then (m, 4 * length (v # vs))
      else copy_to_user (m\<lparr>um_cells := (um_cells m)(p \<mapsto> v)\<rparr>) (Suc p) vs)"

definition info_body ::
  "kstate \<Rightarrow> int \<Rightarrow> bool \<Rightarrow> lnode \<Rightarrow> int \<times> int list \<Rightarrow> (bool \<times> int \<times> int list) option" where
  "info_body s num nonnull i st = (case st of (check, arr) \<Rightarrow>
     if check < num \<and> nonnull then (case i of
       ELink a \<Rightarrow> do { e \<leftarrow> events s a; Some (False, cint (check + 1), arr[nat check := ev_id e]) }
     | _ \<Rightarrow> None)
     else Some (False, cint (check + 1), arr))"

text \<open>\<open>eventIDs\<close> is the user pointer, \<^term>\<open>None\<close> for null. The array on the stack has \<open>num\<close>
  elements; \<open>room\<close> is the number of elements for which the kernel stack has room. The array is declared before \<open>num\<close> is
  tested, and a declaration with a negative size or with more elements than there is room for is undefined
  behaviour. The loop over \<open>p\<close> sets each element to \<open>- 1\<close>.\<close>

definition sys_doeventinfo ::
  "kstate \<Rightarrow> umem \<Rightarrow> int \<Rightarrow> int \<Rightarrow> addr option \<Rightarrow> (umem \<times> int) option" where
  "sys_doeventinfo s m room num eventIDs =
     (if num < 0 \<or> room < num then None
      else if num < 0 \<and> eventIDs \<noteq> None then Some (m, - 1)
      else if (case eventIDs of None \<Rightarrow> False | Some p \<Rightarrow> snd (copy_from_user_cell m p) \<noteq> 0)
      then Some (m, - 1)
      else do {
        (check, arr) \<leftarrow> list_for_each (lists s) (ELink allevents)
          (info_body s num (eventIDs \<noteq> None)) (0, replicate (nat num) (- 1));
        let (m', left) = (case eventIDs of
            Some p \<Rightarrow> if check \<le> num then copy_to_user m p (map word_of_int arr) else (m, 0)
          | None \<Rightarrow> (m, 0));
        if left \<noteq> 0 then Some (m', - 1)
        else if check > num \<and> eventIDs \<noteq> None then Some (m', - 1)
        else Some (m', check) })"

text \<open>\<open>junk\<close> is the indeterminate initial value of \<^verbatim>\<open>waitEvent\<close>. The tests \<^verbatim>\<open>UID < 0\<close> and
  \<^verbatim>\<open>GID < 0\<close> on unsigned values are false.\<close>

definition sys_doeventchown ::
  "kstate \<Rightarrow> addr \<Rightarrow> addr option \<Rightarrow> int \<Rightarrow> u32 \<Rightarrow> u32 \<Rightarrow> (kstate \<times> int) option" where
  "sys_doeventchown s cur junk eventID UID GID =
     (if isValidEventId eventID \<or> uint UID < 0 \<or> uint GID < 0 then Some (s, - 1)
      else do {
        we \<leftarrow> search_event s eventID junk;
        ok \<leftarrow> validateUserEvent s cur we;
        if ok then (case we of
          None \<Rightarrow> None
        | Some a \<Rightarrow> do {
            s1 \<leftarrow> upd_event s a (\<lambda>e. e\<lparr>ev_uid := UID, ev_gid := GID\<rparr>);
            Some (s1, 0) })
        else Some (s, - 1) })"

definition sys_doeventchmod ::
  "kstate \<Rightarrow> addr \<Rightarrow> addr option \<Rightarrow> int \<Rightarrow> int \<Rightarrow> int \<Rightarrow> (kstate \<times> int) option" where
  "sys_doeventchmod s cur junk eventID UIDFlag GIDFlag =
     (if isValidEventId eventID then Some (s, - 1)
      else do {
        we \<leftarrow> search_event s eventID junk;
        ok \<leftarrow> validateUserEvent s cur we;
        if ok then (case we of
          None \<Rightarrow> None
        | Some a \<Rightarrow> do {
            s1 \<leftarrow> upd_event s a (\<lambda>e. e\<lparr>ev_uidFlag := UIDFlag, ev_gidFlag := GIDFlag\<rparr>);
            Some (s1, 0) })
        else Some (s, - 1) })"

text \<open>The local variables of \<^verbatim>\<open>sys_doeventstat\<close>: what the pointer checks read from user space,
  then the fields of the event if one is found.\<close>

definition stat_read :: "umem \<Rightarrow> addr option \<Rightarrow> u32 \<times> nat" where
  "stat_read m p = (case p of None \<Rightarrow> (0, 0) | Some a \<Rightarrow> copy_from_user_cell m a)"

definition stat_write :: "umem \<Rightarrow> addr option \<Rightarrow> u32 \<Rightarrow> umem \<times> nat" where
  "stat_write m p v = (case p of None \<Rightarrow> (m, 0) | Some a \<Rightarrow> copy_to_user m a [v])"

definition stat_body :: "kstate \<Rightarrow> int \<Rightarrow> lnode \<Rightarrow> addr option \<times> u32 \<times> u32 \<times> u32 \<times> u32
    \<Rightarrow> (bool \<times> addr option \<times> u32 \<times> u32 \<times> u32 \<times> u32) option" where
  "stat_body s eventID i st = (case i of
     ELink a \<Rightarrow> do {
       e \<leftarrow> events s a;
       if ev_id e = eventID
       then Some (True, Some a, ev_uid e, ev_gid e, word_of_int (ev_uidFlag e), word_of_int (ev_gidFlag e))
       else Some (False, None, snd st) }
   | _ \<Rightarrow> None)"

definition sys_doeventstat ::
  "kstate \<Rightarrow> umem \<Rightarrow> addr option \<Rightarrow> int \<Rightarrow> addr option \<Rightarrow> addr option \<Rightarrow> addr option \<Rightarrow> addr option
    \<Rightarrow> (umem \<times> int) option" where
  "sys_doeventstat s m junk eventID UID GID UIDFlag GIDFlag =
     (let (u, n1) = stat_read m UID; (g, n2) = stat_read m GID;
          (uf, n3) = stat_read m UIDFlag; (gf, n4) = stat_read m GIDFlag
      in if n1 \<noteq> 0 \<or> n2 \<noteq> 0 \<or> n3 \<noteq> 0 \<or> n4 \<noteq> 0 then Some (m, - 1)
      else if isValidEventId eventID then Some (m, - 1)
      else do {
        (we, u', g', uf', gf') \<leftarrow>
          list_for_each (lists s) (ELink allevents) (stat_body s eventID) (junk, u, g, uf, gf);
        if we = None then Some (m, - 1)
        else
          let (m1, c1) = stat_write m UID u'; (m2, c2) = stat_write m1 GID g';
              (m3, c3) = stat_write m2 UIDFlag uf'; (m4, c4) = stat_write m3 GIDFlag gf'
          in if c1 \<noteq> 0 \<or> c2 \<noteq> 0 \<or> c3 \<noteq> 0 \<or> c4 \<noteq> 0 then Some (m4, - EFAULT)
             else Some (m4, 0) })"

end
