(* ===== verification/Event_Inv.thy ===== *)
theory Event_Inv
  imports Events
begin

unbundle bit_operations_syntax

text \<open>
  The invariant of the event table and what each system call does to it. \<open>kinv s es qs\<close> reads
  a state as the sequence \<open>es\<close> of the open events, in the order of the list \<^verbatim>\<open>allevents\<close>, and
  for each of them the sequence \<open>qs a\<close> of the entries on its wait queue.
\<close>

section \<open>The invariant\<close>

definition ev :: "kstate \<Rightarrow> addr \<Rightarrow> event" where
  "ev s a = the (events s a)"

definition ev_ids :: "kstate \<Rightarrow> addr list \<Rightarrow> int list" where
  "ev_ids s es = map (\<lambda>a. ev_id (ev s a)) es"

text \<open>An entry that \<^verbatim>\<open>sys_doeventwait\<close> has queued.\<close>

definition ev_waiter :: "kstate \<Rightarrow> addr \<Rightarrow> bool" where
  "ev_waiter s w \<longleftrightarrow> waiter s w \<and> wq_func (the (waits s w)) = Autoremove_wake
     \<and> \<not> exclusive (waits s) w"

text \<open>
  The list of events is well formed and holds allocated events; the head keeps the id \<open>- 1\<close>;
  the ids are non-negative, strictly ascending and in the range of an int; every open event
  has a well-formed queue of waiters.
\<close>

definition kinv :: "kstate \<Rightarrow> addr list \<Rightarrow> (addr \<Rightarrow> addr list) \<Rightarrow> bool" where
  "kinv s es qs \<longleftrightarrow>
     is_list (lists s) (ELink allevents) (map ELink es)
   \<and> events s allevents \<noteq> None \<and> ev_id (ev s allevents) = - 1
   \<and> set es \<subseteq> dom (events s)
   \<and> sorted_wrt (<) (- 1 # ev_ids s es)
   \<and> (\<forall>i \<in> set (ev_ids s es). i \<le> INT_MAX)
   \<and> (\<forall>a \<in> set es. on_queue s a (qs a) \<and> (\<forall>w \<in> set (qs a). ev_waiter s w))"

lemma inj_ELink [simp]: "inj_on ELink A"
  by (simp add: inj_on_def)

lemma remove1_ELink: "remove1 (ELink a) (map ELink es) = map ELink (remove1 a es)"
  by (induction es) auto

lemma kinvD:
  assumes "kinv s es qs"
  shows "is_list (lists s) (ELink allevents) (map ELink es)" "events s allevents \<noteq> None"
    "ev_id (ev s allevents) = - 1" "set es \<subseteq> dom (events s)"
    "sorted_wrt (<) (- 1 # ev_ids s es)" "\<And>i. i \<in> set (ev_ids s es) \<Longrightarrow> i \<le> INT_MAX"
    "\<And>a. a \<in> set es \<Longrightarrow> on_queue s a (qs a)"
    "\<And>a w. a \<in> set es \<Longrightarrow> w \<in> set (qs a) \<Longrightarrow> ev_waiter s w"
  using assms by (auto simp: kinv_def)

lemma kinv_distinct:
  assumes "kinv s es qs"
  shows "distinct es" "allevents \<notin> set es"
  using is_list_distinct [OF kinvD(1) [OF assms]] by (auto simp: distinct_map)

lemma kinv_event: "kinv s es qs \<Longrightarrow> a \<in> set es \<Longrightarrow> events s a = Some (ev s a)"
  by (auto simp: kinv_def ev_def)

lemma kinv_ids_distinct:
  assumes "kinv s es qs"
  shows "distinct (ev_ids s es)" "\<And>i. i \<in> set (ev_ids s es) \<Longrightarrow> 0 \<le> i"
proof -
  have s: "sorted_wrt (<) (ev_ids s es)" "\<forall>i \<in> set (ev_ids s es). - 1 < i"
    using kinvD(5) [OF assms] by auto
  show "distinct (ev_ids s es)" using s(1) by (simp add: strict_sorted_iff)
  show "\<And>i. i \<in> set (ev_ids s es) \<Longrightarrow> 0 \<le> i" using s(2) by force
qed

lemma kinv_id_inj:
  "kinv s es qs \<Longrightarrow> a \<in> set es \<Longrightarrow> b \<in> set es \<Longrightarrow> ev_id (ev s a) = ev_id (ev s b) \<Longrightarrow> a = b"
  using kinv_ids_distinct(1) [of s es qs] by (auto simp: ev_ids_def distinct_map dest: inj_onD)

text \<open>Waiters of different events are different.\<close>

lemma kinv_queues_disjoint:
  assumes k: "kinv s es qs" and ab: "a \<in> set es" "b \<in> set es" "a \<noteq> b"
  shows "set (qs a) \<inter> set (qs b) = {}"
proof -
  have "is_list (lists s) (QHead a) (map WLink (qs a))" "is_list (lists s) (QHead b) (map WLink (qs b))"
    using kinvD(7) [OF k] ab by (simp_all add: on_queue_def)
  then have "set (QHead a # map WLink (qs a)) \<inter> set (QHead b # map WLink (qs b)) = {}"
    by (rule is_list_disjoint) (use ab in auto)
  then show ?thesis by auto
qed

text \<open>An entry on no queue is untouched by a change of a queue.\<close>

definition unlinked :: "kstate \<Rightarrow> addr \<Rightarrow> bool" where
  "unlinked s w \<longleftrightarrow> is_list (lists s) (WLink w) []"

lemma unlinked_not_queued: "unlinked s w \<Longrightarrow> on_queue s b ws \<Longrightarrow> w \<notin> set ws"
  using is_list_disjoint [of "lists s" "WLink w" "[]" "QHead b" "map WLink ws"]
  by (auto simp: unlinked_def on_queue_def)

lemma unlinked_frame:
  assumes k: "kinv s es qs" and a: "a \<in> set es" and v: "unlinked s v" "v \<notin> V"
    and fr: "frame (lists s) l (insert (QHead a) (WLink ` (V \<union> set (qs a))))"
  shows "is_list l (WLink v) []"
  using unlinked_not_queued [OF v(1) kinvD(7) [OF k a]] v is_list_frame [OF fr, of "WLink v" "[]"]
  by (auto simp: unlinked_def)

section \<open>The search\<close>

definition find_id :: "kstate \<Rightarrow> int \<Rightarrow> addr list \<Rightarrow> addr option" where
  "find_id s i es = find (\<lambda>a. ev_id (ev s a) = i) es"

lemma search_body_ELink [simp]:
  "events s a = Some e \<Longrightarrow>
   search_body s i (ELink a) we = Some (if ev_id e = i then (True, Some a) else (False, None))"
  by (simp add: search_body_def)

lemma fold_search:
  assumes "\<And>a. a \<in> set es \<Longrightarrow> events s a = Some (ev s a)"
  shows "fold_brk (search_body s i) (map ELink es) we = Some (if es = [] then we else find_id s i es)"
  using assms
proof (induction es arbitrary: we)
  case (Cons a es)
  have "fold_brk (search_body s i) (map ELink es) None = Some (find_id s i es)"
    using Cons.IH [of None] Cons.prems by (cases es) (auto simp: find_id_def)
  then show ?case using Cons.prems [of a] by (simp add: find_id_def)
qed simp

lemma search_event_spec:
  assumes "kinv s es qs"
  shows "search_event s i we = Some (if es = [] then we else find_id s i es)"
  using fold_search [of es s i we] kinv_event [OF assms]
  by (simp add: search_event_def list_for_each_spec [OF kinvD(1) [OF assms]])

lemma find_id_Some: "find_id s i es = Some a \<Longrightarrow> a \<in> set es \<and> ev_id (ev s a) = i"
  by (auto simp: find_id_def find_Some_iff in_set_conv_nth)

lemma find_id_eq:
  assumes "kinv s es qs" "a \<in> set es"
  shows "find_id s (ev_id (ev s a)) es = Some a"
proof -
  obtain b where b: "find_id s (ev_id (ev s a)) es = Some b"
    using assms(2) by (cases "find_id s (ev_id (ev s a)) es") (auto simp: find_id_def find_None_iff)
  then show ?thesis using find_id_Some [OF b] kinv_id_inj [OF assms(1)] assms(2) by auto
qed

lemma find_id_None: "find_id s i es = None \<longleftrightarrow> i \<notin> set (ev_ids s es)"
  by (auto simp: find_id_def find_None_iff ev_ids_def)

lemma search_event_found:
  assumes "kinv s es qs" "a \<in> set es"
  shows "search_event s (ev_id (ev s a)) we = Some (Some a)"
  using assms search_event_spec [OF assms(1)] find_id_eq [OF assms] by (cases es) auto

lemma search_event_missing:
  assumes "kinv s es qs" "i \<notin> set (ev_ids s es)"
  shows "search_event s i None = Some None"
  using assms search_event_spec [OF assms(1)] find_id_None [of s i es] by auto

section \<open>Permissions\<close>

definition may_use :: "kstate \<Rightarrow> addr \<Rightarrow> event \<Rightarrow> bool" where
  "may_use s cur e \<longleftrightarrow> (case tasks s cur of None \<Rightarrow> False | Some t \<Rightarrow>
     t_euid t = 0 \<or> (t_euid t = ev_uid e \<and> ev_uidFlag e = 1) \<or> (t_egid t = ev_gid e \<and> ev_gidFlag e = 1))"

definition may_change :: "kstate \<Rightarrow> addr \<Rightarrow> event \<Rightarrow> bool" where
  "may_change s cur e \<longleftrightarrow> (case tasks s cur of None \<Rightarrow> False | Some t \<Rightarrow>
     t_euid t = 0 \<or> t_euid t = ev_uid e)"

lemma validateEvent_spec:
  assumes "tasks s cur = Some t" "events s a = Some e"
  shows "validateEvent s cur True (Some a) = Some (may_use s cur e)"
  using assms by (auto simp: validateEvent_def getTaskuid_def getTaskgid_def may_use_def)

lemma validateUserEvent_spec:
  assumes "tasks s cur = Some t" "events s a = Some e"
  shows "validateUserEvent s cur (Some a) = Some (may_change s cur e)"
  using assms by (auto simp: validateUserEvent_def getTaskuid_def may_change_def)

lemma validate_None [simp]: "validateEvent s cur c None = Some False" "validateUserEvent s cur None = Some False"
  by (simp_all add: validateEvent_def validateUserEvent_def)

section \<open>Counting the waiters\<close>

text \<open>The counter is an int and wraps.\<close>

lemma fold_count:
  "fold_brk (\<lambda>_ n. Some (False, cint (n + 1))) xs (cint m) = Some (cint (m + int (length xs)))"
proof (induction xs arbitrary: m)
  case (Cons x xs)
  show ?case using Cons.IH [of "m + 1"] by (simp add: cint_add) (simp add: algebra_simps)
qed simp

lemma count_waiters_spec:
  assumes "on_queue s a ws"
  shows "count_waiters s a = Some (cint (int (length ws)))"
proof -
  have "is_list (lists s) (QHead a) (map WLink ws)" using assms by (simp add: on_queue_def)
  then show ?thesis
    using fold_count [of "map WLink ws" 0] by (simp add: count_waiters_def list_for_each_spec)
qed

lemma waitqueue_active_spec:
  "on_queue s q ws \<Longrightarrow> waitqueue_active s q = Some (ws \<noteq> [])"
  using list_empty_spec [of "lists s" "QHead q" "map WLink ws"]
  by (simp add: waitqueue_active_def on_queue_def)

section \<open>Changes that keep the invariant\<close>

text \<open>A field of an event other than its id.\<close>

lemma kinv_upd_event:
  assumes k: "kinv s es qs" and a: "events s a = Some e" and i: "ev_id e' = ev_id e"
  shows "kinv (s\<lparr>events := (events s)(a \<mapsto> e')\<rparr>) es qs"
proof -
  let ?s = "s\<lparr>events := (events s)(a \<mapsto> e')\<rparr>"
  have id: "ev_id (ev ?s b) = ev_id (ev s b)" for b using a i by (simp add: ev_def)
  then have "ev_ids ?s es = ev_ids s es" by (simp add: ev_ids_def)
  moreover have "ev_waiter ?s w = ev_waiter s w" for w by (simp add: ev_waiter_def waiter_def)
  ultimately show ?thesis using k a id by (auto simp: kinv_def on_queue_def)
qed

text \<open>A change of the wait queue of one event and of the tasks.\<close>

lemma ev_waiter_cong:
  assumes "waits s' = waits s" "dom (tasks s') = dom (tasks s)"
  shows "ev_waiter s' w = ev_waiter s w"
  using assms by (simp add: ev_waiter_def waiter_def)

lemma kinv_upd_queue:
  assumes k: "kinv s es qs" and a: "a \<in> set es"
    and s': "s' = s\<lparr>lists := l, tasks := ts\<rparr>" and dom: "dom ts = dom (tasks s)"
    and fr: "frame (lists s) l (set (QHead a # map WLink (qs a)))"
    and q: "is_list l (QHead a) (map WLink ks)" and ks: "set ks \<subseteq> set (qs a)"
  shows "kinv s' es (qs(a := ks))"
proof -
  have evs: "events s' = events s" "waits s' = waits s" "dom (tasks s') = dom (tasks s)" "lists s' = l"
    using s' dom by simp_all
  have "is_list l (ELink allevents) (map ELink es)"
    using is_list_frame [OF fr, of "ELink allevents" "map ELink es"] kinvD(1) [OF k] by auto
  moreover have "on_queue s' b ((qs(a := ks)) b)" if b: "b \<in> set es" for b
  proof (cases "b = a")
    case True
    then show ?thesis using q evs by (simp add: on_queue_def)
  next
    case False
    have "set (QHead a # map WLink (qs a)) \<inter> set (QHead b # map WLink (qs b)) = {}"
      using kinv_queues_disjoint [OF k a b] False by auto
    then show ?thesis
      using is_list_frame [OF fr, of "QHead b" "map WLink (qs b)"] kinvD(7) [OF k b] False evs
      by (simp add: on_queue_def)
  qed
  moreover have "ev s' b = ev s b" for b using evs by (simp add: ev_def)
  moreover have "ev_waiter s' w = ev_waiter s w" for w using evs by (intro ev_waiter_cong)
  ultimately show ?thesis
    using k ks a evs unfolding kinv_def ev_ids_def by auto
qed

section \<open>Waking the waiters of an event\<close>

lemma dom_ttwu_tasks: "p \<in> dom ts \<Longrightarrow> dom (ttwu_tasks ts p mode) = dom ts"
  by (auto simp: ttwu_tasks_def)

lemma wake_seq_dom:
  assumes "\<And>w. w \<in> set ws \<Longrightarrow> the (wq_private (the (es w))) \<in> dom ts"
    and "wake_seq es mode ws nr ts = (ts', ks)"
  shows "dom ts' = dom ts \<and> set ks \<subseteq> set ws"
  using assms
proof (induction ws arbitrary: nr ts ts' ks)
  case (Cons w ws)
  define p where "p = the (wq_private (the (es w)))"
  have p: "dom (ttwu_tasks ts p mode) = dom ts"
    using Cons.prems(1) [of w] by (intro dom_ttwu_tasks) (simp add: p_def)
  have IH: "dom ts2 = dom ts \<and> set ks2 \<subseteq> set ws"
    if "wake_seq es mode ws nr2 (ttwu_tasks ts p mode) = (ts2, ks2)" for nr2 ts2 ks2
    using Cons.IH [OF _ that] Cons.prems(1) p by (metis list.set_intros(2))
  define kept where "kept = (if ttwu_wakes ts p mode \<and> wq_func (the (es w)) = Autoremove_wake then [] else [w])"
  define x where "x = (ttwu_wakes ts p mode \<and> wq_flags (the (es w)) AND WQ_FLAG_EXCLUSIVE \<noteq> 0)"
  define nr2 where "nr2 = (if x then cint (nr - 1) else nr)"
  have seq: "wake_seq es mode (w # ws) nr ts =
      (if x \<and> nr2 = 0 then (ttwu_tasks ts p mode, kept @ ws)
       else map_prod id (append kept) (wake_seq es mode ws nr2 (ttwu_tasks ts p mode)))"
    by (simp only: wake_seq.simps Let_def flip: p_def kept_def x_def nr2_def)
  have kept: "set kept \<subseteq> {w}" by (simp add: kept_def)
  obtain ts2 ks2 where r: "wake_seq es mode ws nr2 (ttwu_tasks ts p mode) = (ts2, ks2)"
    by (rule prod.exhaust)
  show ?case
  proof (cases "x \<and> nr2 = 0")
    case True
    then show ?thesis using seq Cons.prems(2) p kept by auto
  next
    case False
    then have "(ts', ks) = (ts2, kept @ ks2)" using seq Cons.prems(2) r by (simp only:) simp
    then show ?thesis using IH [OF r] kept by auto
  qed
qed simp

lemma ev_waiter_task:
  "ev_waiter s w \<Longrightarrow> the (wq_private (the (waits s w))) \<in> dom (tasks s)"
  by (auto simp: ev_waiter_def waiter_def)

text \<open>What \<^verbatim>\<open>wake_up_all\<close> leaves: the state of the tasks, and the entries still queued.\<close>

definition woken :: "kstate \<Rightarrow> addr list \<Rightarrow> (addr \<rightharpoonup> task) \<times> addr list" where
  "woken s ws = wake_seq (waits s) TASK_NORMAL ws 0 (tasks s)"

lemma wake_up_all_spec:
  assumes k: "kinv s es qs" and a: "a \<in> set es" and w: "woken s (qs a) = (ts, ks)"
  obtains l where "wake_up_all s a = Some (s\<lparr>lists := l, tasks := ts\<rparr>)"
    "kinv (s\<lparr>lists := l, tasks := ts\<rparr>) es (qs(a := ks))" "dom ts = dom (tasks s)"
    "\<And>w. w \<in> set (qs a) \<Longrightarrow> w \<notin> set ks \<Longrightarrow> is_list l (WLink w) []"
    "frame (lists s) l (set (QHead a # map WLink (qs a)))"
proof -
  have q: "on_queue s a (qs a)" using kinvD(7) [OF k a] .
  have wt: "\<And>w. w \<in> set (qs a) \<Longrightarrow> waiter s w"
    using kinvD(8) [OF k a] by (simp add: ev_waiter_def)
  have seq: "wake_seq (waits s) TASK_NORMAL (qs a) 0 (tasks s) = (ts, ks)"
    using w by (simp add: woken_def)
  obtain l where l: "wake_up_common s a TASK_NORMAL 0 None = Some (s\<lparr>lists := l, tasks := ts\<rparr>)"
    "is_list l (QHead a) (map WLink ks)" "set ks \<subseteq> set (qs a)"
    "\<forall>w \<in> set (qs a) - set ks. is_list l (WLink w) []"
    "frame (lists s) l (set (QHead a # map WLink (qs a)))"
    using wake_up_common_spec [OF q wt seq] by blast
  have d: "dom ts = dom (tasks s)"
    using wake_seq_dom [OF _ seq] ev_waiter_task kinvD(8) [OF k a] by blast
  show ?thesis
  proof (rule that)
    show "wake_up_all s a = Some (s\<lparr>lists := l, tasks := ts\<rparr>)"
      using l(1) wake_up_raw_eq [OF q] by (simp add: wake_up_all_def)
    show "kinv (s\<lparr>lists := l, tasks := ts\<rparr>) es (qs(a := ks))"
      by (rule kinv_upd_queue [OF k a refl d l(5) l(2) l(3)])
  qed (use d l in auto)
qed

section \<open>Signalling\<close>

definition signalled :: "kstate \<Rightarrow> addr \<Rightarrow> kstate" where
  "signalled s a = s\<lparr>events := (events s)(a \<mapsto> (ev s a)\<lparr>ev_condition := 1\<rparr>)\<rparr>"

lemma signalled_sel [simp]: "lists (signalled s a) = lists s" "waits (signalled s a) = waits s"
  "tasks (signalled s a) = tasks s" "kwords (signalled s a) = kwords s"
  "events (signalled s a) = (events s)(a \<mapsto> (ev s a)\<lparr>ev_condition := 1\<rparr>)"
  by (simp_all add: signalled_def)

lemma kinv_signalled:
  assumes "kinv s es qs" "a \<in> set es"
  shows "kinv (signalled s a) es qs"
  unfolding signalled_def by (rule kinv_upd_event [OF assms(1) kinv_event [OF assms]]) simp

lemma kinv_isValid:
  assumes "kinv s es qs" "a \<in> set es"
  shows "\<not> isValidEventId (ev_id (ev s a))"
  using kinv_ids_distinct(2) [OF assms(1), of "ev_id (ev s a)"] assms(2)
  by (simp add: isValidEventId_def ev_ids_def)

lemma sys_doeventsig_eq:
  assumes k: "kinv s es qs" and a: "a \<in> set es" and t: "tasks s cur = Some t"
    and p: "may_use s cur (ev s a)"
  shows "sys_doeventsig s cur (ev_id (ev s a)) =
    (if qs a = [] then Some (s, 0)
     else map_option (\<lambda>s'. (s', cint (int (length (qs a))))) (wake_up_all (signalled s a) a))"
proof -
  have "events s a = Some (ev s a)" using kinv_event [OF k a] .
  moreover from this have "upd_event s a (\<lambda>e. e\<lparr>ev_condition := 1\<rparr>) = Some (signalled s a)"
    by (simp add: upd_event_def signalled_def)
  ultimately show ?thesis
    using search_event_found [OF k a] validateEvent_spec [OF t] p kinv_isValid [OF k a]
      waitqueue_active_spec [OF kinvD(7) [OF k a]] count_waiters_spec [OF kinvD(7) [OF k a]]
    by (simp add: sys_doeventsig_def map_conv_bind_option comp_def)
qed

lemma sys_doeventsig_spec:
  assumes k: "kinv s es qs" and a: "a \<in> set es" and t: "tasks s cur = Some t"
    and p: "may_use s cur (ev s a)"
    and q: "qs a \<noteq> []" and w: "woken s (qs a) = (ts, ks)"
  obtains l where "sys_doeventsig s cur (ev_id (ev s a)) =
      Some ((signalled s a)\<lparr>lists := l, tasks := ts\<rparr>, cint (int (length (qs a))))"
    "kinv ((signalled s a)\<lparr>lists := l, tasks := ts\<rparr>) es (qs(a := ks))"
    "\<And>w. w \<in> set (qs a) \<Longrightarrow> w \<notin> set ks \<Longrightarrow> is_list l (WLink w) []"
    "\<And>v. unlinked s v \<Longrightarrow> is_list l (WLink v) []" "\<And>c. node l c = node (lists s) c"
proof -
  have w': "woken (signalled s a) (qs a) = (ts, ks)" using w by (simp add: woken_def)
  obtain l where l: "wake_up_all (signalled s a) a = Some ((signalled s a)\<lparr>lists := l, tasks := ts\<rparr>)"
    "kinv ((signalled s a)\<lparr>lists := l, tasks := ts\<rparr>) es (qs(a := ks))"
    "\<And>w. w \<in> set (qs a) \<Longrightarrow> w \<notin> set ks \<Longrightarrow> is_list l (WLink w) []"
    "frame (lists s) l (set (QHead a # map WLink (qs a)))"
    by (rule wake_up_all_spec [OF kinv_signalled [OF k a] a w']) simp
  have "is_list l (WLink v) []" if "unlinked s v" for v
    using unlinked_frame [OF k a that, of "{}" l] l(4) by simp
  then show ?thesis using that l sys_doeventsig_eq [OF k a t p] q frame_node [OF l(4)] by simp
qed

section \<open>Closing\<close>

lemma remove1_filter: "distinct xs \<Longrightarrow> remove1 a xs = filter ((\<noteq>) a) xs"
  by (simp add: distinct_remove1_removeAll removeAll_filter_not_eq)

lemma kinv_unlink:
  assumes k: "kinv s es qs" and a: "a \<in> set es"
  obtains l where "list_del_init (lists s) (Ptr (ELink a)) = Some l"
    "kinv (kfree_event (s\<lparr>lists := l\<rparr>) a) (remove1 a es) qs"
    "frame (lists s) l (set (ELink allevents # map ELink es))"
proof -
  have d: "distinct es" "allevents \<notin> set es" using kinv_distinct [OF k] by auto
  then have na: "a \<noteq> allevents" using a by auto
  have "ELink a \<in> set (map ELink es)" using a by simp
  then obtain l where l: "list_del_init (lists s) (Ptr (ELink a)) = Some l"
    "is_list l (ELink allevents) (remove1 (ELink a) (map ELink es))"
    "frame (lists s) l (set (ELink allevents # map ELink es))"
    using list_del_init_spec [OF kinvD(1) [OF k], of "ELink a"] by blast
  let ?s = "kfree_event (s\<lparr>lists := l\<rparr>) a"
  have sel: "lists ?s = free_node (free_node l (ELink a)) (QHead a)"
    "events ?s = (events s)(a := None)" "waits ?s = waits s" "tasks ?s = tasks s"
    by (simp_all add: kfree_event_def)
  have rem: "set (remove1 a es) = set es - {a}" using d by simp
  have ev: "ev ?s b = ev s b" if "b \<noteq> a" for b using that sel by (simp add: ev_def)
  have ids: "ev_ids ?s (remove1 a es) = ev_ids s (remove1 a es)"
    using rem ev by (simp add: ev_ids_def)
  have L: "is_list (lists ?s) (ELink allevents) (map ELink (remove1 a es))"
    using l(2) d na unfolding sel(1) remove1_ELink
    by (simp add: is_list_free_node image_iff)
  have Q: "on_queue ?s b (qs b)" if b: "b \<in> set (remove1 a es)" for b
  proof -
    have "b \<in> set es" "b \<noteq> a" using b rem by auto
    then have "is_list l (QHead b) (map WLink (qs b))"
      using kinvD(7) [OF k] is_list_frame [OF l(3), of "QHead b" "map WLink (qs b)"]
      by (auto simp: on_queue_def)
    then show ?thesis
      using \<open>b \<noteq> a\<close> unfolding on_queue_def sel(1) by (simp add: is_list_free_node image_iff)
  qed
  have S: "sorted_wrt (<) (- 1 # ev_ids s (remove1 a es))"
    using kinvD(5) [OF k] d(1) by (simp add: remove1_filter ev_ids_def sorted_wrt_map sorted_wrt_filter)
  have W: "ev_waiter ?s w = ev_waiter s w" for w by (rule ev_waiter_cong) (simp_all add: sel)
  have H: "events ?s allevents \<noteq> None" "ev_id (ev ?s allevents) = - 1"
    using kinvD(2,3) [OF k] na ev [of allevents] by (simp_all add: sel)
  have B: "i \<le> INT_MAX" if "i \<in> set (ev_ids s (remove1 a es))" for i
    using kinvD(6) [OF k, of i] that rem by (auto simp: ev_ids_def)
  have D: "set (remove1 a es) \<subseteq> dom (events ?s)" using kinvD(4) [OF k] rem by (auto simp: sel)
  have "\<forall>b \<in> set (remove1 a es). \<forall>w \<in> set (qs b). ev_waiter s w" using kinvD(8) [OF k] rem by blast
  then have "kinv ?s (remove1 a es) qs"
    using L Q S W H B D unfolding kinv_def ids by blast
  then show ?thesis using l that by blast
qed

text \<open>The state after the waiters were woken, and the number of waiters found.\<close>

lemma sys_doeventclose_eq:
  assumes k: "kinv s es qs" and a: "a \<in> set es" and t: "tasks s cur = Some t"
    and p: "may_use s cur (ev s a)"
  shows "sys_doeventclose s cur (ev_id (ev s a)) = close_event s a"
  using search_event_found [OF k a] validateEvent_spec [OF t kinv_event [OF k a]] p kinv_isValid [OF k a]
  by (simp add: sys_doeventclose_def close_lookup_def)

lemma close_event_idle:
  assumes k: "kinv s es qs" and a: "a \<in> set es" and q: "qs a = []"
  obtains l where "close_event s a = Some (kfree_event (s\<lparr>lists := l\<rparr>) a, 0)"
    "kinv (kfree_event (s\<lparr>lists := l\<rparr>) a) (remove1 a es) qs"
    "\<And>v. unlinked s v \<Longrightarrow> unlinked (kfree_event (s\<lparr>lists := l\<rparr>) a) v"
proof -
  obtain l where l: "list_del_init (lists s) (Ptr (ELink a)) = Some l"
    "kinv (kfree_event (s\<lparr>lists := l\<rparr>) a) (remove1 a es) qs"
    "frame (lists s) l (set (ELink allevents # map ELink es))"
    by (rule kinv_unlink [OF k a])
  have "close_event s a = Some (kfree_event (s\<lparr>lists := l\<rparr>) a, 0)"
    using waitqueue_active_spec [OF kinvD(7) [OF k a]] q l(1)
    by (simp add: close_event_def close_unlink_def upd_lists_def)
  moreover have "unlinked (kfree_event (s\<lparr>lists := l\<rparr>) a) v" if "unlinked s v" for v
    using that is_list_frame [OF l(3), of "WLink v" "[]"]
    by (auto simp: unlinked_def kfree_event_def is_list_free_node)
  ultimately show ?thesis using that l(2) by blast
qed

lemma close_event_waiters:
  assumes k: "kinv s es qs" and a: "a \<in> set es"
    and q: "qs a \<noteq> []" and w: "woken s (qs a) = (ts, ks)"
  obtains l where "close_event s a =
      Some (kfree_event ((signalled s a)\<lparr>tasks := ts, lists := l\<rparr>) a, cint (int (length (qs a))))"
    "kinv (kfree_event ((signalled s a)\<lparr>tasks := ts, lists := l\<rparr>) a) (remove1 a es) (qs(a := ks))"
    "\<And>w. w \<in> set (qs a) \<Longrightarrow> w \<notin> set ks \<Longrightarrow> is_list l (WLink w) []"
proof -
  have w': "woken (signalled s a) (qs a) = (ts, ks)" using w by (simp add: woken_def)
  obtain l1 where l1: "wake_up_all (signalled s a) a = Some ((signalled s a)\<lparr>lists := l1, tasks := ts\<rparr>)"
    "kinv ((signalled s a)\<lparr>lists := l1, tasks := ts\<rparr>) es (qs(a := ks))"
    "\<And>w. w \<in> set (qs a) \<Longrightarrow> w \<notin> set ks \<Longrightarrow> is_list l1 (WLink w) []"
    by (rule wake_up_all_spec [OF kinv_signalled [OF k a] a w']) blast
  obtain l2 where l2: "list_del_init l1 (Ptr (ELink a)) = Some l2"
    "kinv (kfree_event ((signalled s a)\<lparr>tasks := ts, lists := l2\<rparr>) a) (remove1 a es) (qs(a := ks))"
    "frame l1 l2 (set (ELink allevents # map ELink es))"
    by (rule kinv_unlink [OF l1(2) a]) simp
  have "upd_event s a (\<lambda>e. e\<lparr>ev_condition := 1\<rparr>) = Some (signalled s a)"
    using kinv_event [OF k a] by (simp add: upd_event_def signalled_def)
  then have "close_event s a =
      Some (kfree_event ((signalled s a)\<lparr>tasks := ts, lists := l2\<rparr>) a, cint (int (length (qs a))))"
    using waitqueue_active_spec [OF kinvD(7) [OF k a]] count_waiters_spec [OF kinvD(7) [OF k a]]
      q l1(1) l2(1)
    by (simp add: close_event_def close_unlink_def upd_lists_def)
  moreover have "is_list l2 (WLink w) []" if "w \<in> set (qs a)" "w \<notin> set ks" for w
    using l1(3) [OF that] is_list_frame [OF l2(3), of "WLink w" "[]"] by auto
  ultimately show ?thesis using that l2(2) by blast
qed

section \<open>Opening\<close>

text \<open>What \<^verbatim>\<open>kmalloc\<close> promises of the address it returns: no live object is there.\<close>

definition fresh_event :: "kstate \<Rightarrow> addr \<Rightarrow> bool" where
  "fresh_event s a \<longleftrightarrow>
     events s a = None \<and> \<not> node (lists s) (ELink a) \<and> \<not> node (lists s) (QHead a)"

text \<open>The lists during \<^verbatim>\<open>sys_doeventopen\<close>: after the first \<^verbatim>\<open>INIT_LIST_HEAD\<close>, after
  \<^verbatim>\<open>list_add_tail\<close>, and after \<^verbatim>\<open>init_waitqueue_head\<close>.\<close>

lemma open_lists:
  assumes l: "is_list h (ELink allevents) (map ELink es)"
    and f: "\<not> node h (ELink a)" "\<not> node h (QHead a)"
  obtains l1 l2 l3 where
    "INIT_LIST_HEAD (mk_node (mk_node h (ELink a) gp gp) (QHead a) gp gp) (Ptr (ELink a)) = Some l1"
    "list_add_tail l1 (Ptr (ELink a)) (Ptr (ELink allevents)) = Some l2"
    "prv l2 (ELink a) = Some (Ptr (ELink (last (allevents # es))))"
    "INIT_LIST_HEAD l2 (Ptr (QHead a)) = Some l3"
    "node l2 (QHead a)"
    "is_list l3 (ELink allevents) (map ELink (es @ [a]))" "is_list l3 (QHead a) []"
    "\<And>x xs. set (x # xs) \<inter> insert (QHead a) (range ELink) = {} \<Longrightarrow> is_list h x xs \<Longrightarrow> is_list l3 x xs"
    "\<And>v. node l3 (WLink v) = node h (WLink v)"
proof -
  let ?h = "mk_node (mk_node h (ELink a) gp gp) (QHead a) gp gp"
  have na: "ELink a \<notin> set (ELink allevents # map ELink es)" using is_list_node [OF l] f(1) by auto
  obtain l1 where l1: "INIT_LIST_HEAD ?h (Ptr (ELink a)) = Some l1" "frame ?h l1 {ELink a}"
    using INIT_LIST_HEAD_spec [of ?h "ELink a"] by auto
  have "is_list ?h (ELink allevents) (map ELink es)"
    using l na by (simp add: is_list_mk_node image_iff)
  then have "is_list l1 (ELink allevents) (map ELink es)"
    using is_list_frame [OF l1(2), of "ELink allevents" "map ELink es"] na by auto
  moreover have "node l1 (ELink a)" using frame_node [OF l1(2)] by simp
  ultimately obtain l2 where l2: "list_add_tail l1 (Ptr (ELink a)) (Ptr (ELink allevents)) = Some l2"
    "is_list l2 (ELink allevents) (map ELink es @ [ELink a])"
    "frame l1 l2 (set (ELink a # ELink allevents # map ELink es))"
    using list_add_tail_spec [of l1 "ELink allevents" "map ELink es" "ELink a"] na by auto
  have q: "node l2 (QHead a)" using frame_node [OF l1(2)] frame_node [OF l2(3)] by simp
  obtain l3 where l3: "INIT_LIST_HEAD l2 (Ptr (QHead a)) = Some l3" "is_list l3 (QHead a) []"
    "frame l2 l3 {QHead a}"
    using INIT_LIST_HEAD_spec [OF q] by blast
  have "is_list l3 x xs" if "set (x # xs) \<inter> insert (QHead a) (range ELink) = {}" "is_list h x xs" for x xs
  proof -
    have "ELink a \<notin> set (x # xs)" "QHead a \<notin> set (x # xs)" using that(1) by auto
    then have "is_list ?h x xs" using that(2) by (simp add: is_list_mk_node)
    then have "is_list l1 x xs" using is_list_frame [OF l1(2), of x xs] that by auto
    then have "is_list l2 x xs" using is_list_frame [OF l2(3), of x xs] that by auto
    then show ?thesis using is_list_frame [OF l3(3), of x xs] that(1) by auto
  qed
  moreover have "is_list l3 (ELink allevents) (map ELink (es @ [a]))"
    using l2(2) is_list_frame [OF l3(3), of "ELink allevents" "map ELink (es @ [a])"] by auto
  moreover have "prv l2 (ELink a) = Some (Ptr (ELink (last (allevents # es))))"
    using is_list_nth_next(2) [OF l2(2)] by (simp add: last_map)
  moreover have "node l3 (WLink v) = node h (WLink v)" for v
    using frame_node [OF l1(2)] frame_node [OF l2(3)] frame_node [OF l3(3)] by simp
  ultimately show ?thesis using that l1(1) l2(1) l3(1,2) q by blast
qed

definition opened :: "event \<Rightarrow> task \<Rightarrow> int \<Rightarrow> event" where
  "opened g t i = g\<lparr>ev_id := i, ev_uidFlag := 1, ev_gidFlag := 1, ev_uid := t_euid t,
     ev_gid := t_egid t, ev_condition := 0\<rparr>"

lemma opened_id [simp]: "ev_id (opened g t i) = i"
  by (simp add: opened_def)

definition next_id :: "kstate \<Rightarrow> addr list \<Rightarrow> int" where
  "next_id s es = cint (last (- 1 # ev_ids s es) + 1)"

lemma last_ids:
  "kinv s es qs \<Longrightarrow> ev_id (ev s (last (allevents # es))) = last (- 1 # ev_ids s es)"
  using kinvD(3) [of s es qs] by (simp add: ev_ids_def last_map)

lemma sys_doeventopen_spec:
  assumes k: "kinv s es qs" and f: "fresh_event s a" and t: "tasks s cur = Some t"
  obtains l where "sys_doeventopen s cur (Some (a, g, gp)) =
      Some (s\<lparr>events := (events s)(a \<mapsto> opened g t (next_id s es)), lists := l\<rparr>, next_id s es)"
    "is_list l (ELink allevents) (map ELink (es @ [a]))" "is_list l (QHead a) []"
    "\<And>x xs. set (x # xs) \<inter> insert (QHead a) (range ELink) = {} \<Longrightarrow> is_list (lists s) x xs \<Longrightarrow> is_list l x xs"
    "\<And>v. node l (WLink v) = node (lists s) (WLink v)"
proof -
  let ?h = "mk_node (mk_node (lists s) (ELink a) gp gp) (QHead a) gp gp" and ?p = "last (allevents # es)"
  have f': "\<not> node (lists s) (ELink a)" "\<not> node (lists s) (QHead a)" "events s a = None"
    using f by (auto simp: fresh_event_def)
  obtain l1 l2 l3 where l: "INIT_LIST_HEAD ?h (Ptr (ELink a)) = Some l1"
    "list_add_tail l1 (Ptr (ELink a)) (Ptr (ELink allevents)) = Some l2"
    "prv l2 (ELink a) = Some (Ptr (ELink ?p))" "INIT_LIST_HEAD l2 (Ptr (QHead a)) = Some l3"
    "node l2 (QHead a)"
    and l3: "is_list l3 (ELink allevents) (map ELink (es @ [a]))" "is_list l3 (QHead a) []"
    "\<And>x xs. set (x # xs) \<inter> insert (QHead a) (range ELink) = {} \<Longrightarrow> is_list (lists s) x xs \<Longrightarrow> is_list l3 x xs"
    "\<And>v. node l3 (WLink v) = node (lists s) (WLink v)"
    by (rule open_lists [OF kinvD(1) [OF k] f'(1,2), of gp]) blast
  have "?p \<in> insert allevents (set es)" using last_in_set [of "allevents # es"] by auto
  then have p: "events s ?p = Some (ev s ?p)" using kinv_event [OF k] kinvD(2) [OF k] by (auto simp: ev_def)
  define p where "p = ?p"
  have np: "p \<noteq> a" using p f'(3) by (auto simp: p_def)
  have i: "cint (ev_id (ev s p) + 1) = next_id s es" using last_ids [OF k] by (simp add: next_id_def p_def)
  note l' = l [folded p_def] and p' = p [folded p_def]
  have "sys_doeventopen s cur (Some (a, g, gp)) =
      Some (s\<lparr>events := (events s)(a \<mapsto> opened g t (next_id s es)), lists := l3\<rparr>, next_id s es)"
    using l' p' np i t
    by (simp add: sys_doeventopen_def place_event_def upd_lists_def upd_event_def init_waitqueue_head_def opened_def)
  then show ?thesis using l3 that by blast
qed

lemma sorted_last_max:
  fixes xs :: "int list"
  assumes "sorted_wrt (<) xs" "x \<in> set xs"
  shows "x \<le> last xs"
  using assms by (cases xs rule: rev_cases) (auto simp: sorted_wrt_append)

lemma next_id_new:
  assumes k: "kinv s es qs" and i: "last (- 1 # ev_ids s es) < INT_MAX"
  shows "next_id s es = last (- 1 # ev_ids s es) + 1" "next_id s es \<notin> set (ev_ids s es)"
proof -
  have "- 1 \<le> last (- 1 # ev_ids s es)" using sorted_last_max [OF kinvD(5) [OF k], of "- 1"] by simp
  then show n: "next_id s es = last (- 1 # ev_ids s es) + 1"
    unfolding next_id_def using i by (intro cint_id) (simp add: in_cint_def INT_MIN_def)
  show "next_id s es \<notin> set (ev_ids s es)"
    using sorted_last_max [OF kinvD(5) [OF k], of "next_id s es"] n by auto
qed

lemma sorted_snoc_Suc:
  fixes xs :: "int list"
  assumes "sorted_wrt (<) xs" "xs \<noteq> []"
  shows "sorted_wrt (<) (xs @ [last xs + 1])"
  using assms by (cases xs rule: rev_cases) (auto simp: sorted_wrt_append)

lemma kinv_opened:
  assumes k: "kinv s es qs" and f: "fresh_event s a" and i: "last (- 1 # ev_ids s es) < INT_MAX"
    and l: "is_list l (ELink allevents) (map ELink (es @ [a]))" "is_list l (QHead a) []"
    and q: "\<And>x xs. set (x # xs) \<inter> insert (QHead a) (range ELink) = {} \<Longrightarrow> is_list (lists s) x xs \<Longrightarrow> is_list l x xs"
  shows "kinv (s\<lparr>events := (events s)(a \<mapsto> opened g t (next_id s es)), lists := l\<rparr>) (es @ [a]) (qs(a := []))"
proof -
  let ?s = "s\<lparr>events := (events s)(a \<mapsto> opened g t (next_id s es)), lists := l\<rparr>"
  have na: "a \<notin> set es" "a \<noteq> allevents" using is_list_distinct [OF l(1)] by auto
  have ev: "ev ?s b = (if b = a then opened g t (next_id s es) else ev s b)" for b by (simp add: ev_def)
  have ids: "ev_ids ?s (es @ [a]) = ev_ids s es @ [next_id s es]"
    using na by (auto simp: ev_ids_def ev)
  have nid: "next_id s es = last (- 1 # ev_ids s es) + 1" using next_id_new(1) [OF k i] .
  have "sorted_wrt (<) ((- 1 # ev_ids s es) @ [last (- 1 # ev_ids s es) + 1])"
    by (rule sorted_snoc_Suc [OF kinvD(5) [OF k]]) simp
  then have S: "sorted_wrt (<) (- 1 # ev_ids ?s (es @ [a]))"
    unfolding ids nid [symmetric] append_Cons .
  have B: "j \<le> INT_MAX" if "j \<in> set (ev_ids ?s (es @ [a]))" for j
    using that kinvD(6) [OF k] i nid unfolding ids by auto
  have W: "ev_waiter ?s w = ev_waiter s w" for w by (rule ev_waiter_cong) simp_all
  have Q: "on_queue ?s b ((qs(a := [])) b) \<and> (\<forall>w \<in> set ((qs(a := [])) b). ev_waiter ?s w)"
    if "b \<in> set (es @ [a])" for b
    using that l(2) q [of "QHead b" "map WLink (qs b)"] kinvD(7,8) [OF k] W by (cases "b = a") (auto simp: on_queue_def)
  have H: "events ?s allevents \<noteq> None" "ev_id (ev ?s allevents) = - 1"
    using kinvD(2,3) [OF k] na by (simp_all add: ev)
  have D: "set (es @ [a]) \<subseteq> dom (events ?s)" using kinvD(4) [OF k] by auto
  have L: "is_list (lists ?s) (ELink allevents) (map ELink (es @ [a]))" using l(1) by simp
  show ?thesis unfolding kinv_def using L S B Q H D by blast
qed

section \<open>Waiting\<close>

text \<open>The stack slot of the entry is not in use.\<close>

definition fresh_wait :: "kstate \<Rightarrow> addr \<Rightarrow> bool" where
  "fresh_wait s w \<longleftrightarrow> waits s w = None \<and> \<not> node (lists s) (WLink w)"

definition rearmed :: "kstate \<Rightarrow> addr \<Rightarrow> kstate" where
  "rearmed s a = s\<lparr>events := (events s)(a \<mapsto> (ev s a)\<lparr>ev_condition := 0\<rparr>)\<rparr>"

lemma rearmed_sel [simp]: "lists (rearmed s a) = lists s" "waits (rearmed s a) = waits s"
  "tasks (rearmed s a) = tasks s" "kwords (rearmed s a) = kwords s"
  "events (rearmed s a) = (events s)(a \<mapsto> (ev s a)\<lparr>ev_condition := 0\<rparr>)"
  by (simp_all add: rearmed_def)

lemma kinv_rearmed:
  assumes "kinv s es qs" "a \<in> set es"
  shows "kinv (rearmed s a) es qs"
  unfolding rearmed_def by (rule kinv_upd_event [OF assms(1) kinv_event [OF assms]]) simp

lemma sys_doeventwait_eq:
  assumes k: "kinv s es qs" and a: "a \<in> set es" and t: "tasks s cur = Some t"
    and p: "may_use s cur (ev s a)"
  shows "sys_doeventwait s cur w env (ev_id (ev s a)) =
    map_option (\<lambda>r. case r of Returned s2 _ \<Rightarrow> Returned s2 1 | Blocked s2 \<Rightarrow> Blocked s2)
      (wait_event_interruptible (event_condition a) cur a w env (rearmed s a))"
proof -
  have "events s a = Some (ev s a)" using kinv_event [OF k a] .
  moreover from this have "upd_event s a (\<lambda>e. e\<lparr>ev_condition := 0\<rparr>) = Some (rearmed s a)"
    by (simp add: upd_event_def rearmed_def)
  ultimately show ?thesis
    using search_event_found [OF k a] validateEvent_spec [OF t] p kinv_isValid [OF k a]
    by (simp add: sys_doeventwait_def map_conv_bind_option comp_def)
qed

definition wait_entry :: "addr \<Rightarrow> wait_queue" where
  "wait_entry cur = \<lparr>wq_flags = 0, wq_private = Some cur, wq_func = Autoremove_wake, wq_key = None\<rparr>"

definition idle_entry :: "kstate \<Rightarrow> addr \<Rightarrow> addr \<Rightarrow> bool" where
  "idle_entry s w cur \<longleftrightarrow> waits s w = Some (wait_entry cur) \<and> unlinked s w"

lemma DEFINE_WAIT_event:
  assumes k: "kinv s es qs" and f: "fresh_wait s w"
  shows "kinv (DEFINE_WAIT s w cur) es qs" "idle_entry (DEFINE_WAIT s w cur) w cur"
    "\<And>v. unlinked s v \<Longrightarrow> unlinked (DEFINE_WAIT s w cur) v"
proof -
  let ?s = "DEFINE_WAIT s w cur"
  have dw: "lists ?s = mk_node (lists s) (WLink w) (Ptr (WLink w)) (Ptr (WLink w))"
    "waits ?s = (waits s)(w \<mapsto> wait_entry cur)" "tasks ?s = tasks s" "events ?s = events s"
    by (simp_all add: DEFINE_WAIT_def wait_entry_def) (simp add: set_wait_def)
  have nq: "WLink w \<notin> set (h # map f xs)" if "is_list (lists s) h (map f xs)" for h xs and f :: "addr \<Rightarrow> lnode"
    using is_list_node [OF that] f by (auto simp: fresh_wait_def)
  have keep: "is_list (lists ?s) h (map f xs)" if "is_list (lists s) h (map f xs)" for h xs and f :: "addr \<Rightarrow> lnode"
    using that nq [OF that] unfolding dw by (subst is_list_mk_node)
  have ev: "ev ?s b = ev s b" for b by (simp add: ev_def dw)
  have "ev_waiter ?s v" if "ev_waiter s v" for v
    using that f by (cases "v = w") (auto simp: ev_waiter_def waiter_def exclusive_def dw fresh_wait_def)
  moreover have "on_queue ?s b (qs b)" if "b \<in> set es" for b
    using keep kinvD(7) [OF k that] by (simp add: on_queue_def)
  ultimately show "kinv ?s es qs"
    using kinvD(2-6,8) [OF k] keep [OF kinvD(1) [OF k]] unfolding kinv_def ev ev_ids_def dw(4) by blast
  show "idle_entry ?s w cur"
    unfolding idle_entry_def unlinked_def dw by (simp add: is_list_def linked_def mk_node_def)
  show "unlinked ?s v" if "unlinked s v" for v
    using keep [of "WLink v" WLink "[]"] that by (simp add: unlinked_def)
qed

text \<open>\<^verbatim>\<open>prepare_to_wait\<close> queues an idle entry at the front of the queue.\<close>

lemma prepare_to_wait_event:
  assumes k: "kinv s es qs" and a: "a \<in> set es" and t: "tasks s cur = Some t"
    and w: "idle_entry s w cur"
  obtains l where "prepare_to_wait s cur a w TASK_INTERRUPTIBLE =
      Some (s\<lparr>lists := l, tasks := (tasks s)(cur \<mapsto> t\<lparr>t_state := TASK_INTERRUPTIBLE\<rparr>)\<rparr>)"
    "\<And>ts. dom ts = dom (tasks s) \<Longrightarrow> kinv (s\<lparr>lists := l, tasks := ts\<rparr>) es (qs(a := w # qs a))"
    "\<And>v. unlinked s v \<Longrightarrow> v \<noteq> w \<Longrightarrow> is_list l (WLink v) []" "\<And>c. node l c = node (lists s) c"
proof -
  have q: "on_queue s b (qs b)" if "b \<in> set es" for b using kinvD(7) [OF k that] .
  have nw: "w \<notin> set (qs b)" if "b \<in> set es" for b using unlinked_not_queued [OF _ q [OF that]] w by (simp add: idle_entry_def)
  have e: "is_list (lists s) (WLink w) []" "waits s w = Some (wait_entry cur)"
    using w by (simp_all add: idle_entry_def unlinked_def)
  have we: "(waits s)(w \<mapsto> wait_entry cur\<lparr>wq_flags := wq_flags (wait_entry cur) AND NOT WQ_FLAG_EXCLUSIVE\<rparr>) = waits s"
    using e(2) by (simp add: wait_entry_def fun_upd_idem)
  obtain l where l: "prepare_to_wait s cur a w TASK_INTERRUPTIBLE =
      Some (s\<lparr>lists := l, waits := waits s, tasks := (tasks s)(cur \<mapsto> t\<lparr>t_state := TASK_INTERRUPTIBLE\<rparr>)\<rparr>)"
    "is_list l (QHead a) (map WLink (w # qs a))" "frame (lists s) l (set (QHead a # map WLink (w # qs a)))"
    using prepare_to_wait_enqueues [OF q [OF a] e(1) nw [OF a] e(2) t] unfolding we by blast
  have K: "kinv (s\<lparr>lists := l, tasks := ts\<rparr>) es (qs(a := w # qs a))" if d: "dom ts = dom (tasks s)" for ts
  proof -
    let ?t = "s\<lparr>lists := l, tasks := ts\<rparr>"
    have ev: "ev ?t b = ev s b" for b by (simp add: ev_def)
    have L: "is_list l (ELink allevents) (map ELink es)"
      using is_list_frame [OF l(3), of "ELink allevents" "map ELink es"] kinvD(1) [OF k] by auto
    have Q: "on_queue ?t b ((qs(a := w # qs a)) b)" if b: "b \<in> set es" for b
    proof (cases "b = a")
      case False
      have "set (qs a) \<inter> set (qs b) = {}" using kinv_queues_disjoint [OF k a b] False by blast
      then have "set (QHead a # map WLink (w # qs a)) \<inter> set (QHead b # map WLink (qs b)) = {}"
        using nw [OF b] False by auto
      then show ?thesis using is_list_frame [OF l(3)] q [OF b] False by (simp add: on_queue_def)
    qed (use l(2) in \<open>simp add: on_queue_def\<close>)
    have "cur \<in> dom ts" using t d by auto
    then have "ev_waiter ?t w" using e(2)
      by (simp add: ev_waiter_def waiter_def wait_entry_def exclusive_def)
    moreover have "ev_waiter ?t v = ev_waiter s v" for v using d by (intro ev_waiter_cong) simp_all
    ultimately have W: "\<forall>v \<in> set ((qs(a := w # qs a)) b). ev_waiter ?t v" if "b \<in> set es" for b
      using kinvD(8) [OF k that] by auto
    show ?thesis
      using kinvD(2-6) [OF k] L Q W unfolding kinv_def ev ev_ids_def by auto
  qed
  have "is_list l (WLink v) []" if "unlinked s v" "v \<noteq> w" for v
    using unlinked_frame [OF k a that(1), of "{w}" l] that(2) l(3) by simp
  then show ?thesis using that [of l] l(1) K frame_node [OF l(3)] by simp
qed

lemma finish_wait_event:
  assumes k: "kinv s es (qs(a := ws))" and a: "a \<in> set es" and t: "tasks s cur = Some t"
    and w: "w \<in> set ws"
  obtains s' where "finish_wait s cur a w = Some s'" "kinv s' es (qs(a := remove1 w ws))"
    "tasks s' = (tasks s)(cur \<mapsto> t\<lparr>t_state := TASK_RUNNING\<rparr>)" "events s' = events s"
    "waits s' = waits s" "unlinked s' w" "\<And>v. unlinked s v \<Longrightarrow> unlinked s' v"
proof -
  have q: "on_queue s a ws" using kinvD(7) [OF k a] by simp
  obtain l where l: "finish_wait s cur a w =
      Some (s\<lparr>lists := l, tasks := (tasks s)(cur \<mapsto> t\<lparr>t_state := TASK_RUNNING\<rparr>)\<rparr>)"
    "is_list l (QHead a) (map WLink (remove1 w ws))" "is_list l (WLink w) []"
    "frame (lists s) l (set (QHead a # map WLink ((qs(a := ws)) a)))"
    using finish_wait_queued [OF q w t] by auto
  have "kinv (s\<lparr>lists := l, tasks := (tasks s)(cur \<mapsto> t\<lparr>t_state := TASK_RUNNING\<rparr>)\<rparr>) es
      ((qs(a := ws))(a := remove1 w ws))"
    by (rule kinv_upd_queue [OF k a refl _ l(4,2)]) (use t in \<open>auto simp: set_remove1_subset\<close>)
  moreover have "is_list l (WLink v) []" if "unlinked s v" for v
    using unlinked_frame [OF k a that, of "{}" l] l(4) by simp
  ultimately show ?thesis using l(1,3) that by (simp add: unlinked_def)
qed

text \<open>Leaving the block of an entry that is on no queue.\<close>

lemma kinv_wait_scope_exit:
  assumes k: "kinv s es qs" and w: "unlinked s w"
  shows "kinv (wait_scope_exit s w) es qs"
proof -
  let ?s = "wait_scope_exit s w"
  have sel: "lists ?s = free_node (lists s) (WLink w)" "waits ?s = (waits s)(w := None)"
    "tasks ?s = tasks s" "events ?s = events s" by (simp_all add: wait_scope_exit_def)
  have nw: "w \<notin> set (qs b)" if "b \<in> set es" for b
    using unlinked_not_queued [OF w kinvD(7) [OF k that]] .
  have ev: "ev ?s b = ev s b" for b by (simp add: ev_def sel)
  have "ev_waiter ?s v" if "ev_waiter s v" "v \<noteq> w" for v
    using that by (simp add: ev_waiter_def waiter_def exclusive_def sel)
  then have W: "\<forall>v \<in> set (qs b). ev_waiter ?s v" if "b \<in> set es" for b
    using kinvD(8) [OF k that] nw [OF that] by metis
  have Q: "on_queue ?s b (qs b)" if "b \<in> set es" for b
    using kinvD(7) [OF k that] nw [OF that] unfolding on_queue_def sel
    by (subst is_list_free_node) auto
  have L: "is_list (lists ?s) (ELink allevents) (map ELink es)"
    using kinvD(1) [OF k] unfolding sel by (subst is_list_free_node) auto
  show ?thesis
    using kinvD(2-6) [OF k] L Q W unfolding kinv_def ev ev_ids_def sel(4) by blast
qed

text \<open>
  One round of the loop of \<^verbatim>\<open>wait_event_interruptible\<close>, for an entry that is on no queue or still on
  the queue of the event: it leaves if the condition holds or a signal is pending, and sleeps
  otherwise.
\<close>

definition waiting_on :: "kstate \<Rightarrow> (addr \<Rightarrow> addr list) \<Rightarrow> addr \<Rightarrow> addr \<Rightarrow> addr \<Rightarrow> bool" where
  "waiting_on s qs cur a w \<longleftrightarrow> waits s w = Some (wait_entry cur) \<and> (unlinked s w \<or> w \<in> set (qs a))"

lemma prepare_to_wait_again:
  assumes k: "kinv s es qs" and a: "a \<in> set es" and t: "tasks s cur = Some t"
    and w: "waiting_on s qs cur a w"
  obtains l ws where "prepare_to_wait s cur a w TASK_INTERRUPTIBLE =
      Some (s\<lparr>lists := l, tasks := (tasks s)(cur \<mapsto> t\<lparr>t_state := TASK_INTERRUPTIBLE\<rparr>)\<rparr>)"
    "\<And>ts. dom ts = dom (tasks s) \<Longrightarrow> kinv (s\<lparr>lists := l, tasks := ts\<rparr>) es (qs(a := ws))"
    "w \<in> set ws" "remove1 w ws = remove1 w (qs a)" "w \<notin> set (qs a) \<Longrightarrow> ws = w # qs a"
    "\<And>v. unlinked s v \<Longrightarrow> v \<noteq> w \<Longrightarrow> is_list l (WLink v) []" "\<And>c. node l c = node (lists s) c"
proof (cases "w \<in> set (qs a)")
  case True
  have e: "waits s w = Some (wait_entry cur)" using w by (simp add: waiting_on_def)
  have we: "(waits s)(w \<mapsto> wait_entry cur\<lparr>wq_flags := wq_flags (wait_entry cur) AND NOT WQ_FLAG_EXCLUSIVE\<rparr>) = waits s"
    using e by (simp add: wait_entry_def fun_upd_idem)
  show ?thesis
  proof (rule that)
    show "prepare_to_wait s cur a w TASK_INTERRUPTIBLE =
        Some (s\<lparr>lists := lists s, tasks := (tasks s)(cur \<mapsto> t\<lparr>t_state := TASK_INTERRUPTIBLE\<rparr>)\<rparr>)"
      using prepare_to_wait_queued [OF kinvD(7) [OF k a] True e t] unfolding we by simp
    show "kinv (s\<lparr>lists := lists s, tasks := ts\<rparr>) es (qs(a := qs a))" if "dom ts = dom (tasks s)" for ts
      by (rule kinv_upd_queue [OF k a refl that frame_refl])
        (use kinvD(7) [OF k a] in \<open>simp_all add: on_queue_def\<close>)
  qed (use True in \<open>simp_all add: unlinked_def\<close>)
next
  case False
  then have "idle_entry s w cur" using w by (simp add: waiting_on_def idle_entry_def)
  then obtain l where l: "prepare_to_wait s cur a w TASK_INTERRUPTIBLE =
      Some (s\<lparr>lists := l, tasks := (tasks s)(cur \<mapsto> t\<lparr>t_state := TASK_INTERRUPTIBLE\<rparr>)\<rparr>)"
    "\<And>ts. dom ts = dom (tasks s) \<Longrightarrow> kinv (s\<lparr>lists := l, tasks := ts\<rparr>) es (qs(a := w # qs a))"
    "\<And>v. unlinked s v \<Longrightarrow> v \<noteq> w \<Longrightarrow> is_list l (WLink v) []" "\<And>c. node l c = node (lists s) c"
    by (rule prepare_to_wait_event [OF k a t]) blast
  show ?thesis by (rule that [of l "w # qs a"]) (use l False in \<open>simp_all add: remove1_idem\<close>)
qed

lemma wait_loop_leaves:
  assumes k: "kinv s es qs" and a: "a \<in> set es" and t: "tasks s cur = Some t"
    and w: "waiting_on s qs cur a w" and c: "ev_condition (ev s a) \<noteq> 0 \<or> t_sigpending t"
  obtains s' where "\<And>env. wait_event_interruptible_loop (event_condition a) cur a w env s =
      Some (Returned s' (if ev_condition (ev s a) \<noteq> 0 then 0 else - ERESTARTSYS))"
    "kinv s' es (qs(a := remove1 w (qs a)))" "unlinked s' w" "events s' = events s"
    "tasks s' = (tasks s)(cur \<mapsto> t\<lparr>t_state := TASK_RUNNING\<rparr>)" "waits s' = waits s"
    "\<And>v. unlinked s v \<Longrightarrow> unlinked s' v"
proof -
  let ?t = "t\<lparr>t_state := TASK_INTERRUPTIBLE\<rparr>"
  obtain l ws where l: "prepare_to_wait s cur a w TASK_INTERRUPTIBLE =
      Some (s\<lparr>lists := l, tasks := (tasks s)(cur \<mapsto> ?t)\<rparr>)"
    "\<And>ts. dom ts = dom (tasks s) \<Longrightarrow> kinv (s\<lparr>lists := l, tasks := ts\<rparr>) es (qs(a := ws))"
    "w \<in> set ws" "remove1 w ws = remove1 w (qs a)" "w \<notin> set (qs a) \<Longrightarrow> ws = w # qs a"
    "\<And>v. unlinked s v \<Longrightarrow> v \<noteq> w \<Longrightarrow> is_list l (WLink v) []" "\<And>c. node l c = node (lists s) c"
    by (rule prepare_to_wait_again [OF k a t w]) blast
  let ?s = "s\<lparr>lists := l, tasks := (tasks s)(cur \<mapsto> ?t)\<rparr>"
  have k1: "kinv ?s es (qs(a := ws))" using l(2) t by (simp add: insert_absorb domI)
  have t1: "tasks ?s cur = Some ?t" by simp
  obtain s' where f: "finish_wait ?s cur a w = Some s'" "kinv s' es (qs(a := remove1 w ws))"
    "tasks s' = (tasks ?s)(cur \<mapsto> ?t\<lparr>t_state := TASK_RUNNING\<rparr>)" "events s' = events ?s"
    "waits s' = waits ?s" "unlinked s' w" "\<And>v. unlinked ?s v \<Longrightarrow> unlinked s' v"
    by (rule finish_wait_event [OF k1 a t1 l(3)]) blast
  have "event_condition a ?s = Some (ev_condition (ev s a) \<noteq> 0)"
    using kinv_event [OF k a] by (simp add: event_condition_def)
  then have "wait_event_interruptible_loop (event_condition a) cur a w env s =
      Some (Returned s' (if ev_condition (ev s a) \<noteq> 0 then 0 else - ERESTARTSYS))" for env
    using l(1) f(1) c by (subst wait_event_interruptible_loop.simps) simp
  moreover have "unlinked s' v" if "unlinked s v" for v
    using f(6,7) l(6) that by (cases "v = w") (auto simp: unlinked_def)
  ultimately show ?thesis using that f l(4) by simp
qed

definition asleep :: "task \<Rightarrow> task" where
  "asleep t = t\<lparr>t_state := TASK_INTERRUPTIBLE, t_on_rq := False\<rparr>"

lemma wait_loop_sleeps:
  assumes k: "kinv s es qs" and a: "a \<in> set es" and t: "tasks s cur = Some t"
    and w: "waiting_on s qs cur a w" and c: "ev_condition (ev s a) = 0" "\<not> t_sigpending t"
  obtains l ws where "\<And>env. wait_event_interruptible_loop (event_condition a) cur a w env s =
      Option.bind (run_others cur env (s\<lparr>lists := l, tasks := (tasks s)(cur \<mapsto> asleep t)\<rparr>))
        (\<lambda>r. case r of Asleep s2 \<Rightarrow> Some (Blocked s2)
           | Resumed s2 es2 \<Rightarrow> wait_event_interruptible_loop (event_condition a) cur a w es2 s2)"
    "kinv (s\<lparr>lists := l, tasks := (tasks s)(cur \<mapsto> asleep t)\<rparr>) es (qs(a := ws))"
    "w \<in> set ws" "remove1 w ws = remove1 w (qs a)" "w \<notin> set (qs a) \<Longrightarrow> ws = w # qs a"
    "\<And>v. unlinked s v \<Longrightarrow> v \<noteq> w \<Longrightarrow> is_list l (WLink v) []" "\<And>c. node l c = node (lists s) c"
proof -
  let ?t = "t\<lparr>t_state := TASK_INTERRUPTIBLE\<rparr>"
  obtain l ws where l: "prepare_to_wait s cur a w TASK_INTERRUPTIBLE =
      Some (s\<lparr>lists := l, tasks := (tasks s)(cur \<mapsto> ?t)\<rparr>)"
    "\<And>ts. dom ts = dom (tasks s) \<Longrightarrow> kinv (s\<lparr>lists := l, tasks := ts\<rparr>) es (qs(a := ws))"
    "w \<in> set ws" "remove1 w ws = remove1 w (qs a)" "w \<notin> set (qs a) \<Longrightarrow> ws = w # qs a"
    "\<And>v. unlinked s v \<Longrightarrow> v \<noteq> w \<Longrightarrow> is_list l (WLink v) []" "\<And>c. node l c = node (lists s) c"
    by (rule prepare_to_wait_again [OF k a t w]) blast
  let ?s = "s\<lparr>lists := l, tasks := (tasks s)(cur \<mapsto> ?t)\<rparr>" and
    ?s2 = "s\<lparr>lists := l, tasks := (tasks s)(cur \<mapsto> asleep t)\<rparr>"
  have c1: "event_condition a ?s = Some False"
    using kinv_event [OF k a] c(1) by (simp add: event_condition_def)
  have "schedule_out ?s cur = Some ?s2"
    using c(2) by (simp add: schedule_out_def signal_pending_state_def asleep_def TASK_INTERRUPTIBLE_def)
      (simp add: set_task_def)
  then have s2: "schedule cur env ?s = run_others cur env ?s2" for env by (simp add: schedule_def)
  have "wait_event_interruptible_loop (event_condition a) cur a w env s =
      Option.bind (run_others cur env ?s2)
        (\<lambda>r. case r of Asleep s2 \<Rightarrow> Some (Blocked s2)
           | Resumed s2 es2 \<Rightarrow> wait_event_interruptible_loop (event_condition a) cur a w es2 s2)" for env
    unfolding wait_event_interruptible_loop.simps [of _ cur a w env s]
    using l(1) c1 c(2) s2 by (simp split: option.split)
  moreover have "kinv ?s2 es (qs(a := ws))" using l(2) t by (simp add: insert_absorb domI)
  ultimately show ?thesis using that l(3-7) by blast
qed

text \<open>The whole call, from the entry to the first sleep.\<close>

definition wait_result :: "addr \<Rightarrow> (kstate, int) outcome \<Rightarrow> (kstate, int) outcome" where
  "wait_result w r = (case r of Returned s _ \<Rightarrow> Returned (wait_scope_exit s w) 1 | Blocked s \<Rightarrow> Blocked s)"

lemma sys_doeventwait_loop:
  assumes k: "kinv s es qs" and a: "a \<in> set es" and t: "tasks s cur = Some t"
    and p: "may_use s cur (ev s a)"
  shows "sys_doeventwait s cur w env (ev_id (ev s a)) = map_option (wait_result w)
    (wait_event_interruptible_loop (event_condition a) cur a w env (DEFINE_WAIT (rearmed s a) w cur))"
proof -
  have "event_condition a (rearmed s a) = Some False" by (simp add: event_condition_def)
  then show ?thesis
    unfolding sys_doeventwait_eq [OF k a t p] wait_event_interruptible_def
    by (cases "wait_event_interruptible_loop (event_condition a) cur a w env (DEFINE_WAIT (rearmed s a) w cur)")
      (auto simp: wait_result_def split: outcome.split)
qed

lemma DEFINE_WAIT_rearmed:
  "tasks (DEFINE_WAIT (rearmed s a) w cur) = tasks s"
  "events (DEFINE_WAIT (rearmed s a) w cur) = (events s)(a \<mapsto> (ev s a)\<lparr>ev_condition := 0\<rparr>)"
  "waits (DEFINE_WAIT (rearmed s a) w cur) = (waits s)(w \<mapsto> wait_entry cur)"
  by (simp_all add: DEFINE_WAIT_def wait_entry_def) (simp add: set_wait_def)

lemma fresh_rearmed: "fresh_wait s w \<Longrightarrow> fresh_wait (rearmed s a) w"
  by (simp add: fresh_wait_def)

lemma sys_doeventwait_sleeps:
  assumes k: "kinv s es qs" and a: "a \<in> set es" and t: "tasks s cur = Some t"
    and p: "may_use s cur (ev s a)" and f: "fresh_wait s w" and c: "\<not> t_sigpending t"
  obtains s2 where "\<And>env. sys_doeventwait s cur w env (ev_id (ev s a)) =
      Option.bind (run_others cur env s2)
        (\<lambda>r. case r of Asleep s3 \<Rightarrow> Some (Blocked s3)
           | Resumed s3 es2 \<Rightarrow> map_option (wait_result w) (wait_event_interruptible_loop (event_condition a) cur a w es2 s3))"
    "kinv s2 es (qs(a := w # qs a))" "tasks s2 = (tasks s)(cur \<mapsto> asleep t)"
    "events s2 = (events s)(a \<mapsto> (ev s a)\<lparr>ev_condition := 0\<rparr>)"
    "waits s2 = (waits s)(w \<mapsto> wait_entry cur)" "\<And>v. unlinked s v \<Longrightarrow> v \<noteq> w \<Longrightarrow> unlinked s2 v"
    "\<And>v. v \<noteq> w \<Longrightarrow> node (lists s2) (WLink v) = node (lists s) (WLink v)"
proof -
  note dw = DEFINE_WAIT_event [OF kinv_rearmed [OF k a] fresh_rearmed [OF f], where cur = cur]
  let ?d = "DEFINE_WAIT (rearmed s a) w cur"
  note sel = DEFINE_WAIT_rearmed [of s a w cur]
  have t1: "tasks ?d cur = Some t" and c1: "ev_condition (ev ?d a) = 0" using t by (simp_all add: sel ev_def)
  have w1: "waiting_on ?d qs cur a w" using dw(2) by (simp add: waiting_on_def idle_entry_def)
  have nq: "w \<notin> set (qs a)" using unlinked_not_queued [OF _ kinvD(7) [OF dw(1) a]] dw(2) by (simp add: idle_entry_def)
  obtain l ws where l: "\<And>env. wait_event_interruptible_loop (event_condition a) cur a w env ?d =
      Option.bind (run_others cur env (?d\<lparr>lists := l, tasks := (tasks ?d)(cur \<mapsto> asleep t)\<rparr>))
        (\<lambda>r. case r of Asleep s2 \<Rightarrow> Some (Blocked s2)
           | Resumed s2 es2 \<Rightarrow> wait_event_interruptible_loop (event_condition a) cur a w es2 s2)"
    "kinv (?d\<lparr>lists := l, tasks := (tasks ?d)(cur \<mapsto> asleep t)\<rparr>) es (qs(a := ws))" "ws = w # qs a"
    "\<And>v. unlinked ?d v \<Longrightarrow> v \<noteq> w \<Longrightarrow> is_list l (WLink v) []" "\<And>c. node l c = node (lists ?d) c"
    by (rule wait_loop_sleeps [OF dw(1) a t1 w1 c1 c]) (use nq in blast)
  define s2 where "s2 = ?d\<lparr>lists := l, tasks := (tasks ?d)(cur \<mapsto> asleep t)\<rparr>"
  have "sys_doeventwait s cur w env (ev_id (ev s a)) = Option.bind (run_others cur env s2)
      (\<lambda>r. case r of Asleep s3 \<Rightarrow> Some (Blocked s3) | Resumed s3 es2 \<Rightarrow>
         map_option (wait_result w) (wait_event_interruptible_loop (event_condition a) cur a w es2 s3))" for env
    unfolding sys_doeventwait_loop [OF k a t p] l(1) s2_def [symmetric]
    by (cases "run_others cur env s2") (auto simp: wait_result_def split: resumed.split)
  moreover have "unlinked s2 v" if "unlinked s v" "v \<noteq> w" for v
    using dw(3) [of v] l(4) [of v] that by (simp add: unlinked_def s2_def)
  moreover have "kinv s2 es (qs(a := w # qs a))" using l(2,3) by (simp add: s2_def)
  moreover have "node (lists s2) (WLink v) = node (lists s) (WLink v)" if "v \<noteq> w" for v
    using l(5) [of "WLink v"] that by (simp add: s2_def DEFINE_WAIT_def)
  ultimately show ?thesis using that [of s2] sel by (simp add: s2_def)
qed

section \<open>Access control\<close>

text \<open>The event that a call of task \<open>cur\<close> with identifier \<open>i\<close> may use, or may change.\<close>

definition granted :: "kstate \<Rightarrow> addr list \<Rightarrow> addr \<Rightarrow> int \<Rightarrow> addr option" where
  "granted s es cur i = (case find_id s i es of
     Some a \<Rightarrow> if may_use s cur (ev s a) then Some a else None | None \<Rightarrow> None)"

definition owned :: "kstate \<Rightarrow> addr list \<Rightarrow> addr \<Rightarrow> int \<Rightarrow> addr option" where
  "owned s es cur i = (case find_id s i es of
     Some a \<Rightarrow> if may_change s cur (ev s a) then Some a else None | None \<Rightarrow> None)"

lemma granted_Some: "granted s es cur i = Some a \<Longrightarrow> a \<in> set es \<and> i = ev_id (ev s a) \<and> may_use s cur (ev s a)"
  by (auto simp: granted_def split: option.splits if_splits dest: find_id_Some)

lemma owned_Some: "owned s es cur i = Some a \<Longrightarrow> a \<in> set es \<and> i = ev_id (ev s a) \<and> may_change s cur (ev s a)"
  by (auto simp: owned_def split: option.splits if_splits dest: find_id_Some)

lemma search_event_find:
  assumes "kinv s es qs"
  shows "search_event s i None = Some (find_id s i es)"
  using search_event_spec [OF assms, of i None] by (cases es) (auto simp: find_id_def)

lemma search_event_junk:
  assumes "kinv s es qs" "es \<noteq> [] \<or> junk = None"
  shows "search_event s i junk = Some (find_id s i es)"
  using search_event_spec [OF assms(1), of i junk] assms(2) by (cases es) (auto simp: find_id_def)

lemma validate_granted:
  assumes k: "kinv s es qs" and t: "tasks s cur = Some t"
  shows "Option.bind (search_event s i None) (\<lambda>we. Option.bind (validateEvent s cur True we) (\<lambda>ok. F we ok)) =
    (case granted s es cur i of Some a \<Rightarrow> F (Some a) True | None \<Rightarrow> F (find_id s i es) False)"
proof (cases "find_id s i es")
  case (Some a)
  then have "events s a = Some (ev s a)" using find_id_Some kinv_event [OF k] by blast
  then show ?thesis
    using Some validateEvent_spec [OF t] by (simp add: search_event_find [OF k] granted_def)
qed (simp add: search_event_find [OF k] granted_def)

lemma calls_denied:
  assumes k: "kinv s es qs" and t: "tasks s cur = Some t" and g: "granted s es cur i = None"
  shows "sys_doeventsig s cur i = Some (s, - 1)" "sys_doeventclose s cur i = Some (s, - 1)"
    "sys_doeventwait s cur w env i = Some (Returned s (- 1))"
  unfolding sys_doeventsig_def sys_doeventclose_def sys_doeventwait_def close_lookup_def
  by (simp_all add: validate_granted [OF k t] g)

definition with_owner :: "kstate \<Rightarrow> addr \<Rightarrow> u32 \<Rightarrow> u32 \<Rightarrow> kstate" where
  "with_owner s a u g = s\<lparr>events := (events s)(a \<mapsto> (ev s a)\<lparr>ev_uid := u, ev_gid := g\<rparr>)\<rparr>"

definition with_flags :: "kstate \<Rightarrow> addr \<Rightarrow> int \<Rightarrow> int \<Rightarrow> kstate" where
  "with_flags s a uf gf = s\<lparr>events := (events s)(a \<mapsto> (ev s a)\<lparr>ev_uidFlag := uf, ev_gidFlag := gf\<rparr>)\<rparr>"

lemma kinv_with:
  assumes "kinv s es qs" "a \<in> set es"
  shows "kinv (with_owner s a u g) es qs" "kinv (with_flags s a uf gf) es qs"
  unfolding with_owner_def with_flags_def
  by (rule kinv_upd_event [OF assms(1) kinv_event [OF assms]], simp)+

lemma chown_chmod_spec:
  assumes k: "kinv s es qs" and t: "tasks s cur = Some t" and j: "es \<noteq> [] \<or> junk = None"
  shows "sys_doeventchown s cur junk i u g =
      Some (case owned s es cur i of Some a \<Rightarrow> (with_owner s a u g, 0) | None \<Rightarrow> (s, - 1))"
    and "sys_doeventchmod s cur junk i uf gf =
      Some (case owned s es cur i of Some a \<Rightarrow> (with_flags s a uf gf, 0) | None \<Rightarrow> (s, - 1))"
proof -
  have neg: "owned s es cur i = None" if "i < 0"
    using that kinv_isValid [OF k] by (cases "owned s es cur i") (auto simp: isValidEventId_def dest: owned_Some)
  have ev: "find_id s i es = Some a \<Longrightarrow> events s a = Some (ev s a)" for a
    using find_id_Some kinv_event [OF k] by blast
  show "sys_doeventchown s cur junk i u g =
      Some (case owned s es cur i of Some a \<Rightarrow> (with_owner s a u g, 0) | None \<Rightarrow> (s, - 1))"
    using neg ev validateUserEvent_spec [OF t]
    by (cases "find_id s i es")
      (auto simp: sys_doeventchown_def search_event_junk [OF k j] isValidEventId_def owned_def upd_event_def with_owner_def)
  show "sys_doeventchmod s cur junk i uf gf =
      Some (case owned s es cur i of Some a \<Rightarrow> (with_flags s a uf gf, 0) | None \<Rightarrow> (s, - 1))"
    using neg ev validateUserEvent_spec [OF t]
    by (cases "find_id s i es")
      (auto simp: sys_doeventchmod_def search_event_junk [OF k j] isValidEventId_def owned_def upd_event_def with_flags_def)
qed

end
