(* ===== verification/Event_Machine.thy ===== *)
theory Event_Machine
  imports Event_Inv
begin

unbundle bit_operations_syntax

text \<open>
  The event table as a state machine: any number of tasks issue the event system calls, fall
  asleep in \<^verbatim>\<open>sys_doeventwait\<close>, get signals and run again. A machine state is the kernel state
  together with the calls that sleep, each as the task, the event and the entry on the stack of
  the task. A sleeping call that runs again makes another round of the loop of
  \<^verbatim>\<open>wait_event_interruptible\<close>.

  \<open>kstep\<close> is one step, \<^term>\<open>None\<close> if it is undefined behaviour. \<open>allowed\<close> states what a step
  assumes: that the allocator returns unused memory, that the identifiers have not run out, and
  that no event is closed on which a call sleeps. \<open>kreach\<close> are the states that the machine
  reaches from the boot with allowed steps.
\<close>

section \<open>The machine\<close>

record kmach =
  kst :: kstate
  sleeping :: "(addr \<times> addr \<times> addr) list"

datatype kcall =
    Open addr kmalloc_event
  | Close addr int
  | Sig addr int
  | Chown addr "addr option" int u32 u32
  | Chmod addr "addr option" int int int
  | Wait addr addr int
  | Resume addr addr addr
  | Deliver addr

text \<open>\<^verbatim>\<open>signal_wake_up_state\<close> of kernel/signal.c: the flag \<^verbatim>\<open>TIF_SIGPENDING\<close>, then \<^verbatim>\<open>wake_up_state\<close>.\<close>

definition signal_wake_up_state :: "kstate \<Rightarrow> addr \<Rightarrow> u32 \<Rightarrow> kstate option" where
  "signal_wake_up_state s p st = do {
     t \<leftarrow> tasks s p;
     (_, s1) \<leftarrow> wake_up_state (set_task s p (t\<lparr>t_sigpending := True\<rparr>)) p (st OR TASK_INTERRUPTIBLE);
     Some s1 }"

definition kstep :: "kcall \<Rightarrow> kmach \<Rightarrow> kmach option" where
  "kstep c m = (case c of
     Open cur new \<Rightarrow> map_option (\<lambda>(s, _). m\<lparr>kst := s\<rparr>) (sys_doeventopen (kst m) cur new)
   | Close cur i \<Rightarrow> map_option (\<lambda>(s, _). m\<lparr>kst := s\<rparr>) (sys_doeventclose (kst m) cur i)
   | Sig cur i \<Rightarrow> map_option (\<lambda>(s, _). m\<lparr>kst := s\<rparr>) (sys_doeventsig (kst m) cur i)
   | Chown cur junk i u g \<Rightarrow> map_option (\<lambda>(s, _). m\<lparr>kst := s\<rparr>) (sys_doeventchown (kst m) cur junk i u g)
   | Chmod cur junk i uf gf \<Rightarrow> map_option (\<lambda>(s, _). m\<lparr>kst := s\<rparr>) (sys_doeventchmod (kst m) cur junk i uf gf)
   | Wait cur w i \<Rightarrow> do {
       r \<leftarrow> sys_doeventwait (kst m) cur w [] i;
       case r of
         Returned s _ \<Rightarrow> Some (m\<lparr>kst := s\<rparr>)
       | Blocked s \<Rightarrow> do {
           we \<leftarrow> search_event (kst m) i None;
           a \<leftarrow> we;
           Some \<lparr>kst = s, sleeping = (cur, a, w) # sleeping m\<rparr> } }
   | Resume cur a w \<Rightarrow> do {
       r \<leftarrow> wait_event_interruptible_loop (event_condition a) cur a w [] (kst m);
       Some (case r of
         Returned s _ \<Rightarrow> \<lparr>kst = wait_scope_exit s w, sleeping = remove1 (cur, a, w) (sleeping m)\<rparr>
       | Blocked s \<Rightarrow> m\<lparr>kst := s\<rparr>) }
   | Deliver p \<Rightarrow> map_option (\<lambda>s. m\<lparr>kst := s\<rparr>) (signal_wake_up_state (kst m) p 0))"

definition has_task :: "kmach \<Rightarrow> addr \<Rightarrow> bool" where
  "has_task m p \<longleftrightarrow> tasks (kst m) p \<noteq> None"

text \<open>The identifier that the event list ends with, as \<^verbatim>\<open>sys_doeventopen\<close> reads it.\<close>

definition last_id :: "kstate \<Rightarrow> int option" where
  "last_id s = do {
     p \<leftarrow> rd (prv (lists s)) (Ptr (ELink allevents));
     case p of Ptr (ELink b) \<Rightarrow> do { e \<leftarrow> events s b; Some (ev_id e) } | _ \<Rightarrow> None }"

definition allowed :: "kcall \<Rightarrow> kmach \<Rightarrow> bool" where
  "allowed c m \<longleftrightarrow> (case c of
     Open cur new \<Rightarrow> has_task m cur \<and> (case new of None \<Rightarrow> True | Some (a, _) \<Rightarrow>
       fresh_event (kst m) a \<and> (\<exists>i. last_id (kst m) = Some i \<and> i < INT_MAX))
   | Close cur i \<Rightarrow> has_task m cur \<and>
       list_all (\<lambda>(_, a, _). map_option ev_id (events (kst m) a) \<noteq> Some i) (sleeping m)
   | Sig cur i \<Rightarrow> has_task m cur
   | Chown cur junk i u g \<Rightarrow> has_task m cur \<and> junk = None
   | Chmod cur junk i uf gf \<Rightarrow> has_task m cur \<and> junk = None
   | Wait cur w i \<Rightarrow> has_task m cur \<and> fresh_wait (kst m) w
   | Resume cur a w \<Rightarrow> (cur, a, w) \<in> set (sleeping m)
   | Deliver p \<Rightarrow> has_task m p)"

inductive kreach :: "kmach \<Rightarrow> bool" where
  boot: "doevent_init (boot_state ts) = Some s \<Longrightarrow> kreach \<lparr>kst = s, sleeping = []\<rparr>"
| step: "kreach m \<Longrightarrow> allowed c m \<Longrightarrow> kstep c m = Some m' \<Longrightarrow> kreach m'"

section \<open>The invariant of the machine\<close>

definition sleeper_ok :: "kstate \<Rightarrow> addr list \<Rightarrow> (addr \<Rightarrow> addr list) \<Rightarrow> addr \<times> addr \<times> addr \<Rightarrow> bool" where
  "sleeper_ok s es qs b \<longleftrightarrow> (case b of (cur, a, w) \<Rightarrow>
     a \<in> set es \<and> tasks s cur \<noteq> None \<and> waiting_on s qs cur a w)"

definition minv :: "kmach \<Rightarrow> addr list \<Rightarrow> (addr \<Rightarrow> addr list) \<Rightarrow> bool" where
  "minv m es qs \<longleftrightarrow> kinv (kst m) es qs \<and> list_all (sleeper_ok (kst m) es qs) (sleeping m)
     \<and> distinct (map (\<lambda>(_, _, w). w) (sleeping m))
     \<and> (\<forall>a \<in> set es. set (qs a) \<subseteq> {w. \<exists>cur. (cur, a, w) \<in> set (sleeping m)})"

lemma minvD:
  assumes "minv m es qs"
  shows "kinv (kst m) es qs" "distinct (map (\<lambda>(_, _, w). w) (sleeping m))"
    "\<And>cur a w. (cur, a, w) \<in> set (sleeping m) \<Longrightarrow>
       a \<in> set es \<and> tasks (kst m) cur \<noteq> None \<and> waiting_on (kst m) qs cur a w"
    "\<And>a w. a \<in> set es \<Longrightarrow> w \<in> set (qs a) \<Longrightarrow> \<exists>cur. (cur, a, w) \<in> set (sleeping m)"
  using assms by (fastforce simp: minv_def list_all_iff sleeper_ok_def)+

lemma minvI:
  assumes "kinv (kst m) es qs" "distinct (map (\<lambda>(_, _, w). w) (sleeping m))"
    "\<And>cur a w. (cur, a, w) \<in> set (sleeping m) \<Longrightarrow> sleeper_ok (kst m) es qs (cur, a, w)"
    "\<And>a w. a \<in> set es \<Longrightarrow> w \<in> set (qs a) \<Longrightarrow> \<exists>cur. (cur, a, w) \<in> set (sleeping m)"
  shows "minv m es qs"
  using assms unfolding minv_def list_all_iff by (metis (mono_tags, lifting) mem_Collect_eq prod_cases3 subsetI)

lemma boot_kinv:
  "\<exists>s. doevent_init (boot_state ts) = Some s \<and> kinv s [] qs \<and> tasks s = ts \<and> waits s = Map.empty"
  by (auto simp: doevent_init_def boot_state_def upd_lists_def INIT_LIST_HEAD_def upd_event_def
      init_waitqueue_head_def set_next_def set_prev_def kinv_def ev_def ev_ids_def is_list_def linked_def)

text \<open>A step that leaves the entries, the sleeping calls and the events in place.\<close>

lemma minv_keep:
  assumes m: "minv m es qs" and k: "kinv s es' qs'" and w: "waits s = waits (kst m)"
    and t: "dom (tasks (kst m)) \<subseteq> dom (tasks s)"
    and es: "\<And>cur a w. (cur, a, w) \<in> set (sleeping m) \<Longrightarrow> a \<in> set es'"
    and q: "\<And>cur a w. (cur, a, w) \<in> set (sleeping m) \<Longrightarrow> unlinked (kst m) w \<or> w \<in> set (qs a) \<Longrightarrow>
      unlinked s w \<or> w \<in> set (qs' a)"
    and c: "\<And>a. a \<in> set es' \<Longrightarrow> qs' a = [] \<or> a \<in> set es \<and> set (qs' a) \<subseteq> set (qs a)"
  shows "minv (m\<lparr>kst := s\<rparr>) es' qs'"
proof -
  have "sleeper_ok s es' qs' (cur, a, v)" if "(cur, a, v) \<in> set (sleeping m)" for cur a v
    using minvD(3) [OF m that] es [OF that] q [OF that] t w
    by (auto simp: sleeper_ok_def waiting_on_def)
  moreover have "\<exists>cur. (cur, a, v) \<in> set (sleeping m)" if "a \<in> set es'" "v \<in> set (qs' a)" for a v
    using c [OF that(1)] that(2) minvD(4) [OF m] by fastforce
  ultimately show ?thesis
    using k minvD(2) [OF m] unfolding minv_def by (fastforce simp: list_all_iff)
qed

section \<open>Every allowed step is defined and keeps the invariant\<close>

definition machine_ok :: "kmach \<Rightarrow> bool" where
  "machine_ok m \<longleftrightarrow> (\<exists>es qs. minv m es qs)"

definition step_ok :: "kcall \<Rightarrow> kmach \<Rightarrow> bool" where
  "step_ok c m \<longleftrightarrow> (\<exists>m'. kstep c m = Some m' \<and> machine_ok m')"

lemma machine_okI: "minv m es qs \<Longrightarrow> machine_ok m"
  by (auto simp: machine_ok_def)

lemma last_id_spec:
  assumes k: "kinv s es qs"
  shows "last_id s = Some (last (- 1 # ev_ids s es))"
proof -
  define p where "p = last (allevents # es)"
  have "prv (lists s) (ELink allevents) = Some (Ptr (last (map ELink (allevents # es))))"
    using is_list_last [OF kinvD(1) [OF k]] by simp
  then have "prv (lists s) (ELink allevents) = Some (Ptr (ELink p))" unfolding p_def by (subst (asm) last_map) simp_all
  moreover have "p \<in> insert allevents (set es)" using last_in_set [of "allevents # es"] by (simp add: p_def)
  then have "events s p = Some (ev s p)" using kinv_event [OF k] kinvD(2) [OF k] by (auto simp: ev_def)
  moreover have "ev_id (ev s p) = last (- 1 # ev_ids s es)" unfolding p_def by (rule last_ids [OF k])
  ultimately show ?thesis by (simp add: last_id_def del: last.simps)
qed

lemma open_ok:
  assumes m: "minv m es qs" and al: "allowed (Open cur new) m"
  shows "step_ok (Open cur new) m"
proof (cases new)
  case None
  then show ?thesis using machine_okI [OF m] by (simp add: step_ok_def kstep_def sys_doeventopen_def)
next
  case (Some n)
  obtain a g gp where n: "new = Some (a, g, gp)" using Some by (cases n) auto
  note k = minvD(1) [OF m]
  obtain t where t: "tasks (kst m) cur = Some t" using al by (auto simp: allowed_def has_task_def)
  have f: "fresh_event (kst m) a" "last (- 1 # ev_ids (kst m) es) < INT_MAX"
    using al n last_id_spec [OF k] by (auto simp: allowed_def simp del: last.simps)
  let ?i = "next_id (kst m) es"
  obtain l where l: "sys_doeventopen (kst m) cur (Some (a, g, gp)) =
      Some ((kst m)\<lparr>events := (events (kst m))(a \<mapsto> opened g t ?i), lists := l\<rparr>, ?i)"
    "is_list l (ELink allevents) (map ELink (es @ [a]))" "is_list l (QHead a) []"
    "\<And>x xs. set (x # xs) \<inter> insert (QHead a) (range ELink) = {} \<Longrightarrow> is_list (lists (kst m)) x xs \<Longrightarrow> is_list l x xs"
    by (rule sys_doeventopen_spec [OF k f(1) t, of g gp]) blast
  let ?s = "(kst m)\<lparr>events := (events (kst m))(a \<mapsto> opened g t ?i), lists := l\<rparr>"
  have na: "a \<notin> set es" using is_list_distinct [OF l(2)] by (auto simp: distinct_map)
  have "minv (m\<lparr>kst := ?s\<rparr>) (es @ [a]) (qs(a := []))"
  proof (rule minv_keep [OF m kinv_opened [OF k f l(2-4)]])
    fix c b w
    assume b: "(c, b, w) \<in> set (sleeping m)" and u: "unlinked (kst m) w \<or> w \<in> set (qs b)"
    have "b \<noteq> a" using minvD(3) [OF m b] na by auto
    then show "unlinked ?s w \<or> w \<in> set ((qs(a := [])) b)"
      using u l(4) [of "WLink w" "[]"] by (auto simp: unlinked_def)
  qed (use minvD(3) [OF m] na in auto)
  then show ?thesis using l(1) n by (auto simp: step_ok_def kstep_def intro: machine_okI)
qed

lemma sig_ok:
  assumes m: "minv m es qs" and al: "allowed (Sig cur i) m"
  shows "step_ok (Sig cur i) m"
proof -
  note k = minvD(1) [OF m]
  obtain t where t: "tasks (kst m) cur = Some t" using al by (auto simp: allowed_def has_task_def)
  show ?thesis
  proof (cases "granted (kst m) es cur i")
    case None
    then show ?thesis
      using calls_denied(1) [OF k t None] machine_okI [OF m] by (simp add: step_ok_def kstep_def)
  next
    case (Some a)
    note g = granted_Some [OF Some]
    obtain ts ks where w: "woken (kst m) (qs a) = (ts, ks)" by (rule prod.exhaust)
    show ?thesis
    proof (cases "qs a = []")
      case True
      then show ?thesis
        using sys_doeventsig_eq [OF k _ t, of a] g machine_okI [OF m] by (simp add: step_ok_def kstep_def)
    next
      case False
      let ?s = "\<lambda>l. (signalled (kst m) a)\<lparr>lists := l, tasks := ts\<rparr>"
      obtain l where l: "sys_doeventsig (kst m) cur (ev_id (ev (kst m) a)) = Some (?s l, cint (int (length (qs a))))"
        "kinv (?s l) es (qs(a := ks))" "\<And>w. w \<in> set (qs a) \<Longrightarrow> w \<notin> set ks \<Longrightarrow> is_list l (WLink w) []"
        "\<And>v. unlinked (kst m) v \<Longrightarrow> is_list l (WLink v) []"
        by (rule sys_doeventsig_spec [OF k _ t _ False w]) (use g in blast)+
      have d: "dom ts = dom (tasks (kst m)) \<and> set ks \<subseteq> set (qs a)"
        using wake_seq_dom [OF _ w [unfolded woken_def]] ev_waiter_task kinvD(8) [OF k] g by blast
      have "minv (m\<lparr>kst := ?s l\<rparr>) es (qs(a := ks))"
        by (rule minv_keep [OF m l(2)]) (use d l(3,4) minvD(3) [OF m] in \<open>auto simp: unlinked_def\<close>)
      then show ?thesis using l(1) g by (auto simp: step_ok_def kstep_def intro: machine_okI)
    qed
  qed
qed

lemma close_ok:
  assumes m: "minv m es qs" and al: "allowed (Close cur i) m"
  shows "step_ok (Close cur i) m"
proof -
  note k = minvD(1) [OF m]
  obtain t where t: "tasks (kst m) cur = Some t" using al by (auto simp: allowed_def has_task_def)
  show ?thesis
  proof (cases "granted (kst m) es cur i")
    case None
    then show ?thesis
      using calls_denied(2) [OF k t None] machine_okI [OF m] by (simp add: step_ok_def kstep_def)
  next
    case (Some a)
    then have g: "a \<in> set es" "i = ev_id (ev (kst m) a)" "may_use (kst m) cur (ev (kst m) a)"
      using granted_Some by auto
    have ns: "b \<noteq> a" if "(c, b, w) \<in> set (sleeping m)" for c b w
      using al that kinv_event [OF k g(1)] g(2) by (auto simp: allowed_def list_all_iff)
    have q: "qs a = []" using minvD(4) [OF m g(1)] ns by (cases "qs a") auto
    let ?s = "\<lambda>l. kfree_event ((kst m)\<lparr>lists := l\<rparr>) a"
    obtain l where l: "close_event (kst m) a = Some (?s l, 0)" "kinv (?s l) (remove1 a es) qs"
      "\<And>v. unlinked (kst m) v \<Longrightarrow> unlinked (?s l) v"
      by (rule close_event_idle [OF k g(1) q]) blast
    have "minv (m\<lparr>kst := ?s l\<rparr>) (remove1 a es) qs"
      by (rule minv_keep [OF m l(2)])
        (use l(3) ns minvD(3) [OF m] kinv_distinct(1) [OF k] in \<open>auto simp: kfree_event_def\<close>)
    then show ?thesis
      using l(1) sys_doeventclose_eq [OF k g(1) t g(3)] g(2)
      by (auto simp: step_ok_def kstep_def intro: machine_okI)
  qed
qed

lemma chown_chmod_ok:
  assumes m: "minv m es qs" and al: "allowed c m"
    and c: "c = Chown cur None i u g \<or> c = Chmod cur None i uf gf"
  shows "step_ok c m"
proof -
  note k = minvD(1) [OF m]
  obtain t where t: "tasks (kst m) cur = Some t" using al c by (auto simp: allowed_def has_task_def)
  have keep: "machine_ok (m\<lparr>kst := s\<rparr>)"
    if "kinv s es qs" "lists s = lists (kst m)" "waits s = waits (kst m)" "tasks s = tasks (kst m)" for s
    by (rule machine_okI, rule minv_keep [OF m that(1)]) (use that minvD(3) [OF m] in \<open>auto simp: unlinked_def\<close>)
  show ?thesis
  proof (cases "owned (kst m) es cur i")
    case None
    then show ?thesis
      using c chown_chmod_spec [OF k t, where junk = None and i = i] machine_okI [OF m]
      by (auto simp: step_ok_def kstep_def)
  next
    case (Some a)
    note kw = kinv_with [OF k conjunct1 [OF owned_Some [OF Some]]]
    have "machine_ok (m\<lparr>kst := with_owner (kst m) a u g\<rparr>)" "machine_ok (m\<lparr>kst := with_flags (kst m) a uf gf\<rparr>)"
      using keep [OF kw(1)] keep [OF kw(2)] by (simp_all add: with_owner_def with_flags_def)
    then show ?thesis
      using c chown_chmod_spec [OF k t, where junk = None and i = i] Some
      by (auto simp: step_ok_def kstep_def)
  qed
qed

text \<open>A call of \<^verbatim>\<open>sys_doeventwait\<close> that may use the event goes to sleep, or returns at once because of a signal.\<close>

lemma wait_sleeps_ok:
  assumes m: "minv m es qs" and t: "tasks (kst m) cur = Some t" and f: "fresh_wait (kst m) w" and sig: "\<not> t_sigpending t"
    and g: "a \<in> set es" "i = ev_id (ev (kst m) a)" "may_use (kst m) cur (ev (kst m) a)"
    and nw: "\<And>c b v. (c, b, v) \<in> set (sleeping m) \<Longrightarrow> v \<noteq> w"
  shows "step_ok (Wait cur w i) m"
proof -
  note k = minvD(1) [OF m]
  obtain s2 where s2: "\<And>env. sys_doeventwait (kst m) cur w env (ev_id (ev (kst m) a)) =
      Option.bind (run_others cur env s2)
        (\<lambda>r. case r of Asleep s3 \<Rightarrow> Some (Blocked s3)
           | Resumed s3 es2 \<Rightarrow> map_option (wait_result w) (wait_event_interruptible_loop (event_condition a) cur a w es2 s3))"
    "kinv s2 es (qs(a := w # qs a))" "tasks s2 = (tasks (kst m))(cur \<mapsto> asleep t)"
    "waits s2 = (waits (kst m))(w \<mapsto> wait_entry cur)"
    "\<And>v. unlinked (kst m) v \<Longrightarrow> v \<noteq> w \<Longrightarrow> unlinked s2 v"
    by (rule sys_doeventwait_sleeps [OF k g(1) t g(3) f sig]) blast
  let ?m = "\<lparr>kst = s2, sleeping = (cur, a, w) # sleeping m\<rparr>"
  have "kstep (Wait cur w i) m = Some ?m"
    using s2(1) [of "[]"] g(2) search_event_found [OF k g(1)] by (simp add: kstep_def)
  moreover have "minv ?m es (qs(a := w # qs a))"
  proof -
    have "sleeper_ok s2 es (qs(a := w # qs a)) (c, b, v)" if "(c, b, v) \<in> set (sleeping m)" for c b v
      using minvD(3) [OF m that] nw [OF that] s2(3-5)
      by (auto simp: sleeper_ok_def waiting_on_def)
    moreover have "sleeper_ok s2 es (qs(a := w # qs a)) (cur, a, w)"
      using g(1) s2(3,4) by (simp add: sleeper_ok_def waiting_on_def)
    moreover have "distinct (map (\<lambda>(_, _, w). w) (sleeping ?m))"
      using minvD(2) [OF m] nw by fastforce
    moreover have "\<exists>c. (c, b, v) \<in> set (sleeping ?m)"
      if "b \<in> set es" "v \<in> set ((qs(a := w # qs a)) b)" for b v
      using that minvD(4) [OF m that(1), of v] by (cases "b = a \<and> v = w") (auto split: if_splits)
    ultimately show ?thesis using s2(2) by (intro minvI) auto
  qed
  ultimately show ?thesis by (auto simp: step_ok_def intro: machine_okI)
qed

lemma wait_returns_ok:
  assumes m: "minv m es qs" and t: "tasks (kst m) cur = Some t" and f: "fresh_wait (kst m) w" and sig: "t_sigpending t"
    and g: "a \<in> set es" "i = ev_id (ev (kst m) a)" "may_use (kst m) cur (ev (kst m) a)"
    and nw: "\<And>c b v. (c, b, v) \<in> set (sleeping m) \<Longrightarrow> v \<noteq> w"
  shows "step_ok (Wait cur w i) m"
proof -
  note k = minvD(1) [OF m]
  let ?d = "DEFINE_WAIT (rearmed (kst m) a) w cur"
  note dw = DEFINE_WAIT_event [OF kinv_rearmed [OF k g(1)] fresh_rearmed [OF f], where cur = cur]
  note sel = DEFINE_WAIT_rearmed [of "kst m" a w cur]
  have t1: "tasks ?d cur = Some t" using t by (simp add: sel)
  have w1: "waiting_on ?d qs cur a w" using dw(2) by (simp add: waiting_on_def idle_entry_def)
  have nq: "w \<notin> set (qs a)"
    using unlinked_not_queued [OF _ kinvD(7) [OF dw(1) g(1)]] dw(2) by (simp add: idle_entry_def)
  obtain s' r where s': "wait_event_interruptible_loop (event_condition a) cur a w [] ?d = Some (Returned s' r)"
    "kinv s' es (qs(a := remove1 w (qs a)))" "unlinked s' w"
    "tasks s' = (tasks ?d)(cur \<mapsto> t\<lparr>t_state := TASK_RUNNING\<rparr>)" "waits s' = waits ?d"
    "\<And>v. unlinked ?d v \<Longrightarrow> unlinked s' v"
    by (rule wait_loop_leaves [OF dw(1) g(1) t1 w1]) (use sig in blast)+
  let ?s = "wait_scope_exit s' w"
  have k': "kinv ?s es qs"
    using kinv_wait_scope_exit [OF s'(2,3)] nq by (simp add: remove1_idem)
  have ws: "waits ?s = waits (kst m)"
    using f by (simp add: wait_scope_exit_def s'(5) sel fresh_wait_def fun_upd_idem)
  have un: "unlinked ?s v" if "unlinked (kst m) v" "v \<noteq> w" for v
    using s'(6) [of v] dw(3) [of v] that
    by (auto simp: unlinked_def wait_scope_exit_def is_list_free_node)
  have "minv (m\<lparr>kst := ?s\<rparr>) es qs"
    by (rule minv_keep [OF m k' ws]) (use un nw minvD(3) [OF m] t in \<open>auto simp: wait_scope_exit_def s'(4) sel\<close>)
  then show ?thesis
    using sys_doeventwait_loop [OF k g(1) t g(3), of w "[]"] s'(1) g(2)
    by (auto simp: step_ok_def kstep_def wait_result_def intro: machine_okI)
qed

lemma wait_ok:
  assumes m: "minv m es qs" and al: "allowed (Wait cur w i) m"
  shows "step_ok (Wait cur w i) m"
proof -
  obtain t where t: "tasks (kst m) cur = Some t" and f: "fresh_wait (kst m) w"
    using al by (auto simp: allowed_def has_task_def)
  have nw: "v \<noteq> w" if "(c, b, v) \<in> set (sleeping m)" for c b v
    using minvD(3) [OF m that] f by (auto simp: waiting_on_def fresh_wait_def)
  show ?thesis
  proof (cases "granted (kst m) es cur i")
    case None
    then show ?thesis
      using calls_denied(3) [OF minvD(1) [OF m] t None] machine_okI [OF m] by (simp add: step_ok_def kstep_def)
  next
    case (Some a)
    then have g: "a \<in> set es" "i = ev_id (ev (kst m) a)" "may_use (kst m) cur (ev (kst m) a)"
      using granted_Some by auto
    show ?thesis
      by (cases "t_sigpending t") (rule wait_returns_ok [OF m t f _ g nw] wait_sleeps_ok [OF m t f _ g nw]; assumption)+
  qed
qed

lemma waits_distinct:
  "distinct (map (\<lambda>(_, _, w). w) B) \<Longrightarrow> (c, a, w) \<in> set B \<Longrightarrow> (c', a', w) \<in> set B \<Longrightarrow> c = c' \<and> a = a'"
  by (induction B) (auto simp: image_iff)

lemma distinct_map_remove1: "distinct (map f xs) \<Longrightarrow> distinct (map f (remove1 x xs))"
  by (induction xs) (auto simp: image_iff dest!: set_remove1_subset [THEN subsetD])

lemma queue_after_leave:
  assumes k: "kinv s es qs" and a: "a \<in> set es" and w: "waiting_on s qs cur a w"
    and b: "b \<in> set es" and v: "v \<in> set ((qs(a := remove1 w (qs a))) b)"
  shows "v \<in> set (qs b)" "v \<noteq> w"
proof -
  have da: "distinct (qs a)" using on_queue_distinct [OF kinvD(7) [OF k a]] .
  show "v \<in> set (qs b)" using v by (cases "b = a") (auto dest: set_remove1_subset [THEN subsetD])
  show "v \<noteq> w"
  proof
    assume "v = w"
    moreover from this have "b \<noteq> a" using v da by auto
    ultimately have "w \<in> set (qs b)" using v by simp
    then have "w \<in> set (qs a)" using w unlinked_not_queued [OF _ kinvD(7) [OF k b]] by (auto simp: waiting_on_def)
    with \<open>w \<in> set (qs b)\<close> \<open>b \<noteq> a\<close> show False using kinv_queues_disjoint [OF k a b] by blast
  qed
qed

text \<open>A sleeping call that runs again returns, or goes back to sleep.\<close>

lemma resume_returns_ok:
  assumes m: "minv m es qs" and b: "(cur, a, w) \<in> set (sleeping m)"
    and g: "a \<in> set es" "tasks (kst m) cur = Some t" "waiting_on (kst m) qs cur a w"
    and c: "ev_condition (ev (kst m) a) \<noteq> 0 \<or> t_sigpending t"
    and uniq: "\<And>c a' v. (c, a', v) \<in> set (sleeping m) \<Longrightarrow> v = w \<Longrightarrow> c = cur \<and> a' = a"
  shows "step_ok (Resume cur a w) m"
proof -
  note k = minvD(1) [OF m]
  obtain s' r where s': "wait_event_interruptible_loop (event_condition a) cur a w [] (kst m) = Some (Returned s' r)"
    "kinv s' es (qs(a := remove1 w (qs a)))" "unlinked s' w"
    "tasks s' = (tasks (kst m))(cur \<mapsto> t\<lparr>t_state := TASK_RUNNING\<rparr>)" "waits s' = waits (kst m)"
    "\<And>v. unlinked (kst m) v \<Longrightarrow> unlinked s' v"
    by (rule wait_loop_leaves [OF k g c]) blast
  let ?s = "wait_scope_exit s' w" and ?B = "remove1 (cur, a, w) (sleeping m)"
  have dB: "distinct (sleeping m)" using minvD(2) [OF m] by (simp add: distinct_map)
  have inB: "(c, b, v) \<in> set ?B \<longleftrightarrow> (c, b, v) \<in> set (sleeping m) \<and> v \<noteq> w" for c b v
    using set_remove1_eq [OF dB, of "(cur, a, w)"] uniq [of c b v] by auto
  have un: "unlinked ?s v" if "unlinked (kst m) v" "v \<noteq> w" for v
    using s'(6) [of v] that by (auto simp: unlinked_def wait_scope_exit_def is_list_free_node)
  have "sleeper_ok ?s es (qs(a := remove1 w (qs a))) (c, b, v)" if "(c, b, v) \<in> set ?B" for c b v
    using minvD(3) [OF m, of c b v] that un [of v] s'(4,5) unfolding inB
    by (auto simp: sleeper_ok_def waiting_on_def wait_scope_exit_def)
  moreover have "distinct (map (\<lambda>(_, _, w). w) ?B)"
    using minvD(2) [OF m] by (rule distinct_map_remove1)
  moreover have "\<exists>c. (c, b, v) \<in> set ?B" if "b \<in> set es" "v \<in> set ((qs(a := remove1 w (qs a))) b)" for b v
    using queue_after_leave [OF k g(1,3) that] minvD(4) [OF m that(1)] inB by blast
  ultimately have "minv \<lparr>kst = ?s, sleeping = ?B\<rparr> es (qs(a := remove1 w (qs a)))"
    using kinv_wait_scope_exit [OF s'(2,3)] by (intro minvI) simp_all
  then show ?thesis using s'(1) by (auto simp: step_ok_def kstep_def intro: machine_okI)
qed

lemma resume_sleeps_ok:
  assumes m: "minv m es qs" and b: "(cur, a, w) \<in> set (sleeping m)"
    and g: "a \<in> set es" "tasks (kst m) cur = Some t" "waiting_on (kst m) qs cur a w"
    and c: "ev_condition (ev (kst m) a) = 0" "\<not> t_sigpending t"
    and uniq: "\<And>c a' v. (c, a', v) \<in> set (sleeping m) \<Longrightarrow> v = w \<Longrightarrow> c = cur \<and> a' = a"
  shows "step_ok (Resume cur a w) m"
proof -
  note k = minvD(1) [OF m]
  let ?s = "\<lambda>l. (kst m)\<lparr>lists := l, tasks := (tasks (kst m))(cur \<mapsto> asleep t)\<rparr>"
  obtain l ws where l: "\<And>env. wait_event_interruptible_loop (event_condition a) cur a w env (kst m) =
      Option.bind (run_others cur env (?s l))
        (\<lambda>r. case r of Asleep s2 \<Rightarrow> Some (Blocked s2)
           | Resumed s2 es2 \<Rightarrow> wait_event_interruptible_loop (event_condition a) cur a w es2 s2)"
    "kinv (?s l) es (qs(a := ws))" "w \<in> set ws" "remove1 w ws = remove1 w (qs a)"
    "\<And>v. unlinked (kst m) v \<Longrightarrow> v \<noteq> w \<Longrightarrow> is_list l (WLink v) []"
    by (rule wait_loop_sleeps [OF k g c]) blast
  have ws: "v \<in> set ws \<longleftrightarrow> v \<in> set (qs a)" if "v \<noteq> w" for v
    using l(4) that by (metis in_set_remove1)
  have "sleeper_ok (?s l) es (qs(a := ws)) (c, b, v)" if B: "(c, b, v) \<in> set (sleeping m)" for c b v
    using minvD(3) [OF m B] l(3) l(5) [of v] ws [of v] uniq [OF B]
    by (cases "v = w") (auto simp: sleeper_ok_def waiting_on_def unlinked_def)
  moreover have "\<exists>c. (c, b', v) \<in> set (sleeping m)" if "b' \<in> set es" "v \<in> set ((qs(a := ws)) b')" for b' v
    using that minvD(4) [OF m that(1), of v] ws [of v] b by (cases "b' = a") (auto split: if_splits)
  ultimately have "minv (m\<lparr>kst := ?s l\<rparr>) es (qs(a := ws))"
    using l(2) minvD(2) [OF m] by (intro minvI) simp_all
  then show ?thesis using l(1) [of "[]"] by (auto simp: step_ok_def kstep_def intro: machine_okI)
qed

lemma resume_ok:
  assumes m: "minv m es qs" and al: "allowed (Resume cur a w) m"
  shows "step_ok (Resume cur a w) m"
proof -
  have b: "(cur, a, w) \<in> set (sleeping m)" using al by (simp add: allowed_def)
  obtain t where g: "a \<in> set es" "tasks (kst m) cur = Some t" "waiting_on (kst m) qs cur a w"
    using minvD(3) [OF m b] by auto
  have uniq: "c = cur \<and> a' = a" if "(c, a', v) \<in> set (sleeping m)" "v = w" for c a' v
    using waits_distinct [OF minvD(2) [OF m] b] that by blast
  show ?thesis
  proof (cases "ev_condition (ev (kst m) a) \<noteq> 0 \<or> t_sigpending t")
    case True
    show ?thesis by (rule resume_returns_ok [OF m b g True uniq])
  next
    case False
    then show ?thesis using resume_sleeps_ok [OF m b g _ _ uniq] by simp
  qed
qed

lemma deliver_ok:
  assumes m: "minv m es qs" and al: "allowed (Deliver p) m"
  shows "step_ok (Deliver p) m"
proof -
  note k = minvD(1) [OF m]
  obtain t where t: "tasks (kst m) p = Some t" using al by (auto simp: allowed_def has_task_def)
  define s1 where "s1 = set_task (kst m) p (t\<lparr>t_sigpending := True\<rparr>)"
  define ts where "ts = ttwu_tasks (tasks s1) p TASK_INTERRUPTIBLE"
  have "p \<in> dom (tasks s1)" by (simp add: s1_def)
  then have "dom ts = dom (tasks s1)" "try_to_wake_up s1 p TASK_INTERRUPTIBLE =
      Some (ttwu_wakes (tasks s1) p TASK_INTERRUPTIBLE, s1\<lparr>tasks := ts\<rparr>)"
    by (simp_all add: ts_def dom_ttwu_tasks try_to_wake_up_eq)
  moreover have "signal_wake_up_state (kst m) p 0 = map_option snd (try_to_wake_up s1 p TASK_INTERRUPTIBLE)"
    using t by (cases "try_to_wake_up s1 p TASK_INTERRUPTIBLE")
      (auto simp: signal_wake_up_state_def wake_up_state_def simp flip: s1_def)
  moreover have "s1\<lparr>tasks := ts\<rparr> = (kst m)\<lparr>tasks := ts\<rparr>" "dom (tasks s1) = dom (tasks (kst m))"
    using t by (simp_all add: s1_def set_task_def insert_absorb domI)
  ultimately have ts: "signal_wake_up_state (kst m) p 0 = Some ((kst m)\<lparr>tasks := ts\<rparr>)" "dom ts = dom (tasks (kst m))"
    by simp_all
  have ev: "ev ((kst m)\<lparr>tasks := ts\<rparr>) b = ev (kst m) b" for b by (simp add: ev_def)
  have "ev_waiter ((kst m)\<lparr>tasks := ts\<rparr>) w = ev_waiter (kst m) w" for w
    using ts(2) by (intro ev_waiter_cong) simp_all
  then have "kinv ((kst m)\<lparr>tasks := ts\<rparr>) es qs"
    using k unfolding kinv_def ev ev_ids_def by (simp add: on_queue_def)
  then have "minv (m\<lparr>kst := (kst m)\<lparr>tasks := ts\<rparr>\<rparr>) es qs"
    by (rule minv_keep [OF m]) (use ts(2) minvD(3) [OF m] in \<open>auto simp: unlinked_def\<close>)
  then show ?thesis using ts(1) by (auto simp: step_ok_def kstep_def intro: machine_okI)
qed

lemma kstep_ok: "minv m es qs \<Longrightarrow> allowed c m \<Longrightarrow> step_ok c m"
proof (cases c)
  case (Chown cur junk i u g)
  then show "minv m es qs \<Longrightarrow> allowed c m \<Longrightarrow> step_ok c m"
    using chown_chmod_ok [of m es qs c cur i u g 0 0] by (simp add: allowed_def)
next
  case (Chmod cur junk i uf gf)
  then show "minv m es qs \<Longrightarrow> allowed c m \<Longrightarrow> step_ok c m"
    using chown_chmod_ok [of m es qs c cur i 0 0 uf gf] by (simp add: allowed_def)
qed (simp_all add: open_ok close_ok sig_ok wait_ok resume_ok deliver_ok)

lemma kreach_ok: "kreach m \<Longrightarrow> machine_ok m"
proof (induction rule: kreach.induct)
  case (boot ts s)
  then have "minv \<lparr>kst = s, sleeping = []\<rparr> [] (\<lambda>_. [])"
    using boot_kinv [of ts "\<lambda>_. []"] by (intro minvI) auto
  then show ?case by (rule machine_okI)
next
  case (step m c m')
  then show ?case using kstep_ok by (fastforce simp: machine_ok_def step_ok_def)
qed

section \<open>Properties\<close>

text \<open>A machine with a root task and a user task, after the boot; the witnesses below run it.\<close>

definition demo_task :: "u32 \<Rightarrow> task" where
  "demo_task u = \<lparr>t_state = 0, t_on_rq = True, t_sigpending = False, t_fatal = False, t_euid = u, t_egid = u\<rparr>"

definition demo_tasks :: "addr \<rightharpoonup> task" where
  "demo_tasks = [1 \<mapsto> demo_task 0, 2 \<mapsto> demo_task 1000, 3 \<mapsto> demo_task 1001]"

definition demo_state :: kstate where
  "demo_state = the (doevent_init (boot_state demo_tasks))"

definition demo_junk :: event where
  "demo_junk = \<lparr>ev_id = 7, ev_uid = 7, ev_gid = 7, ev_uidFlag = 7, ev_gidFlag = 7, ev_condition = 7\<rparr>"



end
