(* ===== verification/Event_Props.thy ===== *)
theory Event_Props
  imports Event_Machine
begin

unbundle bit_operations_syntax

text \<open>
  What the event system calls do, call by call, and how they work together: opening, closing,
  signalling, waiting, access control and the queries, and the places where the code does not do
  what its comments say.
\<close>

section \<open>Waking a sleeping call\<close>

text \<open>A task that runs is left alone by the rest of the walk over the queue.\<close>

lemma ttwu_tasks_running:
  assumes "t_state (the (ts p)) = 0"
  shows "ttwu_tasks ts q mode p = ts p" "ttwu_wakes ts p mode = False"
  using assms by (auto simp: ttwu_tasks_def ttwu_wakes_def)

lemma wake_seq_running:
  assumes "t_state (the (ts p)) = 0" "wake_seq es mode ws nr ts = (ts', ks)"
  shows "ts' p = ts p"
  using assms
proof (induction ws arbitrary: nr ts ts' ks)
  case (Cons w ws)
  define q where "q = the (wq_private (the (es w)))"
  have q: "ttwu_tasks ts q mode p = ts p" by (rule ttwu_tasks_running(1)) (rule Cons.prems(1))
  have IH: "fst (wake_seq es mode ws nr' (ttwu_tasks ts q mode)) p = ts p" for nr'
    using Cons.IH [of "ttwu_tasks ts q mode" nr'] q Cons.prems(1)
    by (cases "wake_seq es mode ws nr' (ttwu_tasks ts q mode)") (auto simp: q)
  have "ts' = fst (wake_seq es mode (w # ws) nr ts)" using Cons.prems(2) by simp
  then show ?case using IH q by (simp add: Let_def flip: q_def)
qed simp

lemma asleep_wakes: "tasks s cur = Some (asleep t) \<Longrightarrow> ttwu_wakes (tasks s) cur TASK_NORMAL"
  by (simp add: ttwu_wakes_def asleep_def task_state_defs)

text \<open>The front entry of the queue, whose task sleeps, is woken and taken off.\<close>

lemma woken_front:
  assumes c: "tasks s cur = Some (asleep t)" and w: "waits s w = Some (wait_entry cur)"
    and r: "woken s (w # ws) = (ts, ks)" and d: "\<And>v. v \<in> set ws \<Longrightarrow> ev_waiter s v"
  shows "ts cur = Some (t\<lparr>t_state := TASK_RUNNING, t_on_rq := True\<rparr>)" "set ks \<subseteq> set ws"
proof -
  let ?ts = "ttwu_tasks (tasks s) cur TASK_NORMAL"
  have q: "?ts cur = Some (t\<lparr>t_state := TASK_RUNNING, t_on_rq := True\<rparr>)"
    using c by (simp add: ttwu_tasks_def asleep_def task_state_defs)
  have "wake_seq (waits s) TASK_NORMAL ws 0 ?ts = (ts, ks)"
    using r asleep_wakes [OF c] w by (simp add: woken_def Let_def wait_entry_def map_prod_def case_prod_beta)
  note seq = this
  show "ts cur = Some (t\<lparr>t_state := TASK_RUNNING, t_on_rq := True\<rparr>)"
    using wake_seq_running [OF _ seq, of cur] q by (simp add: task_state_defs)
  have "dom ?ts = dom (tasks s)" using c by (intro dom_ttwu_tasks) auto
  then show "set ks \<subseteq> set ws" using wake_seq_dom [OF _ seq] ev_waiter_task [OF d] by blast
qed

section \<open>Example states\<close>

text \<open>After the boot the user of task 2 opens an event; then task 2 waits on it.\<close>

definition demo_open :: kstate where
  "demo_open = fst (the (sys_doeventopen demo_state 2 (Some (5, demo_junk, NULL))))"

definition demo_wait :: kstate where
  "demo_wait = (case sys_doeventwait demo_open 2 20 [] 0 of Some (Blocked s) \<Rightarrow> s | _ \<Rightarrow> demo_open)"

lemma demo_state_facts:
  "kinv demo_state [] (\<lambda>_. [])" "tasks demo_state = demo_tasks" "waits demo_state = Map.empty"
  "doevent_init (boot_state demo_tasks) = Some demo_state"
  using boot_kinv [of demo_tasks "\<lambda>_. []"] by (auto simp: demo_state_def)

lemma demo_fresh: "fresh_event demo_state 5" "\<not> node (lists demo_state) (WLink v)"
  by (simp_all add: fresh_event_def demo_state_def doevent_init_def boot_state_def upd_lists_def
      INIT_LIST_HEAD_def upd_event_def init_waitqueue_head_def set_next_def set_prev_def node_def allevents_def)

lemma demo_task_sel [simp]: "t_state (demo_task u) = 0" "t_on_rq (demo_task u)" "\<not> t_sigpending (demo_task u)"
  "t_euid (demo_task u) = u" "t_egid (demo_task u) = u"
  by (simp_all add: demo_task_def)

lemma demo_open_facts:
  "sys_doeventopen demo_state 2 (Some (5, demo_junk, NULL)) = Some (demo_open, 0)"
  "kinv demo_open [5] (\<lambda>_. [])" "tasks demo_open = demo_tasks" "waits demo_open = Map.empty"
  "ev demo_open 5 = opened demo_junk (demo_task 1000) 0"
  "\<And>v. \<not> node (lists demo_open) (WLink v)"
proof -
  have i: "next_id demo_state [] = 0" by (simp add: next_id_def ev_ids_def)
  have t: "tasks demo_state 2 = Some (demo_task 1000)" by (simp add: demo_state_facts demo_tasks_def)
  obtain l where l: "sys_doeventopen demo_state 2 (Some (5, demo_junk, NULL)) =
      Some (demo_state\<lparr>events := (events demo_state)(5 \<mapsto> opened demo_junk (demo_task 1000) 0), lists := l\<rparr>, 0)"
    "is_list l (ELink allevents) (map ELink ([] @ [5]))" "is_list l (QHead 5) []"
    "\<And>x xs. set (x # xs) \<inter> insert (QHead 5) (range ELink) = {} \<Longrightarrow> is_list (lists demo_state) x xs \<Longrightarrow> is_list l x xs"
    "\<And>v. node l (WLink v) = node (lists demo_state) (WLink v)"
    by (rule sys_doeventopen_spec [OF demo_state_facts(1) demo_fresh(1) t, of demo_junk NULL, unfolded i]) blast
  then have d: "demo_open = demo_state\<lparr>events := (events demo_state)(5 \<mapsto> opened demo_junk (demo_task 1000) 0), lists := l\<rparr>"
    by (simp add: demo_open_def)
  have "last (- 1 # ev_ids demo_state []) < INT_MAX" by (simp add: ev_ids_def INT_MAX_def)
  from kinv_opened [OF demo_state_facts(1) demo_fresh(1) this l(2-4), of demo_junk "demo_task 1000"]
  have "kinv demo_open [5] ((\<lambda>_. [])(5 := []))" unfolding i d by simp
  moreover have "(\<lambda>_. [])(5 := []) = (\<lambda>_ :: addr. [] :: addr list)" by auto
  ultimately show "kinv demo_open [5] (\<lambda>_. [])" by metis
  show "sys_doeventopen demo_state 2 (Some (5, demo_junk, NULL)) = Some (demo_open, 0)"
    using l(1) d by simp
  show "tasks demo_open = demo_tasks" "waits demo_open = Map.empty" by (simp_all add: d demo_state_facts)
  show "ev demo_open 5 = opened demo_junk (demo_task 1000) 0" by (simp add: d ev_def)
  show "\<not> node (lists demo_open) (WLink v)" for v using l(5) demo_fresh(2) by (simp add: d)
qed

lemma demo_open_fresh: "fresh_event demo_open 6"
proof -
  have "events demo_open 6 = None \<and> nxt (lists demo_open) (ELink 6) = None \<and> nxt (lists demo_open) (QHead 6) = None"
    by (simp add: demo_open_def demo_state_def doevent_init_def boot_state_def upd_lists_def
      INIT_LIST_HEAD_def upd_event_def init_waitqueue_head_def set_next_def set_prev_def allevents_def
      sys_doeventopen_def place_event_def mk_node_def list_add_tail_def list_add_between_def demo_tasks_def)
  then show ?thesis by (simp add: fresh_event_def node_def)
qed

lemma demo_may_use: "may_use demo_open 2 (ev demo_open 5)" "may_use demo_open 1 (ev demo_open 5)"
  by (simp_all add: may_use_def demo_open_facts demo_tasks_def opened_def)

lemma demo_ids: "ev_id (ev demo_open 5) = 0"
  by (simp add: demo_open_facts)

lemma demo_tasks_sel [simp]: "demo_tasks 1 = Some (demo_task 0)" "demo_tasks 2 = Some (demo_task 1000)"
  "demo_tasks 3 = Some (demo_task 1001)"
  by (simp_all add: demo_tasks_def)

lemma demo_fresh_wait: "fresh_wait demo_open v"
  by (simp add: fresh_wait_def demo_open_facts)

lemma demo_wait_facts:
  "kinv demo_wait [5] ((\<lambda>_. [])(5 := [20]))" "tasks demo_wait = demo_tasks(2 \<mapsto> asleep (demo_task 1000))"
  "waits demo_wait = [20 \<mapsto> wait_entry 2]" "ev_id (ev demo_wait 5) = 0"
  "may_use demo_wait 1 (ev demo_wait 5)"
proof -
  have a: "5 \<in> set [5]" and t: "tasks demo_open 2 = Some (demo_task 1000)" and c: "\<not> t_sigpending (demo_task 1000)"
    by (simp_all add: demo_open_facts)
  obtain s2 where s2: "\<And>env. sys_doeventwait demo_open 2 20 env 0 =
      Option.bind (run_others 2 env s2)
        (\<lambda>r. case r of Asleep s3 \<Rightarrow> Some (Blocked s3)
           | Resumed s3 es2 \<Rightarrow> map_option (wait_result 20) (wait_event_interruptible_loop (event_condition 5) 2 5 20 es2 s3))"
    "kinv s2 [5] ((\<lambda>_. [])(5 := [20]))" "tasks s2 = (tasks demo_open)(2 \<mapsto> asleep (demo_task 1000))"
    "events s2 = (events demo_open)(5 \<mapsto> (ev demo_open 5)\<lparr>ev_condition := 0\<rparr>)"
    "waits s2 = (waits demo_open)(20 \<mapsto> wait_entry 2)"
    by (rule sys_doeventwait_sleeps [OF demo_open_facts(2) a t demo_may_use(1) demo_fresh_wait c, unfolded demo_ids]) blast
  have d: "demo_wait = s2" using s2(1) [of "[]"] by (simp add: demo_wait_def)
  show "kinv demo_wait [5] ((\<lambda>_. [])(5 := [20]))" using s2(2) d by simp
  show "tasks demo_wait = demo_tasks(2 \<mapsto> asleep (demo_task 1000))" "waits demo_wait = [20 \<mapsto> wait_entry 2]"
    using s2(3,5) d by (simp_all add: demo_open_facts)
  then show "may_use demo_wait 1 (ev demo_wait 5)" by (simp add: may_use_def demo_tasks_def)
  show "ev_id (ev demo_wait 5) = 0" using s2(4) d by (simp add: ev_def) (simp add: demo_ids flip: ev_def)
qed

section \<open>Opening\<close>

text \<open>
  C2: \<^verbatim>\<open>sys_doeventopen\<close> appends a new event to the list. Its identifier is one more than the
  last one in the list (0 for the first event), so it is unused; it belongs to the effective user
  and group of the caller with both flags set, is not signalled and has an empty queue; every
  other event and every other queue is as before.
\<close>

theorem doeventopen_appends:
  assumes "kinv s es qs" "fresh_event s a" "tasks s cur = Some t" "last (- 1 # ev_ids s es) < INT_MAX"
  shows "\<exists>s'. sys_doeventopen s cur (Some (a, g, gp)) = Some (s', last (- 1 # ev_ids s es) + 1)
    \<and> kinv s' (es @ [a]) (qs(a := []))
    \<and> last (- 1 # ev_ids s es) + 1 \<notin> set (ev_ids s es)
    \<and> events s' = (events s)(a \<mapsto> \<lparr>ev_id = last (- 1 # ev_ids s es) + 1, ev_uid = t_euid t, ev_gid = t_egid t,
         ev_uidFlag = 1, ev_gidFlag = 1, ev_condition = 0\<rparr>)
    \<and> tasks s' = tasks s \<and> waits s' = waits s"
proof -
  obtain l where l: "sys_doeventopen s cur (Some (a, g, gp)) =
      Some (s\<lparr>events := (events s)(a \<mapsto> opened g t (next_id s es)), lists := l\<rparr>, next_id s es)"
    "is_list l (ELink allevents) (map ELink (es @ [a]))" "is_list l (QHead a) []"
    "\<And>x xs. set (x # xs) \<inter> insert (QHead a) (range ELink) = {} \<Longrightarrow> is_list (lists s) x xs \<Longrightarrow> is_list l x xs"
    by (rule sys_doeventopen_spec [OF assms(1-3), of g gp]) blast
  have i: "next_id s es = last (- 1 # ev_ids s es) + 1" and n: "next_id s es \<notin> set (ev_ids s es)"
    using next_id_new [OF assms(1,4)] by auto
  show ?thesis
    using l(1) kinv_opened [OF assms(1,2,4) l(2-4), of g t] n unfolding i
    by (cases g) (auto simp: opened_def)
qed

theorem doeventopen_appends_witness:
  "\<exists>s'. sys_doeventopen demo_state 3 (Some (5, demo_junk, NULL)) = Some (s', 0)
    \<and> kinv s' [5] ((\<lambda>_. [])(5 := []))"
proof -
  have "last (- 1 # ev_ids demo_state []) < INT_MAX" "tasks demo_state 3 = Some (demo_task 1001)"
    by (simp_all add: ev_ids_def INT_MAX_def demo_state_facts)
  from doeventopen_appends [OF demo_state_facts(1) demo_fresh(1) this(2,1), of demo_junk NULL]
  show ?thesis by (auto simp: ev_ids_def)
qed

section \<open>Signalling and closing\<close>

lemma woken_all:
  assumes k: "kinv s es qs" and a: "a \<in> set es" and sl: "sleepers (waits s) (tasks s) TASK_NORMAL (qs a)"
  shows "woken s (qs a) = (set_running (tasks s) (map (wq_task (waits s)) (qs a)), [])"
  unfolding woken_def using kinvD(8) [OF k a] by (intro wake_seq_all [OF sl]) (simp add: ev_waiter_def)


lemma demo_sleepers: "sleepers (waits demo_wait) (tasks demo_wait) TASK_NORMAL [20]"
  by (simp add: sleepers_def wq_task_def demo_wait_facts wait_entry_def ttwu_wakes_def asleep_def task_state_defs)


text \<open>
  C4: \<^verbatim>\<open>sys_doeventclose\<close> removes the event and wakes everybody who sleeps on it. It returns the
  number of waiters; afterwards the event is not in the list and its memory is freed, the other
  events keep their place and their queues, and all waiters are runnable.
\<close>

theorem doeventclose_removes:
  assumes "kinv s es qs" "a \<in> set es" "tasks s cur = Some t" "may_use s cur (ev s a)"
    "int (length (qs a)) \<le> INT_MAX" "sleepers (waits s) (tasks s) TASK_NORMAL (qs a)"
  shows "\<exists>s'. sys_doeventclose s cur (ev_id (ev s a)) = Some (s', int (length (qs a)))
    \<and> kinv s' (remove1 a es) (qs(a := []))
    \<and> tasks s' = set_running (tasks s) (map (wq_task (waits s)) (qs a))
    \<and> events s' = (events s)(a := None) \<and> waits s' = waits s
    \<and> \<not> node (lists s') (ELink a) \<and> \<not> node (lists s') (QHead a)"
proof (cases "qs a = []")
  case True
  then have q: "qs(a := []) = qs" by auto
  show ?thesis unfolding sys_doeventclose_eq [OF assms(1-4)] q
    by (rule close_event_idle [OF assms(1,2) True])
      (auto simp: True kfree_event_def free_node_def node_def)
next
  case False
  have c: "cint (int (length (qs a))) = int (length (qs a))"
    using assms(5) by (intro cint_id) (simp add: in_cint_def INT_MIN_def)
  show ?thesis unfolding sys_doeventclose_eq [OF assms(1-4)]
    by (rule close_event_waiters [OF assms(1,2) False woken_all [OF assms(1,2,6)]], unfold c)
      (auto simp: kfree_event_def free_node_def node_def)
qed

theorem doeventclose_removes_witness:
  "\<exists>s'. sys_doeventclose demo_wait 1 0 = Some (s', 1) \<and> map_option t_on_rq (tasks s' 2) = Some True
    \<and> kinv s' [] ((\<lambda>_. [])(5 := [], 5 := []))"
  using doeventclose_removes [OF demo_wait_facts(1), of 5 1 "demo_task 0"] demo_wait_facts(2-5) demo_sleepers
  by (auto simp: INT_MAX_def set_running_def wq_task_def wait_entry_def demo_tasks_def)

section \<open>Waiting\<close>

lemma wait_then_sig:
  assumes k: "kinv s es qs" and a: "a \<in> set es" and t: "tasks s cur = Some t"
    and p: "may_use s cur (ev s a)" and f: "fresh_wait s w" and c: "\<not> t_sigpending t"
    and sg: "tasks s sg = Some tg" "may_use s sg (ev s a)"
  obtains s2 s3 ks where
    "\<And>env. sys_doeventwait s cur w env (ev_id (ev s a)) =
      Option.bind (run_others cur env s2)
        (\<lambda>r. case r of Asleep s3 \<Rightarrow> Some (Blocked s3)
           | Resumed s3 es2 \<Rightarrow> map_option (wait_result w) (wait_event_interruptible_loop (event_condition a) cur a w es2 s3))"
    "sys_doeventsig s2 sg (ev_id (ev s a)) = Some (s3, cint (int (length (qs a) + 1)))"
    "kinv s3 es (qs(a := ks))" "w \<notin> set ks" "set ks \<subseteq> set (qs a)" "ev_condition (ev s3 a) = 1"
    "tasks s3 cur = Some (t\<lparr>t_state := TASK_RUNNING, t_on_rq := True\<rparr>)" "idle_entry s3 w cur"
    "waits s3 = (waits s)(w \<mapsto> wait_entry cur)"
    "\<And>b. ev s3 b = (if b = a then (ev s a)\<lparr>ev_condition := 1\<rparr> else ev s b)"
    "\<And>v. v \<noteq> w \<Longrightarrow> node (lists s3) (WLink v) = node (lists s) (WLink v)"
    "\<And>p tp. p \<noteq> cur \<Longrightarrow> tasks s p = Some tp \<Longrightarrow> t_state tp = 0 \<Longrightarrow> tasks s3 p = Some tp"
proof -
  obtain s2 where s2: "\<And>env. sys_doeventwait s cur w env (ev_id (ev s a)) =
      Option.bind (run_others cur env s2)
        (\<lambda>r. case r of Asleep s3 \<Rightarrow> Some (Blocked s3)
           | Resumed s3 es2 \<Rightarrow> map_option (wait_result w) (wait_event_interruptible_loop (event_condition a) cur a w es2 s3))"
    "kinv s2 es (qs(a := w # qs a))" "tasks s2 = (tasks s)(cur \<mapsto> asleep t)"
    "events s2 = (events s)(a \<mapsto> (ev s a)\<lparr>ev_condition := 0\<rparr>)"
    "waits s2 = (waits s)(w \<mapsto> wait_entry cur)"
    "\<And>v. v \<noteq> w \<Longrightarrow> node (lists s2) (WLink v) = node (lists s) (WLink v)"
    by (rule sys_doeventwait_sleeps [OF k a t p f c]) blast
  have ev2: "ev s2 b = (if b = a then (ev s a)\<lparr>ev_condition := 0\<rparr> else ev s b)" for b
    using s2(4) by (simp add: ev_def)
  obtain tg2 where tg: "tasks s2 sg = Some tg2" "t_euid tg2 = t_euid tg" "t_egid tg2 = t_egid tg"
    using s2(3) sg(1) t by (cases "sg = cur") (auto simp: asleep_def)
  have p2: "may_use s2 sg (ev s2 a)" using sg tg by (simp add: may_use_def ev2)
  obtain ts ks where wk: "woken s2 ((qs(a := w # qs a)) a) = (ts, ks)" by (rule prod.exhaust)
  have c2: "tasks s2 cur = Some (asleep t)" "waits s2 w = Some (wait_entry cur)" using s2(3,5) by auto
  have q2: "ev_waiter s2 v" if "v \<in> set (qs a)" for v using kinvD(8) [OF s2(2) a, of v] that by simp
  note fr = woken_front [OF c2 wk [simplified] q2]
  have "distinct (w # qs a)" using on_queue_distinct [OF kinvD(7) [OF s2(2) a]] by simp
  then have nw: "w \<notin> set ks" using fr(2) by auto
  have ne: "(qs(a := w # qs a)) a \<noteq> []" by simp
  obtain l where l: "sys_doeventsig s2 sg (ev_id (ev s2 a)) =
      Some ((signalled s2 a)\<lparr>lists := l, tasks := ts\<rparr>, cint (int (length ((qs(a := w # qs a)) a))))"
    "kinv ((signalled s2 a)\<lparr>lists := l, tasks := ts\<rparr>) es ((qs(a := w # qs a))(a := ks))"
    "\<And>v. v \<in> set ((qs(a := w # qs a)) a) \<Longrightarrow> v \<notin> set ks \<Longrightarrow> is_list l (WLink v) []"
    "\<And>c. node l c = node (lists s2) c"
    by (rule sys_doeventsig_spec [OF s2(2) a tg(1) p2 ne wk]) blast
  show ?thesis
  proof (rule that [OF s2(1), of "(signalled s2 a)\<lparr>lists := l, tasks := ts\<rparr>" ks])
    show "tasks ((signalled s2 a)\<lparr>lists := l, tasks := ts\<rparr>) p = Some tp"
      if "p \<noteq> cur" "tasks s p = Some tp" "t_state tp = 0" for p tp
      using wake_seq_running [OF _ wk [unfolded woken_def], of p] s2(3) that by simp
    show "ev ((signalled s2 a)\<lparr>lists := l, tasks := ts\<rparr>) b = (if b = a then (ev s a)\<lparr>ev_condition := 1\<rparr> else ev s b)" for b
      using ev2 by (simp add: ev_def signalled_def)
  qed (use l fr nw c2(2) ev2 s2(5,6) in \<open>auto simp: idle_entry_def unlinked_def ev_def\<close>)
qed

text \<open>One turn of the other tasks: \<open>sg\<close> signals the event.\<close>

definition sig_turn :: "addr \<Rightarrow> int \<Rightarrow> kstate \<Rightarrow> kstate option" where
  "sig_turn sg i s = map_option fst (sys_doeventsig s sg i)"

definition close_turn :: "addr \<Rightarrow> int \<Rightarrow> kstate \<Rightarrow> kstate option" where
  "close_turn cl i s = map_option fst (sys_doeventclose s cl i)"



text \<open>
  C6: A waiter whose event is closed reads freed memory. When \<^verbatim>\<open>sys_doeventclose\<close> runs while a call
  sleeps in \<^verbatim>\<open>sys_doeventwait\<close>, it wakes the sleeper and frees the event with its wait queue; the
  sleeper then takes the lock of the freed queue and reads the freed condition, so the behaviour of
  its call is undefined, for every event, waiter and closer.
\<close>

theorem doeventwait_use_after_close:
  assumes "kinv s es qs" "a \<in> set es" "tasks s cur = Some t" "may_use s cur (ev s a)" "fresh_wait s w"
    "\<not> t_sigpending t" "tasks s cl = Some tg" "may_use s cl (ev s a)"
  shows "sys_doeventwait s cur w [close_turn cl (ev_id (ev s a))] (ev_id (ev s a)) = None"
proof -
  let ?i = "ev_id (ev s a)"
  obtain s2 where s2: "\<And>env. sys_doeventwait s cur w env ?i =
      Option.bind (run_others cur env s2)
        (\<lambda>r. case r of Asleep s3 \<Rightarrow> Some (Blocked s3)
           | Resumed s3 es2 \<Rightarrow> map_option (wait_result w) (wait_event_interruptible_loop (event_condition a) cur a w es2 s3))"
    "kinv s2 es (qs(a := w # qs a))" "tasks s2 = (tasks s)(cur \<mapsto> asleep t)"
    "events s2 = (events s)(a \<mapsto> (ev s a)\<lparr>ev_condition := 0\<rparr>)"
    "waits s2 = (waits s)(w \<mapsto> wait_entry cur)"
    by (rule sys_doeventwait_sleeps [OF assms(1-6)]) blast
  have ev2: "ev s2 a = (ev s a)\<lparr>ev_condition := 0\<rparr>" using s2(4) by (simp add: ev_def)
  obtain tg2 where tg: "tasks s2 cl = Some tg2" "t_euid tg2 = t_euid tg" "t_egid tg2 = t_egid tg"
    using s2(3) assms(3,7) by (cases "cl = cur") (auto simp: asleep_def)
  have p2: "may_use s2 cl (ev s2 a)" using assms(7,8) tg by (simp add: may_use_def ev2)
  obtain ts ks where wk: "woken s2 ((qs(a := w # qs a)) a) = (ts, ks)" by (rule prod.exhaust)
  have c2: "tasks s2 cur = Some (asleep t)" "waits s2 w = Some (wait_entry cur)" using s2(3,5) by auto
  have q2: "ev_waiter s2 v" if "v \<in> set (qs a)" for v using kinvD(8) [OF s2(2) assms(2), of v] that by simp
  note fr = woken_front(1) [OF c2 wk [simplified] q2]
  have ne: "(qs(a := w # qs a)) a \<noteq> []" by simp
  obtain l where l: "close_event s2 a =
      Some (kfree_event ((signalled s2 a)\<lparr>tasks := ts, lists := l\<rparr>) a, cint (int (length ((qs(a := w # qs a)) a))))"
    by (rule close_event_waiters [OF s2(2) assms(2) ne wk]) blast
  let ?s3 = "kfree_event ((signalled s2 a)\<lparr>tasks := ts, lists := l\<rparr>) a"
  have "close_turn cl ?i s2 = Some ?s3"
    using sys_doeventclose_eq [OF s2(2) assms(2) tg(1) p2] l by (simp add: close_turn_def ev2)
  moreover have "tasks ?s3 cur = Some (t\<lparr>t_state := TASK_RUNNING, t_on_rq := True\<rparr>)"
    using fr by (simp add: kfree_event_def)
  moreover have "queue_lock s4 a = None" if "lists s4 = lists ?s3" for s4 :: kstate
    using that by (simp add: queue_lock_def kfree_event_def free_node_def node_def)
  then have "prepare_to_wait ?s3 cur a w TASK_INTERRUPTIBLE = None"
    by (auto simp: prepare_to_wait_def clear_exclusive_def)
  then have "wait_event_interruptible_loop (event_condition a) cur a w [] ?s3 = None"
    by (subst wait_event_interruptible_loop.simps) simp
  ultimately show ?thesis using s2(1) [of "[close_turn cl ?i]"] by simp
qed

theorem doeventwait_use_after_close_witness:
  "sys_doeventwait demo_open 2 20 [close_turn 1 0] 0 = None"
  using doeventwait_use_after_close [OF demo_open_facts(2), of 5 2 "demo_task 1000" 20 1 "demo_task 0"]
    demo_may_use demo_fresh_wait demo_ids by (auto simp: demo_open_facts demo_tasks_def)

text \<open>One turn: \<open>sg\<close> signals the event, then \<open>cur2\<close> waits on it.\<close>

definition sig_then_wait_turn :: "addr \<Rightarrow> addr \<Rightarrow> addr \<Rightarrow> int \<Rightarrow> kstate \<Rightarrow> kstate option" where
  "sig_then_wait_turn sg cur2 w2 i s = do {
     s1 \<leftarrow> sig_turn sg i s;
     r \<leftarrow> sys_doeventwait s1 cur2 w2 [] i;
     Some (case r of Returned s2 _ \<Rightarrow> s2 | Blocked s2 \<Rightarrow> s2) }"

lemma may_use_woken:
  assumes "ev s' a = (ev s a)\<lparr>ev_condition := c\<rparr>" "tasks s' p = Some t'" "tasks s p = Some t"
    "t_euid t' = t_euid t" "t_egid t' = t_egid t"
  shows "may_use s' p (ev s' a) = may_use s p (ev s a)"
  using assms by (simp add: may_use_def)

text \<open>
  C7: A wake-up can be lost. If, after the event is signalled and before the woken task runs, another
  task calls \<^verbatim>\<open>sys_doeventwait\<close> on the event, then the condition is 0 again, and the woken task goes
  back to sleep: its call does not return although the event was signalled while it slept.
\<close>

theorem doeventwait_lost_wakeup:
  assumes "kinv s es qs" "a \<in> set es" "tasks s cur = Some t" "may_use s cur (ev s a)" "fresh_wait s w"
    "\<not> t_sigpending t" "tasks s sg = Some tg" "may_use s sg (ev s a)"
    and "qs a = []" "cur2 \<noteq> cur" "tasks s cur2 = Some t2" "may_use s cur2 (ev s a)" "\<not> t_sigpending t2"
    "fresh_wait s w2" "w2 \<noteq> w" "t_state t2 = 0"
  shows "\<exists>s'. sys_doeventwait s cur w [sig_then_wait_turn sg cur2 w2 (ev_id (ev s a))] (ev_id (ev s a)) = Some (Blocked s')
    \<and> kinv s' es (qs(a := [w, w2])) \<and> tasks s' cur = Some (asleep t)"
proof -
  let ?i = "ev_id (ev s a)" and ?t = "t\<lparr>t_state := TASK_RUNNING, t_on_rq := True\<rparr>"
  obtain s2 s3 ks where s3: "\<And>env. sys_doeventwait s cur w env ?i =
      Option.bind (run_others cur env s2)
        (\<lambda>r. case r of Asleep s3 \<Rightarrow> Some (Blocked s3)
           | Resumed s3 es2 \<Rightarrow> map_option (wait_result w) (wait_event_interruptible_loop (event_condition a) cur a w es2 s3))"
    "sys_doeventsig s2 sg ?i = Some (s3, cint (int (length (qs a) + 1)))"
    "kinv s3 es (qs(a := ks))" "set ks \<subseteq> set (qs a)" "tasks s3 cur = Some ?t" "idle_entry s3 w cur"
    "waits s3 = (waits s)(w \<mapsto> wait_entry cur)"
    and ev3: "\<And>b. ev s3 b = (if b = a then (ev s a)\<lparr>ev_condition := 1\<rparr> else ev s b)"
    and nd: "\<And>v. v \<noteq> w \<Longrightarrow> node (lists s3) (WLink v) = node (lists s) (WLink v)"
    and run: "\<And>p tp. p \<noteq> cur \<Longrightarrow> tasks s p = Some tp \<Longrightarrow> t_state tp = 0 \<Longrightarrow> tasks s3 p = Some tp"
    by (rule wait_then_sig [OF assms(1-8)]) blast
  have e3: "ev s3 a = (ev s a)\<lparr>ev_condition := 1\<rparr>" and c3: "tasks s3 cur2 = Some t2"
    using ev3 run [OF assms(10,11,16)] by auto
  have ks: "ks = []" using s3(4) assms(9) by simp
  have f2: "fresh_wait s3 w2" using s3(7) nd [OF assms(15)] assms(14,15) by (simp add: fresh_wait_def)
  have p2: "may_use s3 cur2 (ev s3 a)" using may_use_woken [OF e3 c3 assms(11)] assms(12) by simp
  obtain s4 where s4: "\<And>env. sys_doeventwait s3 cur2 w2 env (ev_id (ev s3 a)) =
      Option.bind (run_others cur2 env s4)
        (\<lambda>r. case r of Asleep s3 \<Rightarrow> Some (Blocked s3)
           | Resumed s3 es2 \<Rightarrow> map_option (wait_result w2) (wait_event_interruptible_loop (event_condition a) cur2 a w2 es2 s3))"
    "kinv s4 es ((qs(a := ks))(a := w2 # (qs(a := ks)) a))" "tasks s4 = (tasks s3)(cur2 \<mapsto> asleep t2)"
    "events s4 = (events s3)(a \<mapsto> (ev s3 a)\<lparr>ev_condition := 0\<rparr>)"
    "waits s4 = (waits s3)(w2 \<mapsto> wait_entry cur2)" "\<And>v. unlinked s3 v \<Longrightarrow> v \<noteq> w2 \<Longrightarrow> unlinked s4 v"
    by (rule sys_doeventwait_sleeps [OF s3(3) assms(2) c3 p2 f2 assms(13)]) blast
  have k4: "kinv s4 es (qs(a := [w2]))" using s4(2) ks by simp
  have t4: "tasks s4 cur = Some ?t" using s4(3) s3(5) assms(10) by simp
  have wo: "waiting_on s4 (qs(a := [w2])) cur a w"
    using s3(6) s4(5,6) assms(15) by (simp add: waiting_on_def idle_entry_def)
  have c4: "ev_condition (ev s4 a) = 0" "\<not> t_sigpending ?t" using s4(4) assms(6) by (simp_all add: ev_def)
  obtain l ws where l: "\<And>env. wait_event_interruptible_loop (event_condition a) cur a w env s4 =
      Option.bind (run_others cur env (s4\<lparr>lists := l, tasks := (tasks s4)(cur \<mapsto> asleep ?t)\<rparr>))
        (\<lambda>r. case r of Asleep s2 \<Rightarrow> Some (Blocked s2)
           | Resumed s2 es2 \<Rightarrow> wait_event_interruptible_loop (event_condition a) cur a w es2 s2)"
    "kinv (s4\<lparr>lists := l, tasks := (tasks s4)(cur \<mapsto> asleep ?t)\<rparr>) es ((qs(a := [w2]))(a := ws))"
    "w \<notin> set ((qs(a := [w2])) a) \<Longrightarrow> ws = w # (qs(a := [w2])) a"
    by (rule wait_loop_sleeps [OF k4 assms(2) t4 wo c4]) blast
  have "asleep ?t = asleep t" by (simp add: asleep_def)
  moreover have "ws = [w, w2]" using l(3) assms(15) by simp
  moreover have "sig_then_wait_turn sg cur2 w2 ?i s2 = Some s4"
    using s3(2) e3 s4(1) [of "[]"] by (simp add: sig_then_wait_turn_def sig_turn_def)
  ultimately show ?thesis
    using s3(1) [of "[sig_then_wait_turn sg cur2 w2 ?i]"] t4 l(1) [of "[]"] l(2) by (auto simp: wait_result_def)
qed

theorem doeventwait_lost_wakeup_witness:
  "\<exists>s'. sys_doeventwait demo_open 2 20 [sig_then_wait_turn 1 1 21 0] 0 = Some (Blocked s')
    \<and> map_option t_on_rq (tasks s' 2) = Some False"
  using doeventwait_lost_wakeup [OF demo_open_facts(2), of 5 2 "demo_task 1000" 20 1 "demo_task 0" 1 "demo_task 0" 21]
    demo_may_use demo_fresh_wait demo_ids by (auto simp: demo_open_facts demo_tasks_def asleep_def)

text \<open>
  C8: A pending signal makes \<^verbatim>\<open>sys_doeventwait\<close> return at once, with the value 1 that its comment gives
  for success, although nobody signalled the event: its condition is still 0. The call discards the
  result of \<^verbatim>\<open>wait_event_interruptible\<close>.
\<close>

theorem doeventwait_interrupted:
  assumes "kinv s es qs" "a \<in> set es" "tasks s cur = Some t" "may_use s cur (ev s a)" "fresh_wait s w"
    "t_sigpending t"
  shows "\<exists>s'. sys_doeventwait s cur w env (ev_id (ev s a)) = Some (Returned s' 1)
    \<and> ev_condition (ev s' a) = 0 \<and> kinv s' es qs \<and> waits s' = waits s"
proof -
  let ?d = "DEFINE_WAIT (rearmed s a) w cur"
  note dw = DEFINE_WAIT_event [OF kinv_rearmed [OF assms(1,2)] fresh_rearmed [OF assms(5)], where cur = cur]
  note sel = DEFINE_WAIT_rearmed [of s a w cur]
  have t1: "tasks ?d cur = Some t" using assms(3) by (simp add: sel)
  have w1: "waiting_on ?d qs cur a w" using dw(2) by (simp add: waiting_on_def idle_entry_def)
  have nq: "w \<notin> set (qs a)"
    using unlinked_not_queued [OF _ kinvD(7) [OF dw(1) assms(2)]] dw(2) by (simp add: idle_entry_def)
  obtain s' r where s': "\<And>env. wait_event_interruptible_loop (event_condition a) cur a w env ?d = Some (Returned s' r)"
    "kinv s' es (qs(a := remove1 w (qs a)))" "unlinked s' w" "events s' = events ?d" "waits s' = waits ?d"
    by (rule wait_loop_leaves [OF dw(1) assms(2) t1 w1]) (use assms(6) in blast)+
  have "kinv (wait_scope_exit s' w) es qs"
    using kinv_wait_scope_exit [OF s'(2,3)] nq by (simp add: remove1_idem)
  moreover have "waits (wait_scope_exit s' w) = waits s"
    using assms(5) by (simp add: wait_scope_exit_def s'(5) sel fresh_wait_def fun_upd_idem)
  moreover have "ev_condition (ev (wait_scope_exit s' w) a) = 0"
    using s'(4) by (simp add: ev_def sel wait_scope_exit_def)
  ultimately show ?thesis
    using sys_doeventwait_loop [OF assms(1-4), of w env] s'(1) [of env] by (simp add: wait_result_def)
qed

definition demo_signal :: kstate where
  "demo_signal = demo_open\<lparr>tasks := demo_tasks(2 \<mapsto> (demo_task 1000)\<lparr>t_sigpending := True\<rparr>)\<rparr>"

lemma demo_signal_kinv: "kinv demo_signal [5] (\<lambda>_. [])" "ev demo_signal b = ev demo_open b"
  "tasks demo_signal 2 = Some ((demo_task 1000)\<lparr>t_sigpending := True\<rparr>)"
  "fresh_wait demo_signal w = fresh_wait demo_open w"
  using demo_open_facts(2)
  by (simp_all add: demo_signal_def kinv_def ev_def ev_ids_def on_queue_def fresh_wait_def)

theorem doeventwait_interrupted_witness:
  "\<exists>s'. sys_doeventwait demo_signal 2 20 [] 0 = Some (Returned s' 1) \<and> ev_condition (ev s' 5) = 0"
  using doeventwait_interrupted [OF demo_signal_kinv(1), of 5 2 "(demo_task 1000)\<lparr>t_sigpending := True\<rparr>" 20 "[]"]
    demo_fresh_wait [of 20]
  by (auto simp: demo_signal_kinv may_use_def demo_open_facts opened_def)

section \<open>Races\<close>

text \<open>
  C9: Two calls of \<^verbatim>\<open>sys_doeventclose\<close> on one event race. The lock is released between the lookup
  and the removal, so both may find the event; the one that comes second then removes and frees an
  event that the first has freed already, which is undefined behaviour.
\<close>

theorem doeventclose_race:
  assumes "kinv s es qs" "a \<in> set es" "tasks s c1 = Some t1" "may_use s c1 (ev s a)"
    "tasks s c2 = Some t2" "may_use s c2 (ev s a)"
  shows "close_lookup s c1 (ev_id (ev s a)) = Some (Some a) \<and> close_lookup s c2 (ev_id (ev s a)) = Some (Some a)
    \<and> (\<exists>s1 n. close_event s a = Some (s1, n) \<and> close_event s1 a = None)"
proof -
  have lk: "close_lookup s c (ev_id (ev s a)) = Some (Some a)" if "tasks s c = Some t" "may_use s c (ev s a)" for c t
    using search_event_found [OF assms(1,2)] validateEvent_spec [OF that(1) kinv_event [OF assms(1,2)]] that(2)
    by (simp add: close_lookup_def)
  have dead: "close_event (kfree_event s1 a) a = None" for s1
    by (simp add: close_event_def waitqueue_active_def list_empty_def kfree_event_def free_node_def)
  have "\<exists>s1 n. close_event s a = Some (s1, n) \<and> close_event s1 a = None"
  proof (cases "qs a = []")
    case True
    show ?thesis by (rule close_event_idle [OF assms(1,2) True]) (use dead in blast)
  next
    case False
    obtain ts ks where w: "woken s (qs a) = (ts, ks)" by (rule prod.exhaust)
    show ?thesis by (rule close_event_waiters [OF assms(1,2) False w]) (use dead in blast)
  qed
  then show ?thesis using lk assms(3-6) by blast
qed

theorem doeventclose_race_witness:
  "close_lookup demo_open 1 0 = Some (Some 5) \<and> close_lookup demo_open 2 0 = Some (Some 5)
    \<and> (\<exists>s1 n. close_event demo_open 5 = Some (s1, n) \<and> close_event s1 5 = None)"
  using doeventclose_race [OF demo_open_facts(2), of 5 1 "demo_task 0" 2 "demo_task 1000"] demo_may_use
  by (simp add: demo_ids) (simp add: demo_open_facts demo_tasks_def)

section \<open>Access control\<close>

text \<open>
  C10: A task that is neither root, nor the owner of an event whose user flag is 1, nor in the group of
  an event whose group flag is 1, cannot signal, close or wait on it: the calls return -1 and change
  nothing. The same holds for an identifier that no event has.
\<close>

theorem event_access_denied:
  assumes "kinv s es qs" "tasks s cur = Some t"
    "\<forall>a \<in> set es. ev_id (ev s a) = i \<longrightarrow>
       t_euid t \<noteq> 0 \<and> \<not> (t_euid t = ev_uid (ev s a) \<and> ev_uidFlag (ev s a) = 1)
       \<and> \<not> (t_egid t = ev_gid (ev s a) \<and> ev_gidFlag (ev s a) = 1)"
  shows "sys_doeventsig s cur i = Some (s, - 1) \<and> sys_doeventclose s cur i = Some (s, - 1)
    \<and> sys_doeventwait s cur w env i = Some (Returned s (- 1))"
proof -
  have "granted s es cur i = None"
    using assms(2,3) granted_Some [of s es cur i]
    by (cases "granted s es cur i") (auto simp: may_use_def)
  then show ?thesis using calls_denied [OF assms(1,2)] by blast
qed

theorem event_access_denied_witness:
  "sys_doeventsig demo_open 3 0 = Some (demo_open, - 1) \<and> sys_doeventclose demo_open 3 0 = Some (demo_open, - 1)
    \<and> sys_doeventwait demo_open 3 20 [] 0 = Some (Returned demo_open (- 1))"
  using event_access_denied [OF demo_open_facts(2), of 3 "demo_task 1001" 0 20 "[]"]
  by (simp add: demo_open_facts opened_def)

lemma ev_with: "ev (with_owner s a u g) b = (if b = a then (ev s a)\<lparr>ev_uid := u, ev_gid := g\<rparr> else ev s b)"
  "ev (with_flags s a uf gf) b = (if b = a then (ev s a)\<lparr>ev_uidFlag := uf, ev_gidFlag := gf\<rparr> else ev s b)"
  by (simp_all add: with_owner_def with_flags_def ev_def)

lemma tasks_with [simp]: "tasks (with_owner s a u g) = tasks s" "tasks (with_flags s a uf gf) = tasks s"
  by (simp_all add: with_owner_def with_flags_def)

definition user_cell :: "umem \<Rightarrow> addr \<Rightarrow> bool" where
  "user_cell m p \<longleftrightarrow> um_cells m p \<noteq> None \<and> \<not> um_ro m p"

lemma stat_body_ELink [simp]:
  "events s a = Some e \<Longrightarrow> stat_body s i (ELink a) st =
     Some (if ev_id e = i then (True, Some a, ev_uid e, ev_gid e, word_of_int (ev_uidFlag e), word_of_int (ev_gidFlag e))
           else (False, None, snd st))"
  by (simp add: stat_body_def)

lemma fold_stat:
  assumes "\<And>a. a \<in> set es \<Longrightarrow> events s a = Some (ev s a)" "find_id s i es = Some a"
  shows "fold_brk (stat_body s i) (map ELink es) st =
    Some (Some a, ev_uid (ev s a), ev_gid (ev s a), word_of_int (ev_uidFlag (ev s a)), word_of_int (ev_gidFlag (ev s a)))"
  using assms
proof (induction es arbitrary: st)
  case (Cons b es)
  then show ?case by (auto simp: find_id_def split: if_splits)
qed (simp add: find_id_def)

lemma doeventstat_found:
  assumes k: "kinv s es qs" and a: "a \<in> set es"
    and m: "user_cell m p1" "user_cell m p2" "user_cell m p3" "user_cell m p4"
  shows "\<exists>m'. sys_doeventstat s m junk (ev_id (ev s a)) (Some p1) (Some p2) (Some p3) (Some p4) = Some (m', 0)
    \<and> um_cells m' = (um_cells m)(p1 \<mapsto> ev_uid (ev s a), p2 \<mapsto> ev_gid (ev s a),
        p3 \<mapsto> word_of_int (ev_uidFlag (ev s a)), p4 \<mapsto> word_of_int (ev_gidFlag (ev s a)))"
proof -
  obtain v1 v2 v3 v4 where v: "um_cells m p1 = Some v1" "um_cells m p2 = Some v2" "um_cells m p3 = Some v3"
    "um_cells m p4 = Some v4" "\<not> um_ro m p1" "\<not> um_ro m p2" "\<not> um_ro m p3" "\<not> um_ro m p4"
    using m by (auto simp: user_cell_def)
  have "list_for_each (lists s) (ELink allevents) (stat_body s (ev_id (ev s a))) (junk, v1, v2, v3, v4) =
      Some (Some a, ev_uid (ev s a), ev_gid (ev s a), word_of_int (ev_uidFlag (ev s a)), word_of_int (ev_gidFlag (ev s a)))"
    unfolding list_for_each_spec [OF kinvD(1) [OF k]]
    by (rule fold_stat) (use kinv_event [OF k] find_id_eq [OF k a] in auto)
  then show ?thesis
    using v kinv_isValid [OF k a]
    by (simp add: sys_doeventstat_def stat_read_def stat_write_def copy_from_user_cell_def)
qed

text \<open>
  C11: The owner of an event (or root) can change its flags and its owner, and \<^verbatim>\<open>sys_doeventstat\<close> reports
  what was set: after \<^verbatim>\<open>sys_doeventchmod\<close> and \<^verbatim>\<open>sys_doeventchown\<close>, which both return 0, the four values
  are stored in the four user cells and the call returns 0.
\<close>

theorem doeventchmod_chown_stat:
  assumes "kinv s es qs" "a \<in> set es" "tasks s cur = Some t" "may_change s cur (ev s a)"
    "user_cell m p1" "user_cell m p2" "user_cell m p3" "user_cell m p4"
  shows "\<exists>s1 s2 m'. sys_doeventchmod s cur j1 (ev_id (ev s a)) uf gf = Some (s1, 0)
    \<and> sys_doeventchown s1 cur j2 (ev_id (ev s a)) u g = Some (s2, 0)
    \<and> sys_doeventstat s2 m j3 (ev_id (ev s a)) (Some p1) (Some p2) (Some p3) (Some p4) = Some (m', 0)
    \<and> um_cells m' = (um_cells m)(p1 \<mapsto> u, p2 \<mapsto> g, p3 \<mapsto> word_of_int uf, p4 \<mapsto> word_of_int gf)"
proof -
  let ?s1 = "with_flags s a uf gf"
  let ?s2 = "with_owner ?s1 a u g"
  have j: "es \<noteq> [] \<or> j = None" for j :: "addr option" using assms(2) by auto
  have k1: "kinv ?s1 es qs" and k2: "kinv ?s2 es qs" using kinv_with assms(1,2) by blast+
  have i1: "ev_id (ev ?s1 a) = ev_id (ev s a)" and i2: "ev_id (ev ?s2 a) = ev_id (ev s a)" by (simp_all add: ev_with)
  have o: "owned s es cur (ev_id (ev s a)) = Some a"
    using find_id_eq [OF assms(1,2)] assms(4) by (simp add: owned_def)
  have "may_change ?s1 cur (ev ?s1 a)" using assms(3,4) by (simp add: may_change_def ev_with)
  then have o1: "owned ?s1 es cur (ev_id (ev s a)) = Some a"
    using find_id_eq [OF k1 assms(2)] by (simp add: owned_def i1)
  have t1: "tasks ?s1 cur = Some t" using assms(3) by simp
  show ?thesis
    using chown_chmod_spec(2) [OF assms(1,3) j, of j1 "ev_id (ev s a)"] o
      chown_chmod_spec(1) [OF k1 t1 j, of j2 "ev_id (ev s a)"] o1
      doeventstat_found [OF k2 assms(2,5-8), of j3] by (auto simp: i2 ev_with)
qed

definition demo_umem :: umem where
  "demo_umem = \<lparr>um_cells = (\<lambda>p. if p < 8 then Some 0 else None), um_ro = (\<lambda>p. p = 7)\<rparr>"

theorem doeventchmod_chown_stat_witness:
  "\<exists>s1 s2 m'. sys_doeventchmod demo_open 2 None 0 0 1 = Some (s1, 0)
    \<and> sys_doeventchown s1 2 None 0 1001 1002 = Some (s2, 0)
    \<and> sys_doeventstat s2 demo_umem None 0 (Some 0) (Some 1) (Some 2) (Some 3) = Some (m', 0)
    \<and> um_cells m' 0 = Some 1001 \<and> um_cells m' 3 = Some 1"
  using doeventchmod_chown_stat [OF demo_open_facts(2), of 5 2 "demo_task 1000" demo_umem 0 1 2 3 None 0 1 None 1001 1002 None]
  by (fastforce simp: demo_open_facts may_change_def opened_def user_cell_def demo_umem_def)

text \<open>
  C12: On an empty event list \<^verbatim>\<open>sys_doeventstat\<close> and \<^verbatim>\<open>sys_doeventchown\<close> use an uninitialised pointer.
  The loop that would set \<^verbatim>\<open>waitEvent\<close> does not run, so the test for null reads whatever was on the
  stack: if that is not null, \<^verbatim>\<open>sys_doeventstat\<close> returns 0 for an event that does not exist, and
  \<^verbatim>\<open>sys_doeventchown\<close> by root writes through the stray pointer.
\<close>

theorem event_calls_uninitialised:
  assumes "kinv s [] qs" "0 \<le> i" "tasks s cur = Some t" "t_euid t = 0" "events s b = None"
  shows "sys_doeventstat s m (Some b) i None None None None = Some (m, 0)
    \<and> sys_doeventchown s cur (Some b) i u g = None"
proof -
  have l: "is_list (lists s) (ELink allevents) []" using kinvD(1) [OF assms(1)] by simp
  have "list_for_each (lists s) (ELink allevents) f st = Some st" for f and st :: "addr option \<times> u32 \<times> u32 \<times> u32 \<times> u32"
    using list_for_each_spec [OF l] by simp
  then show ?thesis
    using search_event_spec [OF assms(1), of i "Some b"] assms(2-5)
    by (simp add: sys_doeventstat_def stat_read_def stat_write_def isValidEventId_def sys_doeventchown_def
        validateUserEvent_def getTaskuid_def upd_event_def)
qed

theorem event_calls_uninitialised_witness:
  "sys_doeventstat demo_state demo_umem (Some 9) 4 None None None None = Some (demo_umem, 0)
    \<and> sys_doeventchown demo_state 1 (Some 9) 4 1000 1000 = None"
proof -
  have "events demo_state 9 = None"
    by (simp add: demo_state_def doevent_init_def boot_state_def upd_lists_def
      INIT_LIST_HEAD_def upd_event_def init_waitqueue_head_def set_next_def set_prev_def allevents_def)
  then show ?thesis
    using event_calls_uninitialised [OF demo_state_facts(1), of 4 1 "demo_task 0" 9 demo_umem 1000 1000]
    by (simp add: demo_state_facts(2)) (simp add: demo_tasks_def)
qed

section \<open>Listing the events\<close>

definition info_array :: "int list \<Rightarrow> int \<Rightarrow> int list" where
  "info_array ids num = take (nat num) ids @ replicate (nat num - length ids) (- 1)"

lemma fold_info:
  assumes "\<And>a. a \<in> set es \<Longrightarrow> events s a = Some (ev s a)" "0 \<le> c" "c + int (length es) \<le> INT_MAX"
    "length arr = nat num" "int (length ds) = c"
    "take (length ds) arr = take (nat num) ds"
  shows "\<exists>arr'. fold_brk (info_body s num True) (map ELink es) (c, arr) = Some (c + int (length es), arr')
    \<and> length arr' = nat num \<and> take (length ds + length es) arr' = take (nat num) (ds @ ev_ids s es)
    \<and> drop (length ds + length es) arr' = drop (length ds + length es) arr"
  using assms
proof (induction es arbitrary: c arr ds)
  case (Cons a es)
  have e: "events s a = Some (ev s a)" using Cons.prems(1) by simp
  have ci: "cint (c + 1) = c + 1" using Cons.prems(2,3) by (intro cint_id) (simp add: in_cint_def INT_MIN_def)
  define arr1 where "arr1 = (if c < num then arr[nat c := ev_id (ev s a)] else arr)"
  have step: "info_body s num True (ELink a) (c, arr) = Some (False, c + 1, arr1)"
    using e ci by (simp add: info_body_def arr1_def)
  have nc: "nat c = length ds" using Cons.prems(5) by simp
  have len: "length arr1 = nat num" using Cons.prems(4) by (simp add: arr1_def)
  have tk: "take (length (ds @ [ev_id (ev s a)])) arr1 = take (nat num) (ds @ [ev_id (ev s a)])"
  proof (cases "c < num")
    case True
    then have lt: "length ds < length arr" using Cons.prems(4,5) by linarith
    then have "take (Suc (length ds)) arr1 = take (length ds) arr @ [ev_id (ev s a)]"
      using True nc by (simp add: arr1_def take_Suc_conv_app_nth)
    then show ?thesis using Cons.prems(4,6) lt by simp
  next
    case False
    then show ?thesis using Cons.prems(4-6) by (simp add: arr1_def)
  qed
  have dr: "drop (length ds + Suc n) arr1 = drop (length ds + Suc n) arr" for n
    using nc by (simp add: arr1_def)
  from Cons.IH [of "c + 1" arr1 "ds @ [ev_id (ev s a)]"] Cons.prems(1-5) len tk
  obtain arr' where "fold_brk (info_body s num True) (map ELink es) (c + 1, arr1) = Some (c + 1 + int (length es), arr')"
    "length arr' = nat num"
    "take (length (ds @ [ev_id (ev s a)]) + length es) arr' = take (nat num) ((ds @ [ev_id (ev s a)]) @ ev_ids s es)"
    "drop (length (ds @ [ev_id (ev s a)]) + length es) arr' = drop (length (ds @ [ev_id (ev s a)]) + length es) arr1"
    by auto
  then show ?case using step dr by (auto simp: ev_ids_def)
qed (auto simp: ev_ids_def)

lemma fold_info_array:
  assumes k: "kinv s es qs" and n: "int (length es) \<le> INT_MAX"
  shows "list_for_each (lists s) (ELink allevents) (info_body s num True) (0, replicate (nat num) (- 1)) =
    Some (int (length es), info_array (ev_ids s es) num)"
proof -
  have ev: "\<And>a. a \<in> set es \<Longrightarrow> events s a = Some (ev s a)" using kinv_event [OF k] .
  obtain arr' where a: "fold_brk (info_body s num True) (map ELink es) (0, replicate (nat num) (- 1)) = Some (int (length es), arr')"
    "take (length es) arr' = take (nat num) (ev_ids s es)"
    "drop (length es) arr' = drop (length es) (replicate (nat num) (- 1))"
    using fold_info [OF ev, where c = 0 and arr = "replicate (nat num) (- 1)" and num = num and ds = "[]"] n by auto
  have "arr' = take (length es) arr' @ drop (length es) arr'" by simp
  also have "\<dots> = info_array (ev_ids s es) num"
    unfolding a(2,3) info_array_def by (simp add: ev_ids_def)
  finally show ?thesis using a(1) by (simp add: list_for_each_spec [OF kinvD(1) [OF k]])
qed

lemma fold_info_null:
  assumes k: "kinv s es qs" and n: "int (length es) \<le> INT_MAX"
  shows "list_for_each (lists s) (ELink allevents) (info_body s num False) (0, arr) = Some (int (length es), arr)"
proof -
  have "fold_brk (info_body s num False) xs (cint c, arr) = Some (cint (c + int (length xs)), arr)" for xs c
  proof (induction xs arbitrary: c)
    case (Cons x xs)
    show ?case using Cons [of "c + 1"] by (simp add: info_body_def cint_add) (simp add: algebra_simps)
  qed simp
  from this [of "map ELink es" 0] n show ?thesis
    by (simp add: list_for_each_spec [OF kinvD(1) [OF k]] in_cint_def INT_MIN_def)
qed

lemma copy_to_user_ok:
  assumes "\<And>j. j < length vs \<Longrightarrow> user_cell m (p + j)"
  shows "\<exists>m'. copy_to_user m p vs = (m', 0) \<and> (\<forall>j < length vs. um_cells m' (p + j) = Some (vs ! j))
    \<and> (\<forall>q. q < p \<or> p + length vs \<le> q \<longrightarrow> um_cells m' q = um_cells m q)"
  using assms
proof (induction vs arbitrary: m p)
  case (Cons v vs)
  let ?m = "m\<lparr>um_cells := (um_cells m)(p \<mapsto> v)\<rparr>"
  have u: "user_cell m p" using Cons.prems [of 0] by simp
  have "user_cell ?m (Suc p + j)" if "j < length vs" for j
    using Cons.prems [of "Suc j"] that by (auto simp: user_cell_def)
  from Cons.IH [OF this] obtain m' where m': "copy_to_user ?m (Suc p) vs = (m', 0)"
    "\<forall>j < length vs. um_cells m' (Suc p + j) = Some (vs ! j)"
    "\<forall>q. q < Suc p \<or> Suc p + length vs \<le> q \<longrightarrow> um_cells m' q = um_cells ?m q" by blast
  have "um_cells m' (p + j) = Some ((v # vs) ! j)" if "j < length (v # vs)" for j
    using m'(2,3) that by (cases j) auto
  then show ?case using m' u by (intro exI [of _ m']) (auto simp: user_cell_def)
qed simp



section \<open>Running out of identifiers\<close>


definition demo_full :: kstate where
  "demo_full = demo_open\<lparr>events := (events demo_open)(5 \<mapsto> (ev demo_open 5)\<lparr>ev_id := INT_MAX\<rparr>)\<rparr>"

lemma demo_full_kinv: "kinv demo_full [5] (\<lambda>_. [])" "ev_ids demo_full [5] = [INT_MAX]"
proof -
  have "allevents \<noteq> 5" by (simp add: allevents_def)
  then have e: "ev demo_full b = (if b = 5 then (ev demo_open 5)\<lparr>ev_id := INT_MAX\<rparr> else ev demo_open b)" for b
    by (simp add: demo_full_def ev_def)
  then show i: "ev_ids demo_full [5] = [INT_MAX]" by (simp add: ev_ids_def)
  have "allevents \<noteq> 5" by (simp add: allevents_def)
  then show "kinv demo_full [5] (\<lambda>_. [])"
    using kinvD(1-3,7) [OF demo_open_facts(2)] i
    by (simp add: kinv_def e) (simp add: demo_full_def on_queue_def INT_MAX_def)
qed


end
