(* ===== verification/Locks.thy ===== *)
theory Locks
  imports Prelude
begin

unbundle bit_operations_syntax

text \<open>
  The spin locks of arch/x86/include/asm/spinlock.h: the ticket lock in its 8-bit variant, which a
  kernel for fewer than 256 CPUs uses, and the reader-writer lock that protects the event list.
  Each definition is one atomic instruction sequence of the assembly on the lock word and the
  registers of one CPU; the step relations interleave the CPUs at these points. Memory is
  sequentially consistent, and a CPU that holds or awaits a lock does not take it again.
\<close>

definition NR_CPUS :: nat where
  "NR_CPUS = 8"

section \<open>The ticket lock\<close>

text \<open>The low half of \<^verbatim>\<open>slock\<close>: the head in the low byte, the tail in the high byte. Nothing writes the
  other half.\<close>

type_synonym slock = u16

definition lo8 :: "u16 \<Rightarrow> u8" where
  "lo8 x = ucast x"

definition hi8 :: "u16 \<Rightarrow> u8" where
  "hi8 x = ucast (drop_bit 8 x)"

definition mk16 :: "u8 \<Rightarrow> u8 \<Rightarrow> u16" where
  "mk16 h l = push_bit 8 (ucast h) OR ucast l"

text \<open>Where a CPU is: \<open>Spin inc\<close> is in the loop of \<^verbatim>\<open>__ticket_spin_lock\<close> with the register \<open>inc\<close>, its ticket
  in the high byte and the head it has read in the low byte; \<open>Try tmp\<close> is between the load and
  the \<^verbatim>\<open>cmpxchgw\<close> of \<^verbatim>\<open>__ticket_spin_trylock\<close>.\<close>

datatype tcpu = Out | Spin u16 | Try u16 | Held

text \<open>The instructions of \<^verbatim>\<open>__ticket_spin_lock\<close>: \<^verbatim>\<open>xaddw\<close>, then the loop of \<^verbatim>\<open>cmpb\<close> and \<^verbatim>\<open>movb\<close>.\<close>

definition ticket_spin_lock :: "slock \<Rightarrow> tcpu \<Rightarrow> (slock \<times> tcpu) option" where
  "ticket_spin_lock l c = (case c of
     Out \<Rightarrow> Some (l + 0x0100, Spin l)
   | Spin inc \<Rightarrow> Some (l, if hi8 inc = lo8 inc then Held else Spin (mk16 (hi8 inc) (lo8 l)))
   | _ \<Rightarrow> None)"

text \<open>The instructions of \<^verbatim>\<open>__ticket_spin_trylock\<close>: the load, then \<^verbatim>\<open>cmpxchgw\<close> if the lock looked free.\<close>

definition ticket_spin_trylock :: "slock \<Rightarrow> tcpu \<Rightarrow> (slock \<times> tcpu) option" where
  "ticket_spin_trylock l c = (case c of
     Out \<Rightarrow> Some (l, if hi8 l = lo8 l then Try l else Out)
   | Try tmp \<Rightarrow> Some (if l = tmp then (tmp + 0x0100, Held) else (l, Out))
   | _ \<Rightarrow> None)"

definition ticket_spin_unlock :: "slock \<Rightarrow> tcpu \<Rightarrow> (slock \<times> tcpu) option" where
  "ticket_spin_unlock l c = (case c of Held \<Rightarrow> Some (mk16 (hi8 l) (lo8 l + 1), Out) | _ \<Rightarrow> None)"

definition ticket_spin_is_locked :: "slock \<Rightarrow> bool" where
  "ticket_spin_is_locked l \<longleftrightarrow> (drop_bit 8 l XOR l) AND 0xff \<noteq> 0"

definition ticket_spin_is_contended :: "slock \<Rightarrow> bool" where
  "ticket_spin_is_contended l \<longleftrightarrow> (drop_bit 8 l - l) AND 0xff > 1"

record ticket =
  tk_slock :: slock
  tk_cpu :: "nat \<Rightarrow> tcpu"

definition ticket_init :: ticket where
  "ticket_init = \<lparr>tk_slock = 0, tk_cpu = (\<lambda>_. Out)\<rparr>"

definition ticket_upd :: "ticket \<Rightarrow> nat \<Rightarrow> slock \<times> tcpu \<Rightarrow> ticket" where
  "ticket_upd s c r = \<lparr>tk_slock = fst r, tk_cpu = (tk_cpu s)(c := snd r)\<rparr>"

inductive ticket_step :: "ticket \<Rightarrow> nat \<Rightarrow> ticket \<Rightarrow> bool" where
  lock: "c < NR_CPUS \<Longrightarrow> ticket_spin_lock (tk_slock s) (tk_cpu s c) = Some r \<Longrightarrow> ticket_step s c (ticket_upd s c r)"
| trylock: "c < NR_CPUS \<Longrightarrow> ticket_spin_trylock (tk_slock s) (tk_cpu s c) = Some r \<Longrightarrow> ticket_step s c (ticket_upd s c r)"
| unlock: "c < NR_CPUS \<Longrightarrow> ticket_spin_unlock (tk_slock s) (tk_cpu s c) = Some r \<Longrightarrow> ticket_step s c (ticket_upd s c r)"

inductive ticket_reach :: "ticket \<Rightarrow> bool" where
  init: "ticket_reach ticket_init"
| step: "ticket_reach s \<Longrightarrow> ticket_step s c s' \<Longrightarrow> ticket_reach s'"

subsection \<open>Bytes of the lock word\<close>

lemma unat_lo8: "unat (lo8 x) = unat x mod 256"
  by (simp add: lo8_def unsigned_ucast_eq take_bit_eq_mod)

lemma unat_hi8: "unat (hi8 x) = unat x div 256"
proof -
  have "unat x < 65536" using unsigned_less [of x, where 'a = nat] by simp
  then have "unat x div 256 < 256" by simp
  then show ?thesis by (simp add: hi8_def unsigned_ucast_eq take_bit_eq_mod unat_drop_bit_eq unat_div_distrib drop_bit_eq_div)
qed

lemma bytes_mk16 [simp]: "lo8 (mk16 h l) = l" "hi8 (mk16 h l) = h"
  by (auto simp: lo8_def hi8_def mk16_def bit_eq_iff bit_simps dest: bit_imp_le_length)

lemma bytes_eqI: "lo8 x = lo8 y \<Longrightarrow> hi8 x = hi8 y \<Longrightarrow> x = y"
  by (metis div_mult_mod_eq unat_hi8 unat_lo8 word_unat_eq_iff)

lemma unat_add_256: "unat (x + 0x100 :: u16) = (unat x + 256) mod 65536"
  by (simp add: unat_word_ariths)

lemma bytes_add [simp]: "lo8 (x + 0x100) = lo8 x" "hi8 (x + 0x100) = hi8 x + 1"
proof -
  show "lo8 (x + 0x100) = lo8 x"
    by (simp add: word_unat_eq_iff unat_lo8 unat_add_256 mod_mod_cancel)
  have "(unat x + 256) mod 65536 div 256 = (unat x div 256 + 1) mod 256"
    using mod_mult2_eq [of "unat x + 256" 256 256] div_add_self2 [of 256 "unat x"] by simp
  then show "hi8 (x + 0x100) = hi8 x + 1"
    by (simp add: word_unat_eq_iff unat_hi8 unat_add_256 unat_word_ariths)
qed

subsection \<open>The queue that the lock word encodes\<close>

text \<open>
  The CPUs that hold or await the lock, in the order of their tickets. The head of the lock is the
  ticket of the first; a spinning CPU may have read an older head, but not one that equals its
  own ticket before its turn, because there are fewer CPUs than tickets.
\<close>

definition cpu_ticket :: "slock \<Rightarrow> nat \<Rightarrow> tcpu \<Rightarrow> bool" where
  "cpu_ticket l j c = (case c of
     Spin inc \<Rightarrow> hi8 inc = lo8 l + of_nat j \<and> (\<exists>k. lo8 inc = lo8 l - of_nat k \<and> j + k < NR_CPUS)
   | Held \<Rightarrow> j = 0
   | _ \<Rightarrow> False)"

definition queued :: "tcpu \<Rightarrow> bool" where
  "queued c \<longleftrightarrow> (case c of Spin _ \<Rightarrow> True | Held \<Rightarrow> True | _ \<Rightarrow> False)"

definition ticket_queue :: "ticket \<Rightarrow> nat list \<Rightarrow> bool" where
  "ticket_queue s q \<longleftrightarrow> distinct q \<and> set q = {c. c < NR_CPUS \<and> queued (tk_cpu s c)}
     \<and> hi8 (tk_slock s) = lo8 (tk_slock s) + of_nat (length q)
     \<and> (\<forall>j < length q. cpu_ticket (tk_slock s) j (tk_cpu s (q ! j)))"

lemma ticket_queue_length:
  assumes "ticket_queue s q"
  shows "length q \<le> NR_CPUS" "\<And>c. c < NR_CPUS \<Longrightarrow> \<not> queued (tk_cpu s c) \<Longrightarrow> length q < NR_CPUS"
proof -
  have d: "distinct q" "set q = {c. c < NR_CPUS \<and> queued (tk_cpu s c)}"
    using assms by (auto simp: ticket_queue_def)
  have "set q \<subseteq> {..<NR_CPUS}" using d(2) by auto
  then have "card (set q) \<le> NR_CPUS" using card_mono [of "{..<NR_CPUS}" "set q"] by simp
  then show "length q \<le> NR_CPUS" using d(1) by (simp add: distinct_card)
  fix c
  assume "c < NR_CPUS" "\<not> queued (tk_cpu s c)"
  then have "set q \<subset> {..<NR_CPUS}" using d(2) by auto
  then have "card (set q) < NR_CPUS" using psubset_card_mono [of "{..<NR_CPUS}" "set q"] by simp
  then show "length q < NR_CPUS" using d(1) by (simp add: distinct_card)
qed

lemma of_nat_u8_eq_0: "n < 256 \<Longrightarrow> (of_nat n :: u8) = 0 \<longleftrightarrow> n = 0"
  by (cases "n = 0") (auto simp: word_of_nat_eq_0_iff dest: dvd_imp_le)

text \<open>The abstract lock: a queue of CPUs, the first of which holds the lock once it has been granted.\<close>

inductive queue_step :: "nat list \<Rightarrow> nat \<Rightarrow> nat list \<Rightarrow> bool" where
  enter: "c \<notin> set q \<Longrightarrow> queue_step q c (q @ [c])"
| wait: "queue_step q c q"
| leave: "queue_step (c # q) c q"

lemma ticket_queue_init: "ticket_queue ticket_init []"
  by (simp add: ticket_queue_def ticket_init_def queued_def lo8_def hi8_def)

lemma cpu_ticket_slock: "lo8 l' = lo8 l \<Longrightarrow> cpu_ticket l' j c = cpu_ticket l j c"
  by (simp add: cpu_ticket_def split: tcpu.split)

lemma ticket_enter:
  assumes q: "ticket_queue s q" and c: "c < NR_CPUS" "\<not> queued (tk_cpu s c)"
    and t: "cpu_ticket (tk_slock s + 0x100) (length q) x" "queued x"
  shows "ticket_queue (ticket_upd s c (tk_slock s + 0x100, x)) (q @ [c])"
proof -
  have d: "distinct q" "set q = {c. c < NR_CPUS \<and> queued (tk_cpu s c)}" "c \<notin> set q"
    and h: "hi8 (tk_slock s) = lo8 (tk_slock s) + of_nat (length q)"
    and j: "\<And>j. j < length q \<Longrightarrow> cpu_ticket (tk_slock s) j (tk_cpu s (q ! j))"
    using q c by (auto simp: ticket_queue_def)
  have "cpu_ticket (tk_slock s + 0x100) j (((tk_cpu s)(c := x)) ((q @ [c]) ! j))" if "j < length (q @ [c])" for j
  proof (cases "j < length q")
    case True
    then have "q ! j \<noteq> c" using d(3) by auto
    then show ?thesis
      using j [OF True] True cpu_ticket_slock [of "tk_slock s + 0x100" "tk_slock s"] by (simp add: nth_append)
  next
    case False
    then have "j = length q" using that by simp
    then show ?thesis using t by simp
  qed
  moreover have "set (q @ [c]) = {d. d < NR_CPUS \<and> queued (((tk_cpu s)(c := x)) d)}"
    using d(2) c(1) t(2) by auto
  ultimately show ?thesis using d(1,3) h by (simp add: ticket_queue_def ticket_upd_def)
qed

lemma ticket_stay:
  assumes q: "ticket_queue s q" and c: "c \<notin> set q" "\<not> queued x"
  shows "ticket_queue (ticket_upd s c (tk_slock s, x)) q"
proof -
  have "q ! j \<noteq> c" if "j < length q" for j using c(1) that by auto
  then show ?thesis using q c by (auto simp: ticket_queue_def ticket_upd_def)
qed

lemma ticket_move:
  assumes q: "ticket_queue s q" and i: "i < length q" and x: "cpu_ticket (tk_slock s) i x" "queued x"
  shows "ticket_queue (ticket_upd s (q ! i) (tk_slock s, x)) q"
proof -
  have d: "distinct q" "set q = {c. c < NR_CPUS \<and> queued (tk_cpu s c)}" using q by (auto simp: ticket_queue_def)
  have "q ! j = q ! i \<longleftrightarrow> j = i" if "j < length q" for j using d(1) that i by (simp add: nth_eq_iff_index_eq)
  moreover have "q ! i \<in> set q" using i by simp
  ultimately show ?thesis using q x by (auto simp: ticket_queue_def ticket_upd_def)
qed

lemma ticket_leave:
  assumes q: "ticket_queue s (c # q)" and h: "tk_cpu s c = Held"
  shows "ticket_queue (ticket_upd s c (mk16 (hi8 (tk_slock s)) (lo8 (tk_slock s) + 1), Out)) q"
proof -
  let ?l = "mk16 (hi8 (tk_slock s)) (lo8 (tk_slock s) + 1)"
  have d: "distinct (c # q)" "set (c # q) = {c. c < NR_CPUS \<and> queued (tk_cpu s c)}"
    and hh: "hi8 (tk_slock s) = lo8 (tk_slock s) + of_nat (length (c # q))"
    and j: "\<And>j. j < length (c # q) \<Longrightarrow> cpu_ticket (tk_slock s) j (tk_cpu s ((c # q) ! j))"
    using q unfolding ticket_queue_def by blast+
  have "cpu_ticket ?l j (((tk_cpu s)(c := Out)) (q ! j))" if "j < length q" for j
  proof -
    have n: "q ! j \<noteq> c" using d(1) that by auto
    have t: "cpu_ticket (tk_slock s) (Suc j) (tk_cpu s (q ! j))" using j [of "Suc j"] that by simp
    then obtain inc k where "tk_cpu s (q ! j) = Spin inc" "hi8 inc = lo8 (tk_slock s) + of_nat (Suc j)"
      "lo8 inc = lo8 (tk_slock s) - of_nat k" "Suc j + k < NR_CPUS"
      by (auto simp: cpu_ticket_def split: tcpu.splits)
    then show ?thesis using n by (auto simp: cpu_ticket_def intro!: exI [of _ "Suc k"])
  qed
  moreover have "set q = {d. d < NR_CPUS \<and> queued (((tk_cpu s)(c := Out)) d)}"
    using d by (auto simp: queued_def)
  ultimately show ?thesis using d(1) hh by (simp add: ticket_queue_def ticket_upd_def)
qed

lemma spin_granted:
  assumes "ticket_queue s q" "i < length q" "tk_cpu s (q ! i) = Spin inc" "hi8 inc = lo8 inc"
  shows "i = 0"
proof -
  have "cpu_ticket (tk_slock s) i (Spin inc)" using assms(1-3) by (auto simp: ticket_queue_def)
  then obtain k where k: "hi8 inc = lo8 (tk_slock s) + of_nat i" "lo8 inc = lo8 (tk_slock s) - of_nat k" "i + k < NR_CPUS"
    by (auto simp: cpu_ticket_def)
  then have "(of_nat (i + k) :: u8) = 0" using assms(4) by (simp add: algebra_simps)
  then show "i = 0" using of_nat_u8_eq_0 [of "i + k"] k(3) by (simp add: NR_CPUS_def)
qed

lemma free_queue_empty:
  assumes "ticket_queue s q" "hi8 (tk_slock s) = lo8 (tk_slock s)"
  shows "q = []"
  using assms of_nat_u8_eq_0 [of "length q"] ticket_queue_length(1) [OF assms(1)]
  by (simp add: ticket_queue_def NR_CPUS_def)

text \<open>A CPU outside the queue that is trying the lock has seen it free.\<close>

definition try_saw_free :: "ticket \<Rightarrow> bool" where
  "try_saw_free s \<longleftrightarrow> (\<forall>c tmp. tk_cpu s c = Try tmp \<longrightarrow> hi8 tmp = lo8 tmp)"

lemma ticket_lock_queue:
  assumes q: "ticket_queue s q" and tr: "try_saw_free s" and c: "c < NR_CPUS" and r: "ticket_spin_lock (tk_slock s) (tk_cpu s c) = Some r"
  defines "s' \<equiv> ticket_upd s c r"
  shows "\<exists>q'. ticket_queue s' q' \<and> queue_step q c q' \<and> try_saw_free s'"
proof -
  note 1 = s'_def c r
  have inq: "queued (tk_cpu s c) \<longleftrightarrow> c \<in> set q" using q 1(2) by (auto simp: ticket_queue_def)
  show ?thesis
  proof (cases "tk_cpu s c")
    case Out
    then have nq: "\<not> queued (tk_cpu s c)" by (simp add: queued_def)
    have "length q < NR_CPUS" using ticket_queue_length(2) [OF q 1(2) nq] .
    then have "cpu_ticket (tk_slock s + 0x100) (length q) (Spin (tk_slock s))"
      using q by (auto simp: cpu_ticket_def ticket_queue_def intro!: exI [of _ 0])
    from ticket_enter [OF q 1(2) nq this] have "ticket_queue s' (q @ [c])"
      using 1 Out by (simp add: ticket_spin_lock_def queued_def)
    moreover have "queue_step q c (q @ [c])" using inq nq by (simp add: queue_step.enter)
    moreover have "try_saw_free s'" using tr 1 Out by (auto simp: try_saw_free_def ticket_upd_def ticket_spin_lock_def)
    ultimately show ?thesis by blast
  next
    case (Spin inc)
    then obtain i where i: "i < length q" "q ! i = c" using inq by (auto simp: queued_def in_set_conv_nth)
    have t: "cpu_ticket (tk_slock s) i (Spin inc)" using q i Spin by (auto simp: ticket_queue_def)
    let ?x = "if hi8 inc = lo8 inc then Held else Spin (mk16 (hi8 inc) (lo8 (tk_slock s)))"
    have x: "cpu_ticket (tk_slock s) i ?x \<and> queued ?x"
      using t spin_granted [OF q i(1), of inc] i Spin
      by (auto simp: cpu_ticket_def queued_def intro!: exI [of _ 0])
    then have "ticket_queue s' q" using ticket_move [OF q i(1), of ?x] i 1 Spin by (simp add: ticket_spin_lock_def)
    moreover have "try_saw_free s'" using tr 1 Spin
      by (auto simp: try_saw_free_def ticket_upd_def ticket_spin_lock_def split: if_splits)
    ultimately show ?thesis using queue_step.wait by blast
  qed (use 1 in \<open>auto simp: ticket_spin_lock_def\<close>)
qed

lemma ticket_trylock_queue:
  assumes q: "ticket_queue s q" and tr: "try_saw_free s" and c: "c < NR_CPUS" and r: "ticket_spin_trylock (tk_slock s) (tk_cpu s c) = Some r"
  defines "s' \<equiv> ticket_upd s c r"
  shows "\<exists>q'. ticket_queue s' q' \<and> queue_step q c q' \<and> try_saw_free s'"
proof -
  note 2 = s'_def c r
  have inq: "queued (tk_cpu s c) \<longleftrightarrow> c \<in> set q" using q 2(2) by (auto simp: ticket_queue_def)
  show ?thesis
  proof (cases "tk_cpu s c")
    case Out
    let ?x = "if hi8 (tk_slock s) = lo8 (tk_slock s) then Try (tk_slock s) else Out"
    have "c \<notin> set q" using inq Out by (simp add: queued_def)
    then have "ticket_queue s' q" using ticket_stay [OF q, of c ?x] 2 Out by (simp add: ticket_spin_trylock_def queued_def)
    moreover have "try_saw_free s'" using tr 2 Out
      by (auto simp: try_saw_free_def ticket_upd_def ticket_spin_trylock_def split: if_splits)
    ultimately show ?thesis using queue_step.wait by blast
  next
    case (Try tmp)
    then have nq: "c \<notin> set q" "\<not> queued (tk_cpu s c)" using inq by (simp_all add: queued_def)
    have hl: "hi8 tmp = lo8 tmp" using tr Try by (simp add: try_saw_free_def)
    have tr': "try_saw_free s'" using tr 2 Try
      by (auto simp: try_saw_free_def ticket_upd_def ticket_spin_trylock_def split: if_splits)
    show ?thesis
    proof (cases "tk_slock s = tmp")
      case True
      have "q = []" using free_queue_empty [OF q] hl True by simp
      then have "ticket_queue s' (q @ [c])"
        using ticket_enter [OF q 2(2) nq(2), of Held] 2 Try True
        by (simp add: ticket_spin_trylock_def cpu_ticket_def queued_def)
      then show ?thesis using queue_step.enter [OF nq(1)] tr' by blast
    next
      case False
      then have "ticket_queue s' q" using ticket_stay [OF q nq(1), of Out] 2 Try by (simp add: ticket_spin_trylock_def queued_def)
      then show ?thesis using queue_step.wait tr' by blast
    qed
  qed (use 2 in \<open>auto simp: ticket_spin_trylock_def\<close>)
qed

lemma ticket_unlock_queue:
  assumes q: "ticket_queue s q" and tr: "try_saw_free s" and c: "c < NR_CPUS" and r: "ticket_spin_unlock (tk_slock s) (tk_cpu s c) = Some r"
  defines "s' \<equiv> ticket_upd s c r"
  shows "\<exists>q'. ticket_queue s' q' \<and> queue_step q c q' \<and> try_saw_free s'"
proof -
  note 3 = s'_def c r
  have h: "tk_cpu s c = Held" using 3 by (auto simp: ticket_spin_unlock_def split: tcpu.splits)
  then have "c \<in> set q" using q 3(2) by (auto simp: ticket_queue_def queued_def)
  then obtain i where i: "i < length q" "q ! i = c" by (auto simp: in_set_conv_nth)
  then have "i = 0" using q h by (auto simp: ticket_queue_def cpu_ticket_def)
  then obtain q' where q': "q = c # q'" using i by (cases q) auto
  then have "ticket_queue s' q'" using ticket_leave [of s c q'] q h 3 by (simp add: ticket_spin_unlock_def)
  moreover have "try_saw_free s'" using tr 3 h by (auto simp: try_saw_free_def ticket_upd_def ticket_spin_unlock_def)
  ultimately show ?thesis using q' queue_step.leave by blast
qed

lemma ticket_step_queue:
  assumes "ticket_queue s q" "try_saw_free s" "ticket_step s c s'"
  shows "\<exists>q'. ticket_queue s' q' \<and> queue_step q c q' \<and> try_saw_free s'"
  using assms(3)
  by cases (simp_all add: ticket_lock_queue ticket_trylock_queue ticket_unlock_queue assms(1,2))

lemma ticket_reach_queue: "ticket_reach s \<Longrightarrow> \<exists>q. ticket_queue s q \<and> try_saw_free s"
proof (induction rule: ticket_reach.induct)
  case init
  then show ?case using ticket_queue_init by (auto simp: try_saw_free_def ticket_init_def)
next
  case (step s c s')
  then show ?case using ticket_step_queue by blast
qed

lemma and_ff: "x AND 0xff = (ucast (lo8 x) :: u16)"
proof -
  have "(0xff :: u16) = mask 8" by (simp add: mask_eq_exp_minus_1)
  then show ?thesis by (auto simp: lo8_def bit_eq_iff bit_simps)
qed

lemma lo8_plus: "lo8 (x + y) = lo8 x + lo8 y"
  by (simp add: word_unat_eq_iff unat_lo8 unat_word_ariths mod_mod_cancel mod_add_eq)

lemma lo8_minus: "lo8 (x - y) = lo8 x - lo8 y"
  using lo8_plus [of "x - y" y] by simp

lemma lo8_ops: "lo8 (x XOR y) = lo8 x XOR lo8 y" "lo8 (drop_bit 8 x) = hi8 x"
  by (auto simp: lo8_def hi8_def bit_eq_iff bit_simps)

lemma unat_ff: "unat (x AND 0xff :: u16) = unat (lo8 x)"
proof -
  have "unat (lo8 x) < 256" using unsigned_less [of "lo8 x", where 'a = nat] by simp
  then show ?thesis by (simp add: and_ff unsigned_ucast_eq take_bit_eq_mod)
qed

lemma ticket_is_locked:
  assumes "ticket_queue s q"
  shows "ticket_spin_is_locked (tk_slock s) \<longleftrightarrow> q \<noteq> []"
proof -
  have "ticket_spin_is_locked (tk_slock s) \<longleftrightarrow> hi8 (tk_slock s) XOR lo8 (tk_slock s) \<noteq> 0"
    by (simp add: ticket_spin_is_locked_def word_unat_eq_iff unat_ff lo8_ops)
  also have "\<dots> \<longleftrightarrow> hi8 (tk_slock s) \<noteq> lo8 (tk_slock s)" by (auto simp: bit_eq_iff bit_xor_iff)
  also have "\<dots> \<longleftrightarrow> q \<noteq> []" using free_queue_empty [OF assms] assms by (auto simp: ticket_queue_def)
  finally show ?thesis .
qed

lemma ticket_is_contended:
  assumes "ticket_queue s q"
  shows "ticket_spin_is_contended (tk_slock s) \<longleftrightarrow> 1 < length q"
proof -
  have "length q < 256" using ticket_queue_length(1) [OF assms] by (simp add: NR_CPUS_def)
  then have "unat (hi8 (tk_slock s) - lo8 (tk_slock s)) = length q"
    using assms by (simp add: ticket_queue_def unat_of_nat)
  then show ?thesis
    by (simp add: ticket_spin_is_contended_def word_less_nat_alt unat_ff lo8_ops lo8_minus)
qed

lemma held_first:
  assumes "ticket_queue s q" "e < NR_CPUS" "tk_cpu s e = Held"
  shows "hd q = e"
proof -
  have "e \<in> set q" using assms by (auto simp: ticket_queue_def queued_def)
  then obtain i where i: "i < length q" "q ! i = e" by (auto simp: in_set_conv_nth)
  then have "i = 0" using assms(1,3) by (auto simp: ticket_queue_def cpu_ticket_def)
  then show ?thesis using i by (cases q) auto
qed

text \<open>
  The ticket lock excludes: in no state that the CPUs reach by taking, trying and releasing the
  lock in any order do two of them hold it, although tickets are 8 bits wide and wrap around.
\<close>

lemma ticket_lock_exclusion:
  assumes "ticket_reach s" "c < NR_CPUS" "d < NR_CPUS" "tk_cpu s c = Held" "tk_cpu s d = Held"
  shows "c = d"
proof -
  obtain q where q: "ticket_queue s q" using ticket_reach_queue [OF assms(1)] by blast
  then show ?thesis using held_first [OF q] assms(2-5) by blast
qed

definition ticket_demo :: ticket where
  "ticket_demo = \<lparr>tk_slock = 0x0100, tk_cpu = (\<lambda>_. Out)(3 := Held)\<rparr>"

lemma ticket_demo_reach: "ticket_reach ticket_demo"
proof -
  let ?s1 = "ticket_upd ticket_init 3 (0, Try 0)"
  have "ticket_step ticket_init 3 ?s1"
    by (rule ticket_step.trylock) (simp_all add: NR_CPUS_def ticket_init_def ticket_spin_trylock_def lo8_def hi8_def)
  moreover have "ticket_step ?s1 3 (ticket_upd ?s1 3 (0x0100, Held))"
    by (rule ticket_step.trylock) (simp_all add: NR_CPUS_def ticket_init_def ticket_spin_trylock_def ticket_upd_def)
  moreover have "ticket_upd ?s1 3 (0x0100, Held) = ticket_demo"
    by (simp add: ticket_demo_def ticket_upd_def ticket_init_def)
  ultimately show ?thesis using ticket_reach.intros by metis
qed

text \<open>
  C22: The ticket lock is fair. Every reachable lock word encodes a queue of the CPUs that hold or
  await the lock, of which only the first can hold it. Each step of a CPU appends it to the end of
  the queue, leaves the queue as it is, or removes the first CPU: the lock is granted in the
  order of arrival. The word says whether the queue is empty and whether somebody waits.
\<close>

theorem ticket_lock_fifo:
  assumes "ticket_reach s"
  shows "\<exists>q. distinct q \<and> set q = {c. c < NR_CPUS \<and> queued (tk_cpu s c)}
    \<and> (\<forall>c < NR_CPUS. tk_cpu s c = Held \<longrightarrow> hd q = c)
    \<and> (ticket_spin_is_locked (tk_slock s) \<longleftrightarrow> q \<noteq> []) \<and> (ticket_spin_is_contended (tk_slock s) \<longleftrightarrow> 1 < length q)
    \<and> (\<forall>c s'. ticket_step s c s' \<longrightarrow>
         (\<exists>q'. queue_step q c q' \<and> ticket_queue s' q'))"
proof -
  obtain q where q: "ticket_queue s q" "try_saw_free s" using ticket_reach_queue [OF assms] by blast
  have "distinct q" "set q = {c. c < NR_CPUS \<and> queued (tk_cpu s c)}"
    using q(1) unfolding ticket_queue_def by blast+
  moreover have "\<exists>q'. queue_step q c q' \<and> ticket_queue s' q'" if "ticket_step s c s'" for c s'
    using ticket_step_queue [OF q that] by blast
  ultimately show ?thesis
    using ticket_is_locked [OF q(1)] ticket_is_contended [OF q(1)] held_first [OF q(1)]
    by (intro exI [of _ q]) simp
qed

theorem ticket_lock_fifo_witness:
  "\<exists>q. set q = {3 :: nat} \<and> hd q = 3 \<and> (ticket_spin_is_locked (tk_slock ticket_demo) \<longleftrightarrow> q \<noteq> [])"
proof -
  have s: "{c. c < NR_CPUS \<and> queued (tk_cpu ticket_demo c)} = {3}"
    by (auto simp: ticket_demo_def NR_CPUS_def queued_def split: if_splits)
  have h: "tk_cpu ticket_demo 3 = Held" "3 < NR_CPUS" by (simp_all add: ticket_demo_def NR_CPUS_def)
  from ticket_lock_fifo [OF ticket_demo_reach, unfolded s] obtain q where "set q = {3}"
    "\<forall>c < NR_CPUS. tk_cpu ticket_demo c = Held \<longrightarrow> hd q = c"
    "ticket_spin_is_locked (tk_slock ticket_demo) \<longleftrightarrow> q \<noteq> []" by (elim exE conjE)
  then show ?thesis using h by (intro exI [of _ q]) simp
qed

section \<open>The reader-writer lock\<close>

definition RW_LOCK_BIAS :: int where
  "RW_LOCK_BIAS = 0x01000000"

text \<open>
  Where a CPU is. A reader that failed to get the lock (\<open>RFail\<close>) has still to add 1 back, then it
  spins (\<open>RSpin\<close>) until it sees a positive word and subtracts again (\<open>RRetry\<close>); a writer likewise with the bias.
  \<open>RTry\<close> and \<open>WTry\<close> are the trylocks that failed and have still to undo their subtraction.
\<close>

datatype rwcpu = RwOut | RFail | RSpin | RRetry | RHeld | RTry | WFail | WSpin | WRetry | WHeld | WTry

text \<open>\<^verbatim>\<open>subl $1\<close> and the jump on the sign; the loop of \<^verbatim>\<open>__read_lock_failed\<close>.\<close>

definition raw_read_lock :: "u32 \<Rightarrow> rwcpu \<Rightarrow> (u32 \<times> rwcpu) option" where
  "raw_read_lock l c = (case c of
     RwOut \<Rightarrow> Some (l - 1, if 0 \<le> sint (l - 1) then RHeld else RFail)
   | RFail \<Rightarrow> Some (l + 1, RSpin)
   | RSpin \<Rightarrow> Some (l, if sint (l - 1) < 0 then RSpin else RRetry)
   | RRetry \<Rightarrow> Some (l - 1, if 0 \<le> sint (l - 1) then RHeld else RFail)
   | _ \<Rightarrow> None)"

definition raw_write_lock :: "u32 \<Rightarrow> rwcpu \<Rightarrow> (u32 \<times> rwcpu) option" where
  "raw_write_lock l c = (case c of
     RwOut \<Rightarrow> Some (l - word_of_int RW_LOCK_BIAS, if l - word_of_int RW_LOCK_BIAS = 0 then WHeld else WFail)
   | WFail \<Rightarrow> Some (l + word_of_int RW_LOCK_BIAS, WSpin)
   | WSpin \<Rightarrow> Some (l, if l \<noteq> word_of_int RW_LOCK_BIAS then WSpin else WRetry)
   | WRetry \<Rightarrow> Some (l - word_of_int RW_LOCK_BIAS, if l - word_of_int RW_LOCK_BIAS = 0 then WHeld else WFail)
   | _ \<Rightarrow> None)"

definition raw_read_trylock :: "u32 \<Rightarrow> rwcpu \<Rightarrow> (u32 \<times> rwcpu) option" where
  "raw_read_trylock l c = (case c of
     RwOut \<Rightarrow> Some (l - 1, if 0 \<le> sint (l - 1) then RHeld else RTry)
   | RTry \<Rightarrow> Some (l + 1, RwOut)
   | _ \<Rightarrow> None)"

definition raw_write_trylock :: "u32 \<Rightarrow> rwcpu \<Rightarrow> (u32 \<times> rwcpu) option" where
  "raw_write_trylock l c = (case c of
     RwOut \<Rightarrow> Some (l - word_of_int RW_LOCK_BIAS, if l - word_of_int RW_LOCK_BIAS = 0 then WHeld else WTry)
   | WTry \<Rightarrow> Some (l + word_of_int RW_LOCK_BIAS, RwOut)
   | _ \<Rightarrow> None)"

definition raw_read_unlock :: "u32 \<Rightarrow> rwcpu \<Rightarrow> (u32 \<times> rwcpu) option" where
  "raw_read_unlock l c = (case c of RHeld \<Rightarrow> Some (l + 1, RwOut) | _ \<Rightarrow> None)"

definition raw_write_unlock :: "u32 \<Rightarrow> rwcpu \<Rightarrow> (u32 \<times> rwcpu) option" where
  "raw_write_unlock l c = (case c of WHeld \<Rightarrow> Some (l + word_of_int RW_LOCK_BIAS, RwOut) | _ \<Rightarrow> None)"

definition raw_read_can_lock :: "u32 \<Rightarrow> bool" where
  "raw_read_can_lock l \<longleftrightarrow> 0 < sint l"

definition raw_write_can_lock :: "u32 \<Rightarrow> bool" where
  "raw_write_can_lock l \<longleftrightarrow> l = word_of_int RW_LOCK_BIAS"

record rwlock =
  rw_lock :: u32
  rw_cpu :: "nat \<Rightarrow> rwcpu"

definition rwlock_init :: rwlock where
  "rwlock_init = \<lparr>rw_lock = word_of_int RW_LOCK_BIAS, rw_cpu = (\<lambda>_. RwOut)\<rparr>"

definition rw_ops :: "(u32 \<Rightarrow> rwcpu \<Rightarrow> (u32 \<times> rwcpu) option) list" where
  "rw_ops = [raw_read_lock, raw_write_lock, raw_read_trylock, raw_write_trylock, raw_read_unlock, raw_write_unlock]"

lemmas rw_op_defs = raw_read_lock_def raw_write_lock_def raw_read_trylock_def raw_write_trylock_def
  raw_read_unlock_def raw_write_unlock_def

inductive rwlock_reach :: "rwlock \<Rightarrow> bool" where
  init: "rwlock_reach rwlock_init"
| step: "rwlock_reach s \<Longrightarrow> c < NR_CPUS \<Longrightarrow> f \<in> set rw_ops \<Longrightarrow> f (rw_lock s) (rw_cpu s c) = Some (l, x)
    \<Longrightarrow> rwlock_reach \<lparr>rw_lock = l, rw_cpu = (rw_cpu s)(c := x)\<rparr>"

subsection \<open>What the CPUs have subtracted\<close>

definition weight :: "rwcpu \<Rightarrow> int" where
  "weight c = (case c of RHeld \<Rightarrow> 1 | RFail \<Rightarrow> 1 | RTry \<Rightarrow> 1
     | WHeld \<Rightarrow> RW_LOCK_BIAS | WFail \<Rightarrow> RW_LOCK_BIAS | WTry \<Rightarrow> RW_LOCK_BIAS | _ \<Rightarrow> 0)"

definition owed :: "(nat \<Rightarrow> rwcpu) \<Rightarrow> int" where
  "owed f = (\<Sum>c < NR_CPUS. weight (f c))"

lemma weight_bounds: "0 \<le> weight c" "weight c \<le> RW_LOCK_BIAS"
  by (cases c; simp add: weight_def RW_LOCK_BIAS_def)+

lemma owed_upd: "c < NR_CPUS \<Longrightarrow> owed (f(c := x)) = owed f - weight (f c) + weight x"
  unfolding owed_def by (simp add: sum.remove [of "{..<NR_CPUS}" c])

lemma owed_others: "c < NR_CPUS \<Longrightarrow> d < NR_CPUS \<Longrightarrow> c \<noteq> d \<Longrightarrow> weight (f c) + weight (f d) \<le> owed f"
proof -
  assume c: "c < NR_CPUS" "d < NR_CPUS" "c \<noteq> d"
  have "(\<Sum>e \<in> {c, d}. weight (f e)) \<le> owed f"
    unfolding owed_def by (rule sum_mono2) (use c weight_bounds in auto)
  then show ?thesis using c(3) by simp
qed

lemma owed_bounds: "0 \<le> owed f" "owed f \<le> 8 * RW_LOCK_BIAS"
proof -
  show "0 \<le> owed f" unfolding owed_def by (rule sum_nonneg) (simp add: weight_bounds)
  have "owed f \<le> of_nat (card {..<NR_CPUS}) * RW_LOCK_BIAS"
    unfolding owed_def by (rule sum_bounded_above) (simp add: weight_bounds)
  then show "owed f \<le> 8 * RW_LOCK_BIAS" by (simp add: NR_CPUS_def)
qed

text \<open>The word is the bias less what is owed, and a writer that holds the lock is alone.\<close>

definition holds :: "rwcpu \<Rightarrow> bool" where
  "holds c \<longleftrightarrow> c = RHeld \<or> c = WHeld"

definition rw_inv :: "rwlock \<Rightarrow> bool" where
  "rw_inv s \<longleftrightarrow> rw_lock s = word_of_int (RW_LOCK_BIAS - owed (rw_cpu s))
     \<and> (\<forall>c < NR_CPUS. \<forall>d < NR_CPUS. rw_cpu s c = WHeld \<longrightarrow> holds (rw_cpu s d) \<longrightarrow> c = d)"

lemma sint_u32: "- 2147483648 \<le> k \<Longrightarrow> k < 2147483648 \<Longrightarrow> sint (word_of_int k :: u32) = k"
  by (simp add: int_word_sint)

lemma sint_owed: "sint (word_of_int (RW_LOCK_BIAS - owed f) :: u32) = RW_LOCK_BIAS - owed f"
  using owed_bounds [of f] by (intro sint_u32) (simp_all add: RW_LOCK_BIAS_def)

text \<open>Every instruction changes the word by what it changes of the debt of its CPU; it takes the lock
  for reading only if the result is not negative, and for writing only if it is zero.\<close>

lemma rw_op_weight:
  assumes "f \<in> set rw_ops" "f l c = Some (l', x)"
  shows "l' = l + word_of_int (weight c - weight x) \<and> (x = RHeld \<longrightarrow> 0 \<le> sint l') \<and> (x = WHeld \<longrightarrow> l' = 0)"
proof -
  consider "f = raw_read_lock" | "f = raw_write_lock" | "f = raw_read_trylock" | "f = raw_write_trylock"
    | "f = raw_read_unlock" | "f = raw_write_unlock"
    using assms(1) by (auto simp: rw_ops_def)
  then show ?thesis
    by cases (use assms(2) in \<open>cases c; simp add: rw_op_defs weight_def split: if_splits; force\<close>)+
qed

lemma rw_inv_step:
  assumes inv: "rw_inv s" and c: "c < NR_CPUS" and f: "f \<in> set rw_ops" "f (rw_lock s) (rw_cpu s c) = Some (l, x)"
  shows "rw_inv \<lparr>rw_lock = l, rw_cpu = (rw_cpu s)(c := x)\<rparr>"
proof -
  let ?f = "(rw_cpu s)(c := x)"
  note w = rw_op_weight [OF f]
  have l: "l = word_of_int (RW_LOCK_BIAS - owed ?f)"
  proof -
    have "l = word_of_int (RW_LOCK_BIAS - owed (rw_cpu s)) + word_of_int (weight (rw_cpu s c) - weight x)"
      using w inv by (simp add: rw_inv_def)
    also have "\<dots> = word_of_int (RW_LOCK_BIAS - owed ?f)"
      unfolding owed_upd [OF c] by simp
    finally show ?thesis .
  qed
  have sl: "sint l = RW_LOCK_BIAS - owed ?f" unfolding l by (rule sint_owed)
  have ex: False if "d < NR_CPUS" "d \<noteq> c" "holds x" "holds (rw_cpu s d)" "x = WHeld \<or> rw_cpu s d = WHeld" for d
  proof -
    have o: "weight x + weight (rw_cpu s d) \<le> owed ?f"
      using owed_others [OF c that(1), of ?f] that(2) by simp
    have "0 \<le> RW_LOCK_BIAS - owed ?f" using w sl that(3) by (auto simp: holds_def)
    then show False using o that(3-5) by (auto simp: holds_def weight_def RW_LOCK_BIAS_def)
  qed
  have "d = e" if "d < NR_CPUS" "e < NR_CPUS" "?f d = WHeld" "holds (?f e)" for d e
  proof (cases "d = c \<or> e = c")
    case True
    then show ?thesis using ex that by (auto simp: holds_def split: if_splits)
  next
    case False
    then show ?thesis using inv that by (auto simp: rw_inv_def)
  qed
  then show ?thesis using l by (simp add: rw_inv_def)
qed

lemma rwlock_reach_inv: "rwlock_reach s \<Longrightarrow> rw_inv s"
proof (induction rule: rwlock_reach.induct)
  case init
  show ?case by (simp add: rw_inv_def rwlock_init_def owed_def weight_def)
next
  case (step s c f l x)
  then show ?case by (blast intro: rw_inv_step)
qed

text \<open>
  C23: The reader-writer lock excludes: while a CPU holds it for writing, no other CPU holds it, for
  writing or for reading, in every state that the CPUs reach with the six operations; the readers and
  writers that fail and give back what they subtracted do not disturb it.
\<close>

theorem rwlock_exclusion:
  assumes "rwlock_reach s" "c < NR_CPUS" "d < NR_CPUS" "rw_cpu s c = WHeld" "rw_cpu s d \<in> {RHeld, WHeld}"
  shows "c = d"
  using rwlock_reach_inv [OF assms(1)] assms(2-5) by (auto simp: rw_inv_def holds_def)

definition rwlock_demo :: rwlock where
  "rwlock_demo = \<lparr>rw_lock = 0, rw_cpu = (\<lambda>_. RwOut)(2 := WHeld)\<rparr>"

lemma rwlock_demo_reach: "rwlock_reach rwlock_demo"
proof -
  have "raw_write_lock (rw_lock rwlock_init) (rw_cpu rwlock_init 2) = Some (0, WHeld)"
    by (simp add: raw_write_lock_def rwlock_init_def)
  then have "rwlock_reach \<lparr>rw_lock = 0, rw_cpu = (rw_cpu rwlock_init)(2 := WHeld)\<rparr>"
    by (intro rwlock_reach.step [where f = raw_write_lock, OF rwlock_reach.init])
      (simp_all add: NR_CPUS_def rw_ops_def)
  then show ?thesis by (simp add: rwlock_demo_def rwlock_init_def)
qed

theorem rwlock_exclusion_witness:
  "rw_cpu rwlock_demo 2 = WHeld \<and> rw_cpu rwlock_demo 4 \<notin> {RHeld, WHeld}"
  using rwlock_exclusion [OF rwlock_demo_reach, of 2 4] by (auto simp: NR_CPUS_def rwlock_demo_def)

text \<open>
  The word of the reader-writer lock is exact when nobody is in the middle of taking it: then
  a write lock is possible if and only if no CPU holds the lock, and a read lock if and only
  if no CPU holds it for writing, and the trylocks succeed exactly then.
\<close>

lemma rwlock_can_lock:
  assumes "rwlock_reach s" "\<forall>c < NR_CPUS. rw_cpu s c \<in> {RwOut, RHeld, WHeld}"
  shows "(raw_write_can_lock (rw_lock s) \<longleftrightarrow> (\<forall>c < NR_CPUS. rw_cpu s c = RwOut))
    \<and> (raw_read_can_lock (rw_lock s) \<longleftrightarrow> (\<forall>c < NR_CPUS. rw_cpu s c \<noteq> WHeld))
    \<and> ((\<exists>l. raw_write_trylock (rw_lock s) RwOut = Some (l, WHeld)) \<longleftrightarrow> raw_write_can_lock (rw_lock s))
    \<and> ((\<exists>l. raw_read_trylock (rw_lock s) RwOut = Some (l, RHeld)) \<longleftrightarrow> raw_read_can_lock (rw_lock s))"
proof -
  have l: "rw_lock s = word_of_int (RW_LOCK_BIAS - owed (rw_cpu s))"
    using rwlock_reach_inv [OF assms(1)] by (simp add: rw_inv_def)
  then have sl: "sint (rw_lock s) = RW_LOCK_BIAS - owed (rw_cpu s)" by (simp only: sint_owed)
  have w0: "weight (rw_cpu s c) = 0 \<longleftrightarrow> rw_cpu s c = RwOut" if "c < NR_CPUS" for c
    using assms(2) that by (auto simp: weight_def RW_LOCK_BIAS_def)
  have "owed (rw_cpu s) = 0 \<longleftrightarrow> (\<forall>c < NR_CPUS. weight (rw_cpu s c) = 0)"
    unfolding owed_def by (subst sum_nonneg_eq_0_iff) (auto simp: weight_bounds)
  then have o0: "owed (rw_cpu s) = 0 \<longleftrightarrow> (\<forall>c < NR_CPUS. rw_cpu s c = RwOut)" using w0 by auto
  have wr: "raw_write_can_lock (rw_lock s) \<longleftrightarrow> owed (rw_cpu s) = 0"
  proof -
    have "sint (word_of_int RW_LOCK_BIAS :: u32) = RW_LOCK_BIAS" by (rule sint_u32) (simp_all add: RW_LOCK_BIAS_def)
    then show ?thesis using sl by (auto simp: raw_write_can_lock_def l)
  qed
  have rd: "raw_read_can_lock (rw_lock s) \<longleftrightarrow> (\<forall>c < NR_CPUS. rw_cpu s c \<noteq> WHeld)"
  proof
    assume r: "raw_read_can_lock (rw_lock s)"
    show "\<forall>c < NR_CPUS. rw_cpu s c \<noteq> WHeld"
    proof (intro allI impI notI)
      fix c assume c: "c < NR_CPUS" "rw_cpu s c = WHeld"
      have "(\<Sum>e \<in> {c}. weight (rw_cpu s e)) \<le> owed (rw_cpu s)"
        unfolding owed_def by (rule sum_mono2) (use c weight_bounds in auto)
      then show False using r c(2) by (simp add: raw_read_can_lock_def sl weight_def)
    qed
  next
    assume w: "\<forall>c < NR_CPUS. rw_cpu s c \<noteq> WHeld"
    then have "weight (rw_cpu s c) \<le> 1" if "c < NR_CPUS" for c using assms(2) that by (auto simp: weight_def)
    then have "owed (rw_cpu s) \<le> of_nat (card {..<NR_CPUS}) * 1"
      unfolding owed_def by (intro sum_bounded_above) auto
    then show "raw_read_can_lock (rw_lock s)" by (simp add: raw_read_can_lock_def sl NR_CPUS_def RW_LOCK_BIAS_def)
  qed
  have "0 \<le> sint (rw_lock s - 1) \<longleftrightarrow> 0 < sint (rw_lock s)"
  proof -
    have "rw_lock s - 1 = word_of_int (RW_LOCK_BIAS - owed (rw_cpu s) - 1)" by (simp add: l)
    moreover have "sint (word_of_int (RW_LOCK_BIAS - owed (rw_cpu s) - 1) :: u32) = RW_LOCK_BIAS - owed (rw_cpu s) - 1"
      using owed_bounds [of "rw_cpu s"] by (intro sint_u32) (simp_all add: RW_LOCK_BIAS_def)
    ultimately have "sint (rw_lock s - 1) = RW_LOCK_BIAS - owed (rw_cpu s) - 1" by (simp only:)
    then show ?thesis unfolding sl by linarith
  qed
  then show ?thesis
    using wr rd o0 by (auto simp: raw_write_trylock_def raw_read_trylock_def raw_write_can_lock_def raw_read_can_lock_def)
qed

end
