(* ===== verification/Ctype.thy ===== *)
theory Ctype
  imports Prelude
begin

unbundle bit_operations_syntax

text \<open>
  The character classes of lib/ctype.c and include/linux/ctype.h: the table \<^verbatim>\<open>_ctype\<close> with one mask of
  class bits per byte, the tests on it and the conversions of case. The second half of the table
  is Latin-1.
\<close>

definition cU :: u8 where "cU = 0x01"
definition cL :: u8 where "cL = 0x02"
definition cD :: u8 where "cD = 0x04"
definition cC :: u8 where "cC = 0x08"
definition cP :: u8 where "cP = 0x10"
definition cS :: u8 where "cS = 0x20"
definition cX :: u8 where "cX = 0x40"
definition cSP :: u8 where "cSP = 0x80"

lemmas class_defs = cU_def cL_def cD_def cC_def cP_def cS_def cX_def cSP_def

definition ctype_table :: "u8 list" where
  "ctype_table = concat [
     [cC, cC, cC, cC, cC, cC, cC, cC],
     [cC, cC OR cS, cC OR cS, cC OR cS, cC OR cS, cC OR cS, cC, cC],
     [cC, cC, cC, cC, cC, cC, cC, cC],
     [cC, cC, cC, cC, cC, cC, cC, cC],
     [cS OR cSP, cP, cP, cP, cP, cP, cP, cP],
     [cP, cP, cP, cP, cP, cP, cP, cP],
     [cD, cD, cD, cD, cD, cD, cD, cD],
     [cD, cD, cP, cP, cP, cP, cP, cP],
     [cP, cU OR cX, cU OR cX, cU OR cX, cU OR cX, cU OR cX, cU OR cX, cU],
     [cU, cU, cU, cU, cU, cU, cU, cU],
     [cU, cU, cU, cU, cU, cU, cU, cU],
     [cU, cU, cU, cP, cP, cP, cP, cP],
     [cP, cL OR cX, cL OR cX, cL OR cX, cL OR cX, cL OR cX, cL OR cX, cL],
     [cL, cL, cL, cL, cL, cL, cL, cL],
     [cL, cL, cL, cL, cL, cL, cL, cL],
     [cL, cL, cL, cP, cP, cP, cP, cC],
     [0, 0, 0, 0, 0, 0, 0, 0, 0, 0, 0, 0, 0, 0, 0, 0],
     [0, 0, 0, 0, 0, 0, 0, 0, 0, 0, 0, 0, 0, 0, 0, 0],
     [cS OR cSP, cP, cP, cP, cP, cP, cP, cP, cP, cP, cP, cP, cP, cP, cP, cP],
     [cP, cP, cP, cP, cP, cP, cP, cP, cP, cP, cP, cP, cP, cP, cP, cP],
     [cU, cU, cU, cU, cU, cU, cU, cU, cU, cU, cU, cU, cU, cU, cU, cU],
     [cU, cU, cU, cU, cU, cU, cU, cP, cU, cU, cU, cU, cU, cU, cU, cL],
     [cL, cL, cL, cL, cL, cL, cL, cL, cL, cL, cL, cL, cL, cL, cL, cL],
     [cL, cL, cL, cL, cL, cL, cL, cP, cL, cL, cL, cL, cL, cL, cL, cL]]"

definition ismask :: "u8 \<Rightarrow> u8" where
  "ismask x = ctype_table ! unat x"

definition isalnum :: "u8 \<Rightarrow> bool" where "isalnum c \<longleftrightarrow> ismask c AND (cU OR cL OR cD) \<noteq> 0"
definition isalpha :: "u8 \<Rightarrow> bool" where "isalpha c \<longleftrightarrow> ismask c AND (cU OR cL) \<noteq> 0"
definition iscntrl :: "u8 \<Rightarrow> bool" where "iscntrl c \<longleftrightarrow> ismask c AND cC \<noteq> 0"
definition isdigit :: "u8 \<Rightarrow> bool" where "isdigit c \<longleftrightarrow> ismask c AND cD \<noteq> 0"
definition isgraph :: "u8 \<Rightarrow> bool" where "isgraph c \<longleftrightarrow> ismask c AND (cP OR cU OR cL OR cD) \<noteq> 0"
definition islower :: "u8 \<Rightarrow> bool" where "islower c \<longleftrightarrow> ismask c AND cL \<noteq> 0"
definition isprint :: "u8 \<Rightarrow> bool" where "isprint c \<longleftrightarrow> ismask c AND (cP OR cU OR cL OR cD OR cSP) \<noteq> 0"
definition ispunct :: "u8 \<Rightarrow> bool" where "ispunct c \<longleftrightarrow> ismask c AND cP \<noteq> 0"
definition isspace :: "u8 \<Rightarrow> bool" where "isspace c \<longleftrightarrow> ismask c AND cS \<noteq> 0"
definition isupper :: "u8 \<Rightarrow> bool" where "isupper c \<longleftrightarrow> ismask c AND cU \<noteq> 0"
definition isxdigit :: "u8 \<Rightarrow> bool" where "isxdigit c \<longleftrightarrow> ismask c AND (cD OR cX) \<noteq> 0"

definition tolower :: "u8 \<Rightarrow> u8" where
  "tolower c = (if isupper c then c - (65 - 97) else c)"

definition toupper :: "u8 \<Rightarrow> u8" where
  "toupper c = (if islower c then c - (97 - 65) else c)"

section \<open>The table by ranges\<close>

definition class_of :: "nat \<Rightarrow> u8" where
  "class_of n =
     (if n \<le> 8 then cC else if n \<le> 13 then cC OR cS else if n \<le> 31 then cC
      else if n = 32 then cS OR cSP else if n \<le> 47 then cP else if n \<le> 57 then cD
      else if n \<le> 64 then cP else if n \<le> 70 then cU OR cX else if n \<le> 90 then cU
      else if n \<le> 96 then cP else if n \<le> 102 then cL OR cX else if n \<le> 122 then cL
      else if n \<le> 126 then cP else if n = 127 then cC else if n \<le> 159 then 0
      else if n = 160 then cS OR cSP else if n \<le> 191 then cP
      else if n = 215 \<or> n = 247 then cP else if n \<le> 222 then cU else cL)"

lemma ctype_table_ranges: "ctype_table = map class_of [0..<256]"
  by code_simp

lemma ismask_range: "ismask c = class_of (unat c)"
proof -
  have "unat c < 256" using unsigned_less [of c, where 'a = nat] by simp
  then show ?thesis by (simp add: ismask_def ctype_table_ranges)
qed

lemma isupper_range: "isupper c \<longleftrightarrow> (65 \<le> unat c \<and> unat c \<le> 90) \<or> (192 \<le> unat c \<and> unat c \<le> 222 \<and> unat c \<noteq> 215)"
  by (auto simp: isupper_def ismask_range class_of_def class_defs)

lemma islower_range: "islower c \<longleftrightarrow> (97 \<le> unat c \<and> unat c \<le> 122) \<or> (223 \<le> unat c \<and> unat c \<noteq> 247)"
  by (auto simp: islower_def ismask_range class_of_def class_defs)

lemma isspace_range: "isspace c \<longleftrightarrow> (9 \<le> unat c \<and> unat c \<le> 13) \<or> unat c = 32 \<or> unat c = 160"
  by (auto simp: isspace_def ismask_range class_of_def class_defs)

section \<open>Case conversion\<close>

lemma unat_u8: "unat (c :: u8) < 256"
  using unsigned_less [of c, where 'a = nat] by simp

lemma unat_tolower: "unat (tolower c) = (if isupper c then unat c + 32 else unat c)"
proof -
  have "isupper c \<Longrightarrow> unat c + 32 < 256" by (auto simp: isupper_range)
  then show ?thesis by (simp add: tolower_def unat_word_ariths)
qed

lemma tolower_eq_0 [simp]: "tolower c = 0 \<longleftrightarrow> c = 0" "tolower 0 = 0"
proof -
  show "tolower c = 0 \<longleftrightarrow> c = 0"
    using unat_tolower [of c] by (auto simp: word_unat_eq_iff isupper_range split: if_splits)
  then show "tolower 0 = 0" using unat_tolower [of 0] by (simp add: word_unat_eq_iff isupper_range)
qed

lemma unat_toupper: "unat (toupper c) = (if islower c then unat c - 32 else unat c)"
proof -
  have "islower c \<Longrightarrow> 32 \<le> c" by (auto simp: islower_range word_le_nat_alt)
  then show ?thesis by (simp add: toupper_def unat_sub)
qed



end
