(* ===== verification/String_Lib.thy ===== *)
theory String_Lib
  imports Ctype
begin

unbundle bit_operations_syntax

text \<open>
  The string and memory functions of lib/string.c. Memory is a partial map from addresses to bytes;
  \<^term>\<open>None\<close> is an access to an address that is not mapped, or a loop that does not end. A pointer is
  an address, a null result is \<^term>\<open>None\<close> inside the result. Addresses do not wrap, and \<^verbatim>\<open>size_t\<close> is a
  natural number except where the code subtracts 1 from 0. An argument \<^verbatim>\<open>int c\<close> is converted to a byte
  where the code casts it.
\<close>

section \<open>Memory\<close>

type_synonym mem = "nat \<rightharpoonup> u8"

definition st :: "mem \<Rightarrow> nat \<Rightarrow> u8 \<Rightarrow> mem option" where
  "st m p v = (if m p = None then None else Some (m(p \<mapsto> v)))"

definition char_of :: "int \<Rightarrow> u8" where
  "char_of c = word_of_int c"

section \<open>Comparison\<close>

text \<open>The loop of \<^verbatim>\<open>strnicmp\<close>, with the length that is left (not 0).\<close>

fun strnicmp_loop :: "mem \<Rightarrow> nat \<Rightarrow> nat \<Rightarrow> nat \<Rightarrow> int option" where
  "strnicmp_loop m s1 s2 0 = None"
| "strnicmp_loop m s1 s2 (Suc len) = do {
     c1 \<leftarrow> m s1;
     c2 \<leftarrow> m s2;
     if c1 = 0 \<or> c2 = 0 then Some (uint c1 - uint c2)
     else if c1 = c2 then
       (if len = 0 then Some (uint c1 - uint c2) else strnicmp_loop m (s1 + 1) (s2 + 1) len)
     else
       let d1 = tolower c1; d2 = tolower c2
       in if d1 \<noteq> d2 \<or> len = 0 then Some (uint d1 - uint d2)
          else strnicmp_loop m (s1 + 1) (s2 + 1) len }"

definition strnicmp :: "mem \<Rightarrow> nat \<Rightarrow> nat \<Rightarrow> nat \<Rightarrow> int option" where
  "strnicmp m s1 s2 len = (if len = 0 then Some 0 else strnicmp_loop m s1 s2 len)"

partial_function (option) strcasecmp :: "mem \<Rightarrow> nat \<Rightarrow> nat \<Rightarrow> int option" where
  "strcasecmp m s1 s2 =
     Option.bind (m s1) (\<lambda>b1. Option.bind (m s2) (\<lambda>b2.
       let c1 = tolower b1; c2 = tolower b2
       in if c1 = c2 \<and> c1 \<noteq> 0 then strcasecmp m (s1 + 1) (s2 + 1)
          else Some (uint c1 - uint c2)))"

text \<open>The decrement \<^verbatim>\<open>--n\<close> of a \<^verbatim>\<open>size_t\<close> wraps.\<close>

partial_function (option) strncasecmp :: "mem \<Rightarrow> nat \<Rightarrow> nat \<Rightarrow> u64 \<Rightarrow> int option" where
  "strncasecmp m s1 s2 n =
     Option.bind (m s1) (\<lambda>b1. Option.bind (m s2) (\<lambda>b2.
       let c1 = tolower b1; c2 = tolower b2
       in if 0 < n - 1 \<and> c1 = c2 \<and> c1 \<noteq> 0 then strncasecmp m (s1 + 1) (s2 + 1) (n - 1)
          else Some (uint c1 - uint c2)))"

partial_function (option) strcmp :: "mem \<Rightarrow> nat \<Rightarrow> nat \<Rightarrow> int option" where
  "strcmp m cs ct =
     Option.bind (m cs) (\<lambda>c1. Option.bind (m ct) (\<lambda>c2.
       if c1 \<noteq> c2 then Some (if c1 < c2 then - 1 else 1)
       else if c1 = 0 then Some 0
       else strcmp m (cs + 1) (ct + 1)))"

fun strncmp :: "mem \<Rightarrow> nat \<Rightarrow> nat \<Rightarrow> nat \<Rightarrow> int option" where
  "strncmp m cs ct 0 = Some 0"
| "strncmp m cs ct (Suc cnt) = do {
     c1 \<leftarrow> m cs;
     c2 \<leftarrow> m ct;
     if c1 \<noteq> c2 then Some (if c1 < c2 then - 1 else 1)
     else if c1 = 0 then Some 0
     else strncmp m (cs + 1) (ct + 1) cnt }"

fun memcmp :: "mem \<Rightarrow> nat \<Rightarrow> nat \<Rightarrow> nat \<Rightarrow> int option" where
  "memcmp m cs ct 0 = Some 0"
| "memcmp m cs ct (Suc cnt) = do {
     c1 \<leftarrow> m cs;
     c2 \<leftarrow> m ct;
     if uint c1 - uint c2 \<noteq> 0 then Some (uint c1 - uint c2)
     else memcmp m (cs + 1) (ct + 1) cnt }"

text \<open>\<^verbatim>\<open>sysfs_streq\<close>: the common prefix, then the three ways to end.\<close>

partial_function (option) streq_prefix :: "mem \<Rightarrow> nat \<Rightarrow> nat \<Rightarrow> (nat \<times> nat) option" where
  "streq_prefix m s1 s2 =
     Option.bind (m s1) (\<lambda>c1.
       if c1 = 0 then Some (s1, s2)
       else Option.bind (m s2) (\<lambda>c2. if c1 = c2 then streq_prefix m (s1 + 1) (s2 + 1) else Some (s1, s2)))"

definition sysfs_streq :: "mem \<Rightarrow> nat \<Rightarrow> nat \<Rightarrow> bool option" where
  "sysfs_streq m s1 s2 = do {
     (p1, p2) \<leftarrow> streq_prefix m s1 s2;
     c1 \<leftarrow> m p1;
     c2 \<leftarrow> m p2;
     if c1 = c2 then Some True
     else do {
       nl2 \<leftarrow> (if c1 = 0 \<and> c2 = 10 then do { d \<leftarrow> m (p2 + 1); Some (d = 0) } else Some False);
       if nl2 then Some True
       else if c1 = 10 then do { d \<leftarrow> m (p1 + 1); Some (d = 0 \<and> c2 = 0) }
       else Some False } }"

section \<open>Length and search\<close>

partial_function (option) strlen_from :: "mem \<Rightarrow> nat \<Rightarrow> nat \<Rightarrow> nat option" where
  "strlen_from m s sc =
     Option.bind (m sc) (\<lambda>c. if c \<noteq> 0 then strlen_from m s (sc + 1) else Some (sc - s))"

definition strlen :: "mem \<Rightarrow> nat \<Rightarrow> nat option" where
  "strlen m s = strlen_from m s s"

fun strnlen_from :: "mem \<Rightarrow> nat \<Rightarrow> nat \<Rightarrow> nat \<Rightarrow> nat option" where
  "strnlen_from m s sc 0 = Some (sc - s)"
| "strnlen_from m s sc (Suc cnt) = do {
     c \<leftarrow> m sc;
     if c \<noteq> 0 then strnlen_from m s (sc + 1) cnt else Some (sc - s) }"

definition strnlen :: "mem \<Rightarrow> nat \<Rightarrow> nat \<Rightarrow> nat option" where
  "strnlen m s cnt = strnlen_from m s s cnt"

partial_function (option) strchr :: "mem \<Rightarrow> nat \<Rightarrow> int \<Rightarrow> nat option option" where
  "strchr m s c =
     Option.bind (m s) (\<lambda>b.
       if b = char_of c then Some (Some s)
       else if b = 0 then Some None
       else strchr m (s + 1) c)"

text \<open>The loop of \<^verbatim>\<open>strrchr\<close> goes down from the terminator, \<open>n\<close> bytes from the start.\<close>

fun strrchr_down :: "mem \<Rightarrow> nat \<Rightarrow> int \<Rightarrow> nat \<Rightarrow> nat option option" where
  "strrchr_down m s c n = do {
     b \<leftarrow> m (s + n);
     if b = char_of c then Some (Some (s + n))
     else if n = 0 then Some None
     else strrchr_down m s c (n - 1) }"

definition strrchr :: "mem \<Rightarrow> nat \<Rightarrow> int \<Rightarrow> nat option option" where
  "strrchr m s c = do { n \<leftarrow> strlen m s; strrchr_down m s c n }"

fun strnchr :: "mem \<Rightarrow> nat \<Rightarrow> nat \<Rightarrow> int \<Rightarrow> nat option option" where
  "strnchr m s 0 c = Some None"
| "strnchr m s (Suc cnt) c = do {
     b \<leftarrow> m s;
     if b = 0 then Some None
     else if b = char_of c then Some (Some s)
     else strnchr m (s + 1) cnt c }"

text \<open>The inner loops of \<^verbatim>\<open>strspn\<close>, \<^verbatim>\<open>strcspn\<close> and \<^verbatim>\<open>strpbrk\<close>: does the string at \<open>a\<close> hold the byte \<open>c\<close>?\<close>

partial_function (option) in_set_at :: "mem \<Rightarrow> nat \<Rightarrow> u8 \<Rightarrow> bool option" where
  "in_set_at m a c =
     Option.bind (m a) (\<lambda>b. if b = 0 then Some False else if c = b then Some True else in_set_at m (a + 1) c)"

partial_function (option) strspn_from :: "mem \<Rightarrow> nat \<Rightarrow> nat \<Rightarrow> nat \<Rightarrow> nat option" where
  "strspn_from m p accept cnt =
     Option.bind (m p) (\<lambda>c. if c = 0 then Some cnt
       else Option.bind (in_set_at m accept c) (\<lambda>b.
         if b then strspn_from m (p + 1) accept (cnt + 1) else Some cnt))"

definition strspn :: "mem \<Rightarrow> nat \<Rightarrow> nat \<Rightarrow> nat option" where
  "strspn m s accept = strspn_from m s accept 0"

partial_function (option) strcspn_from :: "mem \<Rightarrow> nat \<Rightarrow> nat \<Rightarrow> nat \<Rightarrow> nat option" where
  "strcspn_from m p reject cnt =
     Option.bind (m p) (\<lambda>c. if c = 0 then Some cnt
       else Option.bind (in_set_at m reject c) (\<lambda>b.
         if b then Some cnt else strcspn_from m (p + 1) reject (cnt + 1)))"

definition strcspn :: "mem \<Rightarrow> nat \<Rightarrow> nat \<Rightarrow> nat option" where
  "strcspn m s reject = strcspn_from m s reject 0"

partial_function (option) strpbrk :: "mem \<Rightarrow> nat \<Rightarrow> nat \<Rightarrow> nat option option" where
  "strpbrk m cs ct =
     Option.bind (m cs) (\<lambda>c. if c = 0 then Some None
       else Option.bind (in_set_at m ct c) (\<lambda>b.
         if b then Some (Some cs) else strpbrk m (cs + 1) ct))"

fun memscan :: "mem \<Rightarrow> nat \<Rightarrow> int \<Rightarrow> nat \<Rightarrow> nat option" where
  "memscan m p c 0 = Some p"
| "memscan m p c (Suc sz) = do {
     b \<leftarrow> m p;
     if uint b = c then Some p else memscan m (p + 1) c sz }"

fun memchr :: "mem \<Rightarrow> nat \<Rightarrow> int \<Rightarrow> nat \<Rightarrow> nat option option" where
  "memchr m p c 0 = Some None"
| "memchr m p c (Suc n) = do {
     b \<leftarrow> m p;
     if char_of c = b then Some (Some p) else memchr m (p + 1) c n }"

text \<open>The loop of \<^verbatim>\<open>strstr\<close>, with \<open>l1\<close> bytes left.\<close>

fun strstr_loop :: "mem \<Rightarrow> nat \<Rightarrow> nat \<Rightarrow> nat \<Rightarrow> nat \<Rightarrow> nat option option" where
  "strstr_loop m s1 s2 l1 l2 =
     (if l2 \<le> l1 \<and> l1 \<noteq> 0 then do {
        d \<leftarrow> memcmp m s1 s2 l2;
        if d = 0 then Some (Some s1) else strstr_loop m (s1 + 1) s2 (l1 - 1) l2 }
      else Some None)"

definition strstr :: "mem \<Rightarrow> nat \<Rightarrow> nat \<Rightarrow> nat option option" where
  "strstr m s1 s2 = do {
     l2 \<leftarrow> strlen m s2;
     if l2 = 0 then Some (Some s1)
     else do { l1 \<leftarrow> strlen m s1; strstr_loop m s1 s2 l1 l2 } }"

section \<open>Copying\<close>

fun memset :: "mem \<Rightarrow> nat \<Rightarrow> int \<Rightarrow> nat \<Rightarrow> mem option" where
  "memset m xs c 0 = Some m"
| "memset m xs c (Suc cnt) = do { m1 \<leftarrow> st m xs (char_of c); memset m1 (xs + 1) c cnt }"

fun memcpy :: "mem \<Rightarrow> nat \<Rightarrow> nat \<Rightarrow> nat \<Rightarrow> mem option" where
  "memcpy m tmp s 0 = Some m"
| "memcpy m tmp s (Suc cnt) = do { b \<leftarrow> m s; m1 \<leftarrow> st m tmp b; memcpy m1 (tmp + 1) (s + 1) cnt }"

fun memcpy_down :: "mem \<Rightarrow> nat \<Rightarrow> nat \<Rightarrow> nat \<Rightarrow> mem option" where
  "memcpy_down m dest src 0 = Some m"
| "memcpy_down m dest src (Suc cnt) = do {
     b \<leftarrow> m (src + cnt);
     m1 \<leftarrow> st m (dest + cnt) b;
     memcpy_down m1 dest src cnt }"

definition memmove :: "mem \<Rightarrow> nat \<Rightarrow> nat \<Rightarrow> nat \<Rightarrow> mem option" where
  "memmove m dest src cnt =
     (if dest \<le> src then memcpy m dest src cnt else memcpy_down m dest src cnt)"

partial_function (option) strcpy :: "mem \<Rightarrow> nat \<Rightarrow> nat \<Rightarrow> mem option" where
  "strcpy m dest src =
     Option.bind (m src) (\<lambda>c. Option.bind (st m dest c) (\<lambda>m1.
       if c \<noteq> 0 then strcpy m1 (dest + 1) (src + 1) else Some m1))"

fun strncpy :: "mem \<Rightarrow> nat \<Rightarrow> nat \<Rightarrow> nat \<Rightarrow> mem option" where
  "strncpy m tmp src 0 = Some m"
| "strncpy m tmp src (Suc cnt) = do {
     c \<leftarrow> m src;
     m1 \<leftarrow> st m tmp c;
     strncpy m1 (tmp + 1) (if c \<noteq> 0 then src + 1 else src) cnt }"

definition strlcpy :: "mem \<Rightarrow> nat \<Rightarrow> nat \<Rightarrow> nat \<Rightarrow> (mem \<times> nat) option" where
  "strlcpy m dest src sz = do {
     ret \<leftarrow> strlen m src;
     if sz \<noteq> 0 then
       let len = (if ret \<ge> sz then sz - 1 else ret)
       in do { m1 \<leftarrow> memcpy m dest src len; m2 \<leftarrow> st m1 (dest + len) 0; Some (m2, ret) }
     else Some (m, ret) }"

definition strcat :: "mem \<Rightarrow> nat \<Rightarrow> nat \<Rightarrow> mem option" where
  "strcat m dest src = do { n \<leftarrow> strlen m dest; strcpy m (dest + n) src }"

partial_function (option) strncat_loop :: "mem \<Rightarrow> nat \<Rightarrow> nat \<Rightarrow> nat \<Rightarrow> mem option" where
  "strncat_loop m dest src cnt =
     Option.bind (m src) (\<lambda>c. Option.bind (st m dest c) (\<lambda>m1.
       if c \<noteq> 0 then
         (if cnt - 1 = 0 then st m1 (dest + 1) 0 else strncat_loop m1 (dest + 1) (src + 1) (cnt - 1))
       else Some m1))"

definition strncat :: "mem \<Rightarrow> nat \<Rightarrow> nat \<Rightarrow> nat \<Rightarrow> mem option" where
  "strncat m dest src cnt =
     (if cnt \<noteq> 0 then do { n \<leftarrow> strlen m dest; strncat_loop m (dest + n) src cnt } else Some m)"

text \<open>\<^verbatim>\<open>BUG_ON\<close> stops the kernel: \<^term>\<open>None\<close>.\<close>

definition strlcat :: "mem \<Rightarrow> nat \<Rightarrow> nat \<Rightarrow> nat \<Rightarrow> (mem \<times> nat) option" where
  "strlcat m dest src cnt = do {
     dsize \<leftarrow> strlen m dest;
     len \<leftarrow> strlen m src;
     if dsize \<ge> cnt then None
     else
       let n = (if len \<ge> cnt - dsize then cnt - dsize - 1 else len)
       in do { m1 \<leftarrow> memcpy m (dest + dsize) src n; m2 \<leftarrow> st m1 (dest + dsize + n) 0; Some (m2, dsize + len) } }"

section \<open>Stripping and splitting\<close>

text \<open>The two loops of \<^verbatim>\<open>strstrip\<close>: back over trailing space (\<open>n\<close> bytes are kept), and forward.\<close>

fun strip_end :: "mem \<Rightarrow> nat \<Rightarrow> nat \<Rightarrow> nat option" where
  "strip_end m s 0 = Some 0"
| "strip_end m s (Suc n) = do { c \<leftarrow> m (s + n); if isspace c then strip_end m s n else Some (Suc n) }"

partial_function (option) skip_space :: "mem \<Rightarrow> nat \<Rightarrow> nat option" where
  "skip_space m s = Option.bind (m s) (\<lambda>c. if c \<noteq> 0 \<and> isspace c then skip_space m (s + 1) else Some s)"

definition strstrip :: "mem \<Rightarrow> nat \<Rightarrow> (mem \<times> nat) option" where
  "strstrip m s = do {
     sz \<leftarrow> strlen m s;
     if sz = 0 then Some (m, s)
     else do {
       n \<leftarrow> strip_end m s sz;
       m1 \<leftarrow> st m (s + n) 0;
       p \<leftarrow> skip_space m1 s;
       Some (m1, p) } }"

text \<open>The pointer variable of the caller is an argument and part of the result.\<close>

definition strsep :: "mem \<Rightarrow> nat option \<Rightarrow> nat \<Rightarrow> (mem \<times> nat option \<times> nat option) option" where
  "strsep m s ct = (case s of
     None \<Rightarrow> Some (m, None, None)
   | Some sbegin \<Rightarrow> do {
       e \<leftarrow> strpbrk m sbegin ct;
       case e of
         None \<Rightarrow> Some (m, None, Some sbegin)
       | Some q \<Rightarrow> do { m1 \<leftarrow> st m q 0; Some (m1, Some (q + 1), Some sbegin) } })"

declare strstr_loop.simps [simp del] strrchr_down.simps [simp del]

end
