(* ===== verification/String_Props.thy ===== *)
theory String_Props
  imports String_Lib "HOL-Library.List_Lexorder" "HOL-Library.Sublist"
begin

unbundle bit_operations_syntax

text \<open>
  What the functions of lib/string.c compute, in terms of the sequences of bytes that the memory
  holds. \<open>cstr m p s\<close> says that the string \<open>s\<close>, with its terminator, is stored at \<open>p\<close>.
\<close>

section \<open>Strings in memory\<close>

primrec bytes :: "mem \<Rightarrow> nat \<Rightarrow> u8 list \<Rightarrow> bool" where
  "bytes m p [] = True"
| "bytes m p (c # s) = (m p = Some c \<and> bytes m (p + 1) s)"

primrec cstr :: "mem \<Rightarrow> nat \<Rightarrow> u8 list \<Rightarrow> bool" where
  "cstr m p [] = (m p = Some 0)"
| "cstr m p (c # s) = (m p = Some c \<and> c \<noteq> 0 \<and> cstr m (p + 1) s)"

definition mapped :: "mem \<Rightarrow> nat \<Rightarrow> nat \<Rightarrow> bool" where
  "mapped m p n \<longleftrightarrow> (\<forall>i < n. m (p + i) \<noteq> None)"

lemma bytes_iff: "bytes m p s \<longleftrightarrow> (\<forall>i < length s. m (p + i) = Some (s ! i))"
  by (induction s arbitrary: p) (auto simp: All_less_Suc2)

lemma cstr_iff: "cstr m p s \<longleftrightarrow> bytes m p s \<and> m (p + length s) = Some 0 \<and> 0 \<notin> set s"
  by (induction s arbitrary: p) auto

lemma bytes_append [simp]: "bytes m p (s @ t) \<longleftrightarrow> bytes m p s \<and> bytes m (p + length s) t"
  by (induction s arbitrary: p) (auto simp: add.assoc)

lemma bytes_upd: "a < p \<or> p + length s \<le> a \<Longrightarrow> bytes (m(a \<mapsto> v)) p s = bytes m p s"
  by (induction s arbitrary: p) auto

lemma cstr_drop: "cstr m p s \<Longrightarrow> i \<le> length s \<Longrightarrow> cstr m (p + i) (drop i s)"
proof (induction i arbitrary: p s)
  case (Suc i)
  then obtain c s' where "s = c # s'" by (cases s) auto
  then show ?case using Suc.IH [of "p + 1" s'] Suc.prems by simp
qed simp

lemma cstr_nonzero: "cstr m p s \<Longrightarrow> 0 \<notin> set s"
  by (simp add: cstr_iff)

text \<open>A string is determined by its address.\<close>

lemma cstr_unique: "cstr m p s \<Longrightarrow> cstr m p t \<Longrightarrow> s = t"
  by (induction s arbitrary: p t) (case_tac t; auto)+

section \<open>Length\<close>

lemma strlen_from_cstr: "cstr m p s \<Longrightarrow> b \<le> p \<Longrightarrow> strlen_from m b p = Some (p - b + length s)"
proof (induction s arbitrary: p)
  case Nil
  then show ?case by (subst strlen_from.simps) simp
next
  case (Cons c s)
  then have "strlen_from m b (p + 1) = Some (p + 1 - b + length s)" by simp
  then show ?case using Cons.prems by (subst strlen_from.simps) simp
qed

lemma strlen_cstr [simp]: "cstr m p s \<Longrightarrow> strlen m p = Some (length s)"
  by (simp add: strlen_def strlen_from_cstr)

lemma strlen_from_SomeD:
  assumes "strlen_from m b p = Some n"
  shows "\<exists>s. cstr m p s"
proof (rule strlen_from.raw_induct [of "\<lambda>m b p n. \<exists>s. cstr m p s", OF _ assms])
  fix f :: "mem \<Rightarrow> nat \<Rightarrow> nat \<Rightarrow> nat option" and m b p n
  assume IH: "\<And>m b p n. f m b p = Some n \<Longrightarrow> \<exists>s. cstr m p s"
    and f: "Option.bind (m p) (\<lambda>c. if c \<noteq> 0 then f m b (p + 1) else Some (p - b)) = Some n"
  then obtain c where c: "m p = Some c" by (cases "m p") auto
  show "\<exists>s. cstr m p s"
  proof (cases "c = 0")
    case True
    then show ?thesis using c by (intro exI [of _ "[]"]) simp
  next
    case False
    then obtain s where "cstr m (p + 1) s" using IH [of m b "p + 1" n] f c by fastforce
    then show ?thesis using c False by (intro exI [of _ "c # s"]) simp
  qed
qed

text \<open>
  \<^verbatim>\<open>strlen\<close> ends exactly on strings: it returns if and only if a terminator follows the pointer with
  no unmapped byte before it, and then it returns the number of bytes in front of the terminator.
\<close>

lemma strlen_terminates: "strlen m p = Some n \<longleftrightarrow> (\<exists>s. cstr m p s \<and> length s = n)"
  using strlen_from_SomeD [of m p p n] strlen_cstr [of m p] unfolding strlen_def by fastforce

section \<open>Comparison\<close>

definition compare_bytes :: "u8 list \<Rightarrow> u8 list \<Rightarrow> int" where
  "compare_bytes s t = (if s = t then 0 else if s < t then - 1 else 1)"

lemma compare_bytes_simps [simp]:
  "compare_bytes [] [] = 0" "compare_bytes [] (c # t) = - 1" "compare_bytes (c # s) [] = 1"
  "compare_bytes (c # s) (d # t) = (if c = d then compare_bytes s t else if c < d then - 1 else 1)"
  by (auto simp: compare_bytes_def)

text \<open>
  \<^verbatim>\<open>strcmp\<close> compares two strings lexicographically as sequences of unsigned bytes: the result is 0
  if they are equal, -1 if the first is smaller and 1 if it is larger. \<^verbatim>\<open>strncmp\<close> does the same with
  the first bytes of them.
\<close>

lemma strcmp_lexicographic:
  assumes "cstr m p s" "cstr m q t"
  shows "strcmp m p q = Some (compare_bytes s t)
    \<and> strncmp m p q n = Some (compare_bytes (take n s) (take n t))"
proof
  show "strcmp m p q = Some (compare_bytes s t)"
    using assms
  proof (induction s arbitrary: p q t)
    case Nil
    then show ?case by (subst strcmp.simps, cases t) (auto simp: word_gt_0)
  next
    case (Cons c s)
    then show ?case by (subst strcmp.simps, cases t) (auto simp: word_gt_0)
  qed
  show "strncmp m p q n = Some (compare_bytes (take n s) (take n t))"
    using assms
  proof (induction n arbitrary: p q s t)
    case (Suc n)
    then show ?case by (cases s; cases t) (auto simp: word_gt_0)
  qed simp
qed

text \<open>A small memory for the witnesses: the string \<^verbatim>\<open>"ab,c"\<close> at 10, \<^verbatim>\<open>"abd"\<close> at 20, \<^verbatim>\<open>","\<close> at 30, and eight
  bytes of buffer at 40.\<close>

definition demo_mem :: mem where
  "demo_mem = map_of [(10, 97), (11, 98), (12, 44), (13, 99), (14, 0), (20, 97), (21, 98), (22, 100), (23, 0),
     (30, 44), (31, 0), (40, 1), (41, 1), (42, 1), (43, 1), (44, 1), (45, 1), (46, 1), (47, 0)]"

lemma demo_mem_strings: "cstr demo_mem 10 [97, 98, 44, 99]" "cstr demo_mem 20 [97, 98, 100]" "cstr demo_mem 30 [44]"
  by (simp_all add: demo_mem_def)

lemma strncasecmp_long:
  assumes "cstr m p s" "cstr m q t" "length s < unat (n - 1)"
  shows "strncasecmp m p q n = strcasecmp m p q"
  using assms
proof (induction s arbitrary: p q t n)
  case Nil
  then show ?case by (subst strncasecmp.simps, subst strcasecmp.simps, cases t) (auto simp: Let_def)
next
  case (Cons c s)
  have n: "0 < n - 1" using Cons.prems(3) by (simp add: word_less_nat_alt)
  then have "unat (n - 1 - 1) = unat (n - 1) - 1" by (intro unat_minus_one) (simp add: word_gt_0)
  then have "length s < unat (n - 1 - 1)" using Cons.prems(3) by simp
  then have IH: "t = d # t' \<Longrightarrow> strncasecmp m (p + 1) (q + 1) (n - 1) = strcasecmp m (p + 1) (q + 1)" for d t'
    using Cons.IH [of "p + 1" "q + 1" t' "n - 1"] Cons.prems by simp
  show ?case
    using Cons.prems n IH by (subst strncasecmp.simps, subst strcasecmp.simps, cases t) (auto simp: Let_def)
qed

text \<open>
  C25: \<^verbatim>\<open>strncasecmp\<close> with the length 0 does not compare 0 bytes. The loop decrements the length before it
  tests it, so that 0 wraps to the largest \<^verbatim>\<open>size_t\<close> and the call compares the whole strings, like
  \<^verbatim>\<open>strcasecmp\<close>.
\<close>

theorem strncasecmp_zero:
  assumes "cstr m p s" "cstr m q t" "length s < 2 ^ 64 - 1"
  shows "strncasecmp m p q 0 = strcasecmp m p q"
  using assms(1,2)
proof (rule strncasecmp_long)
  show "length s < unat (0 - 1 :: u64)" using assms(3) by (simp add: unsigned_minus_1_eq_mask mask_eq_exp_minus_1)
qed

theorem strncasecmp_zero_witness: "strncasecmp demo_mem 10 20 0 = strcasecmp demo_mem 10 20"
  using strncasecmp_zero [OF demo_mem_strings(1,2)] by simp

section \<open>Copying\<close>

text \<open>The memory after the bytes at \<open>src\<close> have been read at once and stored at \<open>dest\<close>.\<close>

definition moved :: "mem \<Rightarrow> nat \<Rightarrow> nat \<Rightarrow> nat \<Rightarrow> mem" where
  "moved m dest src n = (\<lambda>a. if dest \<le> a \<and> a < dest + n then m (src + (a - dest)) else m a)"

lemma mapped_SucD:
  assumes "mapped m p (Suc n)"
  obtains b where "m p = Some b" "mapped m (p + 1) n"
proof -
  have "m (p + 0) \<noteq> None" "\<And>i. i < n \<Longrightarrow> m (p + Suc i) \<noteq> None"
    using assms unfolding mapped_def by blast+
  then show ?thesis by (auto simp: mapped_def intro: that)
qed

lemma mapped_upd: "mapped m p n \<Longrightarrow> mapped (m(a \<mapsto> v)) p n"
  by (simp add: mapped_def)

lemma memcpy_moved:
  assumes "mapped m src n" "mapped m dest n" "dest \<le> src \<or> src + n \<le> dest"
  shows "memcpy m dest src n = Some (moved m dest src n)"
  using assms
proof (induction n arbitrary: m dest src)
  case 0
  then show ?case by (auto simp: moved_def fun_eq_iff)
next
  case (Suc n)
  obtain b where b: "m src = Some b" "mapped m (src + 1) n" by (rule mapped_SucD [OF Suc.prems(1)])
  obtain d where d: "m dest = Some d" "mapped m (dest + 1) n" by (rule mapped_SucD [OF Suc.prems(2)])
  have "memcpy (m(dest \<mapsto> b)) (dest + 1) (src + 1) n = Some (moved (m(dest \<mapsto> b)) (dest + 1) (src + 1) n)"
    using b d Suc.prems(3) by (intro Suc.IH mapped_upd) auto
  moreover have "moved (m(dest \<mapsto> b)) (dest + 1) (src + 1) n = moved m dest src (Suc n)"
  proof -
    have "Suc dest \<le> x \<Longrightarrow> Suc (src + x - Suc dest) = src + x - dest" for x by simp
    then show ?thesis using b Suc.prems(3) by (auto simp: moved_def fun_eq_iff)
  qed
  ultimately show ?case using b d by (simp add: st_def)
qed

lemma memcpy_down_moved:
  assumes "mapped m src n" "mapped m dest n" "src < dest"
  shows "memcpy_down m dest src n = Some (moved m dest src n)"
  using assms
proof (induction n arbitrary: m)
  case 0
  then show ?case by (auto simp: moved_def fun_eq_iff)
next
  case (Suc n)
  obtain b where b: "m (src + n) = Some b" using Suc.prems(1) by (auto simp: mapped_def)
  obtain d where d: "m (dest + n) = Some d" using Suc.prems(2) by (auto simp: mapped_def)
  have "memcpy_down (m(dest + n \<mapsto> b)) dest src n = Some (moved (m(dest + n \<mapsto> b)) dest src n)"
    using Suc.prems by (intro Suc.IH mapped_upd) (auto simp: mapped_def)
  moreover have "moved (m(dest + n \<mapsto> b)) dest src n = moved m dest src (Suc n)"
    using b Suc.prems(3) by (auto simp: moved_def fun_eq_iff less_Suc_eq)
  ultimately show ?case using b d by (simp add: st_def)
qed

text \<open>
  C26: \<^verbatim>\<open>memmove\<close> is a simultaneous copy: whatever the overlap of the two regions, the destination holds
  the bytes the source held before the call, and no other byte changes.
\<close>

theorem memmove_simultaneous:
  assumes "mapped m src n" "mapped m dest n"
  shows "memmove m dest src n =
    Some (\<lambda>a. if dest \<le> a \<and> a < dest + n then m (src + (a - dest)) else m a)"
  using assms memcpy_moved [of m src n dest] memcpy_down_moved [of m src n dest]
  by (cases "dest \<le> src") (auto simp: memmove_def moved_def)

theorem memmove_simultaneous_witness:
  "map_option (\<lambda>m. map m [10, 11, 12, 13, 14]) (memmove demo_mem 11 10 3) =
   Some [Some 97, Some 97, Some 98, Some 44, Some 0]"
proof -
  have "mapped demo_mem 10 3" "mapped demo_mem 11 3"
    by (simp_all add: mapped_def demo_mem_def numeral_3_eq_3 All_less_Suc)
  from memmove_simultaneous [OF this] show ?thesis by (simp add: demo_mem_def)
qed

lemma cstr_take_moved:
  assumes "cstr m src s" "len \<le> length s"
  shows "cstr ((moved m dest src len)(dest + len \<mapsto> 0)) dest (take len s)"
proof -
  have "m (src + i) = Some (s ! i)" if "i < length s" for i
    using assms(1) that by (simp add: cstr_iff bytes_iff)
  moreover have "0 \<notin> set (take len s)" using cstr_nonzero [OF assms(1)] set_take_subset [of len s] by blast
  ultimately show ?thesis using assms(2) by (auto simp: cstr_iff bytes_iff moved_def min_def)
qed

lemma cstr_mapped: "cstr m p s \<Longrightarrow> n \<le> length s \<Longrightarrow> mapped m p n"
  by (auto simp: cstr_iff bytes_iff mapped_def)

lemma cstr_agree: "cstr m p s \<Longrightarrow> (\<And>a. p \<le> a \<Longrightarrow> a \<le> p + length s \<Longrightarrow> m' a = m a) \<Longrightarrow> cstr m' p s"
  by (simp add: cstr_iff bytes_iff)

lemma st_mapped: "m p \<noteq> None \<Longrightarrow> st m p v = Some (m(p \<mapsto> v))"
  by (simp add: st_def)

text \<open>
  C27: \<^verbatim>\<open>strlcpy\<close> into a buffer of \<open>sz\<close> bytes that does not overlap the source returns the length of the
  source, leaves in the buffer the longest prefix of the source that fits, always terminated (unless
  \<open>sz\<close> is 0), and writes no byte outside the buffer.
\<close>

theorem strlcpy_bounded:
  assumes "cstr m src s" "mapped m dest sz" "dest + sz \<le> src \<or> src + length s < dest"
  shows "\<exists>m'. strlcpy m dest src sz = Some (m', length s)
    \<and> (sz \<noteq> 0 \<longrightarrow> cstr m' dest (take (sz - 1) s))
    \<and> cstr m' src s
    \<and> (\<forall>a. a < dest \<or> dest + sz \<le> a \<longrightarrow> m' a = m a)"
proof (cases "sz = 0")
  case True
  then show ?thesis using assms(1) by (simp add: strlcpy_def)
next
  case False
  define len where "len = min (length s) (sz - 1)"
  define m' where "m' = (moved m dest src len)(dest + len \<mapsto> 0)"
  have len: "len < sz" "len \<le> length s" "(if length s \<ge> sz then sz - 1 else length s) = len"
    using False by (auto simp: len_def)
  have cp: "memcpy m dest src len = Some (moved m dest src len)"
    using assms len by (intro memcpy_moved cstr_mapped [OF assms(1)]) (auto simp: mapped_def)
  have "m (dest + len) \<noteq> None" using assms(2) len(1) by (auto simp: mapped_def)
  then have "moved m dest src len (dest + len) \<noteq> None" by (simp add: moved_def)
  then have "strlcpy m dest src sz = Some (m', length s)"
    using assms(1) False cp len(3) by (simp add: strlcpy_def Let_def st_mapped m'_def)
  moreover have "take len s = take (sz - 1) s" by (simp add: len_def min_def)
  then have "cstr m' dest (take (sz - 1) s)"
    using cstr_take_moved [OF assms(1) len(2), of dest] by (simp add: m'_def)
  moreover have out: "m' a = m a" if "a < dest \<or> dest + sz \<le> a" for a
    using that len(1) by (auto simp: m'_def moved_def)
  moreover have "cstr m' src s" using assms(3) by (intro cstr_agree [OF assms(1)] out) auto
  ultimately show ?thesis by blast
qed

theorem strlcpy_bounded_witness:
  "\<exists>m'. strlcpy demo_mem 40 10 3 = Some (m', 4) \<and> cstr m' 40 [97, 98]"
proof -
  have "mapped demo_mem 40 3" by (simp add: mapped_def demo_mem_def numeral_3_eq_3 All_less_Suc)
  from strlcpy_bounded [OF demo_mem_strings(1) this] show ?thesis by auto
qed

section \<open>Searching\<close>

lemma memcmp_bytes:
  "bytes m p s \<Longrightarrow> bytes m q t \<Longrightarrow> length t = length s \<Longrightarrow>
   \<exists>d. memcmp m p q (length s) = Some d \<and> (d = 0 \<longleftrightarrow> s = t)"
proof (induction s arbitrary: p q t)
  case (Cons c s)
  then obtain d t' where t: "t = d # t'" by (cases t) auto
  then obtain r where "memcmp m (p + 1) (q + 1) (length s) = Some r \<and> (r = 0 \<longleftrightarrow> s = t')"
    using Cons.IH [of "p + 1" "q + 1" t'] Cons.prems by auto
  then show ?case using Cons.prems t by (auto simp: word_uint_eq_iff)
qed simp

lemma prefix_take_iff: "prefix t s \<longleftrightarrow> take (length t) s = t"
proof
  show "take (length t) s = t \<Longrightarrow> prefix t s" using take_is_prefix [of "length t" s] by simp
qed (auto elim: prefixE)

definition first_at :: "u8 list \<Rightarrow> u8 list \<Rightarrow> nat \<Rightarrow> bool" where
  "first_at t s i \<longleftrightarrow> i \<le> length s \<and> prefix t (drop i s) \<and> (\<forall>j < i. \<not> prefix t (drop j s))"

lemma first_at_Cons:
  "\<not> prefix t (c # s) \<Longrightarrow> first_at t (c # s) (Suc i) \<longleftrightarrow> first_at t s i"
  by (auto simp: first_at_def All_less_Suc2)

lemma sublist_Cons_iff: "sublist t (c # s) \<longleftrightarrow> prefix t (c # s) \<or> sublist t s"
  by (simp add: sublist_Cons_right)

lemma strstr_loop_cstr:
  assumes "cstr m p s" "cstr m q t" "t \<noteq> []"
  shows "\<exists>r. strstr_loop m p q (length s) (length t) = Some r
    \<and> (case r of None \<Rightarrow> \<not> sublist t s | Some a \<Rightarrow> \<exists>i. a = p + i \<and> first_at t s i)"
  using assms(1)
proof (induction s arbitrary: p)
  case Nil
  then show ?case using assms(3) by (subst strstr_loop.simps) simp
next
  case (Cons c s)
  show ?case
  proof (cases "length t \<le> length (c # s)")
    case False
    then have "\<not> sublist t (c # s)" using sublist_length_le [of t "c # s"] by blast
    then show ?thesis using False by (subst strstr_loop.simps) simp
  next
    case True
    have "bytes m p (take (length t) (c # s))"
      using Cons.prems True by (auto simp: cstr_iff bytes_iff simp del: bytes.simps cstr.simps)
    moreover have "bytes m q t" using assms(2) by (simp add: cstr_iff)
    moreover have tl: "length (take (length t) (c # s)) = length t" using True by simp
    ultimately obtain d where d: "memcmp m p q (length t) = Some d" "d = 0 \<longleftrightarrow> take (length t) (c # s) = t"
      using memcmp_bytes [of m p "take (length t) (c # s)" q t] unfolding tl by blast
    have pre: "prefix t (c # s) \<longleftrightarrow> d = 0" using d(2) prefix_take_iff by simp
    show ?thesis
    proof (cases "d = 0")
      case True
      then have "first_at t (c # s) 0" using pre by (simp add: first_at_def)
      then show ?thesis using d(1) True \<open>length t \<le> length (c # s)\<close>
        by (subst strstr_loop.simps) simp
    next
      case False
      obtain r where r: "strstr_loop m (p + 1) q (length s) (length t) = Some r"
        "case r of None \<Rightarrow> \<not> sublist t s | Some a \<Rightarrow> \<exists>i. a = p + 1 + i \<and> first_at t s i"
        using Cons.IH [of "p + 1"] Cons.prems by auto
      have "case r of None \<Rightarrow> \<not> sublist t (c # s) | Some a \<Rightarrow> \<exists>i. a = p + i \<and> first_at t (c # s) i"
        using r(2) False pre first_at_Cons [of t c s] sublist_Cons_iff [of t c s]
        by (cases r) auto
      moreover have "strstr_loop m p q (length (c # s)) (length t) = Some r"
        using d(1) False True r(1) by (subst strstr_loop.simps) simp
      ultimately show ?thesis by blast
    qed
  qed
qed

text \<open>
  \<^verbatim>\<open>strstr\<close> always returns on two strings. It returns null exactly if the second is not a
  substring of the first, and otherwise the address of its first occurrence.
\<close>

lemma strstr_first_occurrence:
  assumes "cstr m p s" "cstr m q t"
  shows "\<exists>r. strstr m p q = Some r
    \<and> (case r of
         None \<Rightarrow> \<not> sublist t s
       | Some a \<Rightarrow> \<exists>i. a = p + i \<and> prefix t (drop i s) \<and> (\<forall>j < i. \<not> prefix t (drop j s)))"
proof (cases "t = []")
  case True
  then show ?thesis using strlen_cstr [OF assms(2)] by (simp add: strstr_def)
next
  case False
  then have "strstr m p q = strstr_loop m p q (length s) (length t)"
    using assms by (simp add: strstr_def)
  moreover obtain r where "strstr_loop m p q (length s) (length t) = Some r"
    "case r of None \<Rightarrow> \<not> sublist t s | Some a \<Rightarrow> \<exists>i. a = p + i \<and> first_at t s i"
    using strstr_loop_cstr [OF assms False] by blast
  ultimately show ?thesis by (intro exI [of _ r], cases r) (auto simp: first_at_def)
qed

section \<open>Splitting and stripping\<close>

lemma in_set_at_cstr: "cstr m a s \<Longrightarrow> in_set_at m a c = Some (c \<in> set s)"
proof (induction s arbitrary: a)
  case Nil
  then show ?case by (subst in_set_at.simps) simp
next
  case (Cons d s)
  then show ?case by (subst in_set_at.simps) auto
qed

lemma strpbrk_cstr:
  assumes "cstr m p s" "cstr m q t"
  shows "strpbrk m p q = Some (if set s \<inter> set t = {} then None
    else Some (p + length (takeWhile (\<lambda>c. c \<notin> set t) s)))"
  using assms(1)
proof (induction s arbitrary: p)
  case Nil
  then show ?case by (subst strpbrk.simps) simp
next
  case (Cons c s)
  then show ?case by (subst strpbrk.simps) (simp add: in_set_at_cstr [OF assms(2)])
qed

lemma takeWhile_split:
  assumes "set s \<inter> set t \<noteq> {}"
  obtains c v where "s = takeWhile (\<lambda>c. c \<notin> set t) s @ c # v" "c \<in> set t"
proof -
  have "dropWhile (\<lambda>c. c \<notin> set t) s \<noteq> []" using assms by auto
  then obtain c v where cv: "dropWhile (\<lambda>c. c \<notin> set t) s = c # v" by (cases "dropWhile (\<lambda>c. c \<notin> set t) s") auto
  then have "c \<in> set t" using hd_dropWhile [of "\<lambda>c. c \<notin> set t" s] by simp
  moreover have "s = takeWhile (\<lambda>c. c \<notin> set t) s @ c # v" using takeWhile_dropWhile_id [of "\<lambda>c. c \<notin> set t" s] cv by simp
  ultimately show ?thesis using that by blast
qed

lemma cstr_cut:
  assumes "cstr m p (u @ c # v)"
  shows "cstr (m(p + length u \<mapsto> 0)) p u" "cstr (m(p + length u \<mapsto> 0)) (p + length u + 1) v" "m (p + length u) = Some c"
  using assms by (auto simp: cstr_iff bytes_upd add.assoc)

text \<open>
  \<^verbatim>\<open>strsep\<close> returns the start of the string. If no separator occurs in it, the caller's pointer
  becomes null and memory is unchanged; otherwise exactly the first separator is overwritten with 0, the
  token in front of it has no separator, and the caller's pointer is at the rest of the string. Called with
  a null pointer it returns null.
\<close>

lemma strsep_splits:
  assumes "cstr m p s" "cstr m q t"
  shows "if set s \<inter> set t = {} then strsep m (Some p) q = Some (m, None, Some p)
    else \<exists>u c v. s = u @ c # v \<and> c \<in> set t \<and> set u \<inter> set t = {}
      \<and> strsep m (Some p) q = Some (m(p + length u \<mapsto> 0), Some (p + length u + 1), Some p)
      \<and> cstr (m(p + length u \<mapsto> 0)) p u \<and> cstr (m(p + length u \<mapsto> 0)) (p + length u + 1) v"
proof (cases "set s \<inter> set t = {}")
  case True
  then show ?thesis using strpbrk_cstr [OF assms] by (simp add: strsep_def)
next
  case False
  define u where "u = takeWhile (\<lambda>c. c \<notin> set t) s"
  obtain c v where s: "s = u @ c # v" "c \<in> set t" using takeWhile_split [OF False] by (metis u_def)
  have u: "set u \<inter> set t = {}" using set_takeWhileD by (fastforce simp: u_def)
  note cut = cstr_cut [of m p u c v, OF assms(1) [unfolded s(1)]]
  have "strsep m (Some p) q = Some (m(p + length u \<mapsto> 0), Some (p + length u + 1), Some p)"
    using strpbrk_cstr [OF assms] False cut(3) by (simp add: strsep_def st_def u_def [symmetric])
  then show ?thesis using False s u cut by auto
qed

lemma strip_end_bytes:
  assumes "bytes m p s"
  shows "strip_end m p (length s) = Some (length (dropWhile isspace (rev s)))"
  using assms by (induction s rule: rev_induct) auto

lemma skip_space_cstr:
  "cstr m p s \<Longrightarrow> skip_space m p = Some (p + length (takeWhile isspace s))"
proof (induction s arbitrary: p)
  case Nil
  then show ?case by (subst skip_space.simps) simp
next
  case (Cons c s)
  then show ?case by (subst skip_space.simps) simp
qed

lemma dropWhile_eq_drop_length: "dropWhile P xs = drop (length (takeWhile P xs)) xs"
  by (induction xs) auto

text \<open>
  \<^verbatim>\<open>strstrip\<close> cuts the white space off both ends of a string: it writes one terminator behind the last
  byte that is not a space, and returns a pointer into the string, to the first byte that is not one.
\<close>

lemma strstrip_trims:
  assumes "cstr m p s"
  shows "\<exists>m' r. strstrip m p = Some (m', r)
    \<and> cstr m' r (dropWhile isspace (rev (dropWhile isspace (rev s))))
    \<and> p \<le> r \<and> r \<le> p + length s
    \<and> (\<forall>a. a < p \<or> p + length s < a \<longrightarrow> m' a = m a)"
proof (cases "s = []")
  case True
  then show ?thesis using assms strlen_cstr [OF assms] by (simp add: strstrip_def)
next
  case False
  define u where "u = rev (dropWhile isspace (rev s))"
  define v where "v = rev (takeWhile isspace (rev s))"
  have s: "s = u @ v" by (simp add: u_def v_def flip: rev_append)
  have u: "cstr (m(p + length u \<mapsto> 0)) p u" using assms by (simp add: s cstr_iff bytes_upd)
  have "m (p + length u) \<noteq> None" using assms by (cases v) (auto simp: s cstr_iff)
  moreover have "bytes m p s" using assms by (simp add: cstr_iff)
  moreover have "length u = length (dropWhile isspace (rev s))" by (simp add: u_def)
  ultimately have "strstrip m p = Some (m(p + length u \<mapsto> 0), p + length (takeWhile isspace u))"
    using False strlen_cstr [OF assms] strip_end_bytes [of m p s] skip_space_cstr [OF u]
    by (simp add: strstrip_def st_def)
  moreover have "cstr (m(p + length u \<mapsto> 0)) (p + length (takeWhile isspace u)) (dropWhile isspace u)"
    using cstr_drop [OF u length_takeWhile_le [of isspace u]] by (simp add: dropWhile_eq_drop_length)
  moreover have "length (takeWhile isspace u) \<le> length s"
    using length_takeWhile_le [of isspace u] by (simp add: s)
  ultimately show ?thesis by (auto simp: u_def [symmetric]) (simp add: s)
qed

end
