(* ===== verification/Group_Info.thy ===== *)
theory Group_Info
  imports Prelude
begin

text \<open>
  The supplementary group lists of kernel/groups.c. A \<^verbatim>\<open>struct group_info\<close> keeps its identifiers in
  blocks: the one block \<^verbatim>\<open>small_block\<close> inside the structure when there are at most 32 of them, pages
  otherwise. The page allocator is an argument: the answers to the requests, and the contents
  of uninitialised memory. User memory is a map from addresses of 32-bit cells.
\<close>

section \<open>Structure and allocation\<close>

definition NGROUPS_SMALL :: nat where "NGROUPS_SMALL = 32"
definition NGROUPS_PER_BLOCK :: nat where "NGROUPS_PER_BLOCK = 1024"
definition NGROUPS_MAX :: nat where "NGROUPS_MAX = 65536"

record group_info =
  usage :: int
  ngroups :: nat
  on_pages :: bool
  blocks :: "u32 list list"

definition init_groups :: group_info where
  "init_groups = \<lparr>usage = 2, ngroups = 0, on_pages = True, blocks = []\<rparr>"

definition nblocks :: "group_info \<Rightarrow> nat" where
  "nblocks gi = length (blocks gi)"

text \<open>The allocator: does \<^verbatim>\<open>kmalloc\<close> succeed, does the request for page \<open>i\<close> succeed, and what do the pages
  hold. The second result counts the allocations that are live when the function returns.\<close>

record galloc =
  kmalloc_ok :: bool
  page_ok :: "nat \<Rightarrow> bool"
  uninit :: "nat \<Rightarrow> nat \<Rightarrow> u32"

text \<open>The loop of \<^verbatim>\<open>groups_alloc\<close> over the pages: all pages, or the number of those it got.\<close>

fun alloc_pages :: "galloc \<Rightarrow> nat \<Rightarrow> nat \<Rightarrow> nat + u32 list list" where
  "alloc_pages al i 0 = Inr []"
| "alloc_pages al i (Suc n) =
     (if page_ok al i then
        (case alloc_pages al (i + 1) n of
           Inl k \<Rightarrow> Inl k
         | Inr bs \<Rightarrow> Inr (map (uninit al i) [0..<NGROUPS_PER_BLOCK] # bs))
      else Inl i)"

text \<open>The loop at \<^verbatim>\<open>out_undo_partial_alloc\<close>: the number of pages it gives back.\<close>

primrec undo_pages :: "nat \<Rightarrow> nat" where
  "undo_pages 0 = 0"
| "undo_pages (Suc i) = undo_pages i + 1"

definition groups_alloc :: "galloc \<Rightarrow> nat \<Rightarrow> group_info option \<times> int" where
  "groups_alloc al gidsetsize =
     (let nb = (gidsetsize + NGROUPS_PER_BLOCK - 1) div NGROUPS_PER_BLOCK;
          nb = (if nb \<noteq> 0 then nb else 1)
      in if \<not> kmalloc_ok al then (None, 0)
         else if gidsetsize \<le> NGROUPS_SMALL then
           (Some \<lparr>usage = 1, ngroups = gidsetsize, on_pages = False,
                  blocks = [map (uninit al 0) [0..<NGROUPS_SMALL]]\<rparr>, 1)
         else (case alloc_pages al 0 nb of
           Inr bs \<Rightarrow> (Some \<lparr>usage = 1, ngroups = gidsetsize, on_pages = True, blocks = bs\<rparr>, 1 + int nb)
         | Inl i \<Rightarrow> (None, 1 + int i - int (undo_pages i) - 1)))"

text \<open>The number of allocations that \<^verbatim>\<open>groups_free\<close> gives back.\<close>

definition groups_free :: "group_info \<Rightarrow> int" where
  "groups_free gi = (if on_pages gi then int (nblocks gi) else 0) + 1"

definition GROUP_AT :: "group_info \<Rightarrow> nat \<Rightarrow> u32 option" where
  "GROUP_AT gi i =
     (let b = i div NGROUPS_PER_BLOCK; j = i mod NGROUPS_PER_BLOCK
      in if b < nblocks gi \<and> j < length (blocks gi ! b) then Some (blocks gi ! b ! j) else None)"

definition GROUP_SET :: "group_info \<Rightarrow> nat \<Rightarrow> u32 \<Rightarrow> group_info option" where
  "GROUP_SET gi i v =
     (let b = i div NGROUPS_PER_BLOCK; j = i mod NGROUPS_PER_BLOCK
      in if b < nblocks gi \<and> j < length (blocks gi ! b)
         then Some (gi\<lparr>blocks := (blocks gi)[b := (blocks gi ! b)[j := v]]\<rparr>) else None)"

section \<open>User memory\<close>

type_synonym umem = "nat \<rightharpoonup> u32"

text \<open>\<^verbatim>\<open>copy_to_user\<close> stops at the first cell it cannot write and returns what is left to copy.\<close>

fun copy_to_user :: "umem \<Rightarrow> nat \<Rightarrow> u32 list \<Rightarrow> umem \<times> nat" where
  "copy_to_user m p [] = (m, 0)"
| "copy_to_user m p (x # xs) =
     (if m p = None then (m, Suc (length xs)) else copy_to_user (m(p \<mapsto> x)) (p + 1) xs)"

fun copy_from_user :: "umem \<Rightarrow> nat \<Rightarrow> nat \<Rightarrow> u32 list option" where
  "copy_from_user m p 0 = Some []"
| "copy_from_user m p (Suc n) = do { x \<leftarrow> m p; xs \<leftarrow> copy_from_user m (p + 1) n; Some (x # xs) }"

text \<open>The loops over the blocks, with the \<open>cnt\<close> identifiers left.\<close>

fun to_user_blocks :: "umem \<Rightarrow> nat \<Rightarrow> u32 list list \<Rightarrow> nat \<Rightarrow> umem \<times> int" where
  "to_user_blocks m p [] cnt = (m, 0)"
| "to_user_blocks m p (b # bs) cnt =
     (let cp_count = min NGROUPS_PER_BLOCK cnt; (m1, left) = copy_to_user m p (take cp_count b)
      in if left \<noteq> 0 then (m1, - EFAULT)
         else to_user_blocks m1 (p + NGROUPS_PER_BLOCK) bs (cnt - cp_count))"

definition groups_to_user :: "umem \<Rightarrow> nat \<Rightarrow> group_info \<Rightarrow> umem \<times> int" where
  "groups_to_user m grouplist gi = to_user_blocks m grouplist (blocks gi) (ngroups gi)"

fun from_user_blocks :: "umem \<Rightarrow> nat \<Rightarrow> u32 list list \<Rightarrow> nat \<Rightarrow> u32 list list option" where
  "from_user_blocks m p [] cnt = Some []"
| "from_user_blocks m p (b # bs) cnt = do {
     let cp_count = min NGROUPS_PER_BLOCK cnt;
     xs \<leftarrow> copy_from_user m p cp_count;
     bs' \<leftarrow> from_user_blocks m (p + NGROUPS_PER_BLOCK) bs (cnt - cp_count);
     Some ((xs @ drop cp_count b) # bs') }"

text \<open>\<^term>\<open>None\<close> is \<^verbatim>\<open>-EFAULT\<close>; the caller then gives the structure up.\<close>

definition groups_from_user :: "group_info \<Rightarrow> umem \<Rightarrow> nat \<Rightarrow> group_info option" where
  "groups_from_user gi m grouplist = do {
     bs \<leftarrow> from_user_blocks m grouplist (blocks gi) (ngroups gi);
     Some (gi\<lparr>blocks := bs\<rparr>) }"

section \<open>Sorting and searching\<close>

text \<open>The first loop: the strides 1, 4, 13, ... up to the first that is not below the size.\<close>

function first_stride :: "nat \<Rightarrow> nat \<Rightarrow> nat" where
  "first_stride gidsetsize stride =
     (if stride < gidsetsize then first_stride gidsetsize (3 * stride + 1) else stride)"
  by auto
termination by (relation "measure (\<lambda>(n, s). n - s)") auto

declare first_stride.simps [simp del]

text \<open>The inner loop and the assignment after it.\<close>

partial_function (option) shift_right :: "group_info \<Rightarrow> u32 \<Rightarrow> nat \<Rightarrow> int \<Rightarrow> nat \<Rightarrow> group_info option" where
  "shift_right gi tmp stride left right =
     (if 0 \<le> left then
        Option.bind (GROUP_AT gi (nat left)) (\<lambda>l.
          if tmp < l then
            Option.bind (GROUP_SET gi right l) (\<lambda>gi1.
              shift_right gi1 tmp stride (left - int stride) (nat left))
          else GROUP_SET gi right tmp)
      else GROUP_SET gi right tmp)"

text \<open>The loop over \<open>base\<close>, with \<open>n\<close> rounds left.\<close>

primrec sort_stride :: "group_info \<Rightarrow> nat \<Rightarrow> nat \<Rightarrow> nat \<Rightarrow> group_info option" where
  "sort_stride gi stride base 0 = Some gi"
| "sort_stride gi stride base (Suc n) = do {
     tmp \<leftarrow> GROUP_AT gi (base + stride);
     gi1 \<leftarrow> shift_right gi tmp stride (int base) (base + stride);
     sort_stride gi1 stride (base + 1) n }"

fun sort_strides :: "group_info \<Rightarrow> nat \<Rightarrow> group_info option" where
  "sort_strides gi stride =
     (if stride = 0 then Some gi
      else do {
        gi1 \<leftarrow> sort_stride gi stride 0 (ngroups gi - stride);
        sort_strides gi1 (stride div 3) })"

declare sort_strides.simps [simp del]

definition groups_sort :: "group_info \<Rightarrow> group_info option" where
  "groups_sort gi = sort_strides gi (first_stride (ngroups gi) 1 div 3)"

text \<open>\<open>None\<close> outside means an access out of the blocks.\<close>

function bsearch :: "group_info \<Rightarrow> u32 \<Rightarrow> nat \<Rightarrow> nat \<Rightarrow> bool option" where
  "bsearch gi grp left right =
     (if left < right then
        (let mid = (left + right) div 2
         in case GROUP_AT gi mid of
              None \<Rightarrow> None
            | Some g \<Rightarrow>
                if g < grp then bsearch gi grp (mid + 1) right
                else if grp < g then bsearch gi grp left mid
                else Some True)
      else Some False)"
  by auto
termination by (relation "measure (\<lambda>(gi, grp, l, r). r - l)") auto

declare bsearch.simps [simp del]

definition groups_search :: "group_info option \<Rightarrow> u32 \<Rightarrow> bool option" where
  "groups_search gi grp = (case gi of
     None \<Rightarrow> Some False
   | Some g \<Rightarrow> bsearch g grp 0 (ngroups g))"

section \<open>The identifiers of a structure\<close>

definition gids :: "group_info \<Rightarrow> u32 list" where
  "gids gi = take (ngroups gi) (concat (blocks gi))"

definition gi_ok :: "group_info \<Rightarrow> bool" where
  "gi_ok gi \<longleftrightarrow>
     (if on_pages gi then (\<forall>b \<in> set (blocks gi). length b = NGROUPS_PER_BLOCK) \<and> ngroups gi \<le> NGROUPS_PER_BLOCK * nblocks gi
      else nblocks gi = 1 \<and> length (hd (blocks gi)) = NGROUPS_SMALL \<and> ngroups gi \<le> NGROUPS_SMALL)"

lemma concat_nth:
  assumes "\<forall>b \<in> set bs. length b = k" "i < k * length bs"
  shows "concat bs ! i = bs ! (i div k) ! (i mod k)"
  using assms
proof (induction bs arbitrary: i)
  case (Cons b bs)
  have k: "0 < k" using Cons.prems(2) by (cases k) auto
  show ?case
  proof (cases "i < k")
    case True
    then show ?thesis using Cons.prems by (simp add: nth_append)
  next
    case False
    then have "concat bs ! (i - k) = bs ! ((i - k) div k) ! ((i - k) mod k)"
      using Cons.prems by (intro Cons.IH) auto
    then show ?thesis using False Cons.prems k
      by (simp add: nth_append le_div_geq le_mod_geq)
  qed
qed simp

lemma length_concat_blocks: "\<forall>b \<in> set bs. length b = k \<Longrightarrow> length (concat bs) = k * length bs"
  by (induction bs) auto

lemma concat_update:
  assumes "\<forall>b \<in> set bs. length b = k" "i < k * length bs"
  shows "concat (bs[i div k := (bs ! (i div k))[i mod k := v]]) = (concat bs)[i := v]"
  using assms
proof (induction bs arbitrary: i)
  case (Cons b bs)
  have k: "0 < k" using Cons.prems(2) by (cases k) auto
  show ?case
  proof (cases "i < k")
    case True
    then show ?thesis using Cons.prems by (simp add: list_update_append)
  next
    case False
    then have "concat (bs[(i - k) div k := (bs ! ((i - k) div k))[(i - k) mod k := v]]) = (concat bs)[i - k := v]"
      using Cons.prems by (intro Cons.IH) auto
    then show ?thesis using False Cons.prems k
      by (simp add: list_update_append le_div_geq le_mod_geq)
  qed
qed simp

text \<open>What the sorting steps keep: the shape of the structure.\<close>

definition gi_like :: "group_info \<Rightarrow> group_info \<Rightarrow> bool" where
  "gi_like gi gi' \<longleftrightarrow> gi_ok gi' \<and> ngroups gi' = ngroups gi \<and> usage gi' = usage gi
     \<and> on_pages gi' = on_pages gi \<and> nblocks gi' = nblocks gi"

lemma gi_likeD: "gi_like gi gi' \<Longrightarrow> gi_ok gi'" "gi_like gi gi' \<Longrightarrow> ngroups gi' = ngroups gi"
  by (simp_all add: gi_like_def)

lemma gi_like_refl: "gi_ok gi \<Longrightarrow> gi_like gi gi"
  by (simp add: gi_like_def)

lemma gi_like_trans: "gi_like a b \<Longrightarrow> gi_like b c \<Longrightarrow> gi_like a c"
  by (simp add: gi_like_def)

lemma gi_ok_cases:
  assumes "gi_ok gi"
  obtains k where "\<forall>b \<in> set (blocks gi). length b = k" "ngroups gi \<le> k * nblocks gi"
    "\<And>i. i < ngroups gi \<Longrightarrow> i div NGROUPS_PER_BLOCK = i div k \<and> i mod NGROUPS_PER_BLOCK = i mod k"
proof (cases "on_pages gi")
  case True
  then show ?thesis using assms that [of NGROUPS_PER_BLOCK] by (simp add: gi_ok_def)
next
  case False
  then obtain b where "blocks gi = [b]" "length b = NGROUPS_SMALL" "ngroups gi \<le> NGROUPS_SMALL"
    using assms by (auto simp: gi_ok_def nblocks_def length_Suc_conv)
  then show ?thesis using that [of NGROUPS_SMALL]
    by (simp add: nblocks_def NGROUPS_PER_BLOCK_def NGROUPS_SMALL_def)
qed

lemma length_gids: "gi_ok gi \<Longrightarrow> length (gids gi) = ngroups gi"
proof (erule gi_ok_cases)
  fix k assume k: "\<forall>b \<in> set (blocks gi). length b = k" "ngroups gi \<le> k * nblocks gi"
  show "length (gids gi) = ngroups gi"
    using k(2) length_concat_blocks [OF k(1)] by (simp add: gids_def nblocks_def)
qed

lemma block_index:
  assumes "i < k * (n :: nat)"
  shows "i div k < n" "i mod k < k"
proof -
  have "0 < k" using assms by (cases k) auto
  then show "i div k < n" "i mod k < k" using assms by (simp_all add: less_mult_imp_div_less mult.commute)
qed

lemma GROUP_AT_gids:
  assumes "gi_ok gi" "i < ngroups gi"
  shows "GROUP_AT gi i = Some (gids gi ! i)"
proof -
  obtain k where k: "\<forall>b \<in> set (blocks gi). length b = k" "ngroups gi \<le> k * nblocks gi"
    "\<And>i. i < ngroups gi \<Longrightarrow> i div NGROUPS_PER_BLOCK = i div k \<and> i mod NGROUPS_PER_BLOCK = i mod k"
    by (rule gi_ok_cases [OF assms(1)]) blast
  have i: "i < k * nblocks gi" using k assms(2) by simp
  then have "concat (blocks gi) ! i = blocks gi ! (i div k) ! (i mod k)"
    using concat_nth [OF k(1)] by (simp add: nblocks_def)
  moreover have "length (blocks gi ! (i div k)) = k" using k(1) block_index [OF i] by (simp add: nblocks_def)
  ultimately show ?thesis using k(3) [OF assms(2)] assms(2) block_index [OF i]
    by (simp add: GROUP_AT_def Let_def gids_def)
qed

lemma gi_ok_lengths:
  assumes "map length bs = map length (blocks gi)"
  shows "gi_ok (gi\<lparr>blocks := bs\<rparr>) = gi_ok gi" "length bs = length (blocks gi)"
proof -
  show l: "length bs = length (blocks gi)" using map_eq_imp_length_eq [OF assms] .
  have "length ` set bs = length ` set (blocks gi)" using assms by (metis list.set_map)
  then have "(\<forall>b \<in> set bs. length b = k) \<longleftrightarrow> (\<forall>b \<in> set (blocks gi). length b = k)" for k
    by (metis (mono_tags, lifting) imageE imageI)
  moreover have "length (blocks gi) = Suc 0 \<Longrightarrow> length (hd bs) = length (hd (blocks gi))"
    using assms l by (cases bs; cases "blocks gi") auto
  ultimately show "gi_ok (gi\<lparr>blocks := bs\<rparr>) = gi_ok gi"
    using l by (auto simp: gi_ok_def nblocks_def)
qed

lemma GROUP_SET_gids:
  assumes "gi_ok gi" "i < ngroups gi"
  obtains gi' where "GROUP_SET gi i v = Some gi'" "gi_like gi gi'" "gids gi' = (gids gi)[i := v]"
proof -
  obtain k where k: "\<forall>b \<in> set (blocks gi). length b = k" "ngroups gi \<le> k * nblocks gi"
    "\<And>i. i < ngroups gi \<Longrightarrow> i div NGROUPS_PER_BLOCK = i div k \<and> i mod NGROUPS_PER_BLOCK = i mod k"
    by (rule gi_ok_cases [OF assms(1)]) blast
  have i: "i < k * nblocks gi" using k assms(2) by simp
  note bi = block_index [OF i]
  have len: "length (blocks gi ! (i div k)) = k" using k(1) bi by (simp add: nblocks_def)
  define bs where "bs = (blocks gi)[i div k := (blocks gi ! (i div k))[i mod k := v]]"
  have "concat bs = (concat (blocks gi))[i := v]"
    using concat_update [OF k(1)] i by (simp add: nblocks_def bs_def)
  then have "gids (gi\<lparr>blocks := bs\<rparr>) = (gids gi)[i := v]" by (simp add: gids_def take_update_swap)
  moreover have "GROUP_SET gi i v = Some (gi\<lparr>blocks := bs\<rparr>)"
    using k(3) [OF assms(2)] bi len by (simp add: GROUP_SET_def Let_def bs_def)
  moreover have "map length bs = map length (blocks gi)"
    by (simp add: bs_def map_update) (metis list_update_id map_update)
  then have "gi_like gi (gi\<lparr>blocks := bs\<rparr>)"
    using assms(1) gi_ok_lengths [of bs gi] by (simp add: gi_like_def nblocks_def)
  ultimately show ?thesis using that by blast
qed

section \<open>Correctness of the sort\<close>

lemma shift_right_mset:
  assumes "gi_ok gi" "right < ngroups gi" "0 < stride" "left = int right - int stride"
  shows "\<exists>gi'. shift_right gi tmp stride left right = Some gi' \<and> gi_like gi gi'
    \<and> mset (gids gi') = mset ((gids gi)[right := tmp])"
  using assms
proof (induction right arbitrary: gi left rule: less_induct)
  case (less right)
  note len = length_gids [OF less.prems(1)]
  obtain g0 where g0: "GROUP_SET gi right tmp = Some g0" "gi_like gi g0" "gids g0 = (gids gi)[right := tmp]"
    using GROUP_SET_gids [OF less.prems(1,2)] .
  show ?case
  proof (cases "0 \<le> left \<and> tmp < gids gi ! nat left")
    case False
    then have "shift_right gi tmp stride left right = Some g0"
      using g0(1) GROUP_AT_gids [OF less.prems(1), of "nat left"] less.prems
      by (subst shift_right.simps) auto
    then show ?thesis using g0 by auto
  next
    case True
    define l where "l = nat left"
    have l: "l < right" "left = int l" "tmp < gids gi ! l" using True less.prems by (auto simp: l_def)
    obtain g1 where g1: "GROUP_SET gi right (gids gi ! l) = Some g1" "gi_like gi g1"
      "gids g1 = (gids gi)[right := gids gi ! l]"
      using GROUP_SET_gids [OF less.prems(1,2)] .
    have "\<exists>gi'. shift_right g1 tmp stride (left - int stride) l = Some gi' \<and> gi_like g1 gi'
        \<and> mset (gids gi') = mset ((gids g1)[l := tmp])"
      using g1(2) l less.prems by (intro less.IH) (auto simp: gi_like_def)
    then obtain gi' where gi': "shift_right g1 tmp stride (left - int stride) l = Some gi'" "gi_like g1 gi'"
      "mset (gids gi') = mset ((gids g1)[l := tmp])" by blast
    have "shift_right gi tmp stride left right = Some gi'"
      using l g1(1) gi'(1) GROUP_AT_gids [OF less.prems(1), of l] less.prems(2)
      by (subst shift_right.simps) simp
    moreover have "mset ((gids g1)[l := tmp]) = mset ((gids gi)[right := tmp])"
    proof -
      let ?xs = "(gids gi)[right := tmp]"
      have "(gids g1)[l := tmp] = ?xs[right := ?xs ! l, l := ?xs ! right]"
        using l(1) len less.prems(2) by (simp add: g1(3) list_update_swap)
      moreover have "mset (?xs[right := ?xs ! l, l := ?xs ! right]) = mset ?xs"
        using l(1) len less.prems(2) by (intro mset_swap) simp_all
      ultimately show ?thesis by metis
    qed
    ultimately show ?thesis using gi' gi_like_trans [OF g1(2) gi'(2)] by auto
  qed
qed

lemma sort_stride_mset:
  assumes "gi_ok gi" "0 < stride" "n = 0 \<or> base + n + stride \<le> ngroups gi"
  shows "\<exists>gi'. sort_stride gi stride base n = Some gi' \<and> gi_like gi gi' \<and> mset (gids gi') = mset (gids gi)"
  using assms
proof (induction n arbitrary: gi base)
  case 0
  then show ?case by (simp add: gi_like_refl)
next
  case (Suc n)
  let ?tmp = "gids gi ! (base + stride)"
  obtain g1 where g1: "shift_right gi ?tmp stride (int base) (base + stride) = Some g1" "gi_like gi g1"
    "mset (gids g1) = mset (gids gi)"
    using shift_right_mset [of gi "base + stride" stride "int base" ?tmp] Suc.prems by auto
  have "\<exists>gi'. sort_stride g1 stride (base + 1) n = Some gi' \<and> gi_like g1 gi' \<and> mset (gids gi') = mset (gids g1)"
    using g1(2) Suc.prems by (intro Suc.IH) (auto simp: gi_like_def)
  then show ?case using g1 gi_like_trans [OF g1(2)] GROUP_AT_gids [of gi "base + stride"] Suc.prems by auto
qed

text \<open>With the stride 1 the inner loop inserts into the sorted part on the left.\<close>

lemma shift_right_insert:
  assumes "gi_ok gi" "gids gi = ys @ x # zs"
  shows "\<exists>gi' us vs. shift_right gi tmp 1 (int (length ys) - 1) (length ys) = Some gi' \<and> gi_like gi gi'
    \<and> ys = us @ vs \<and> gids gi' = us @ tmp # vs @ zs \<and> (\<forall>v \<in> set vs. tmp < v) \<and> (us \<noteq> [] \<longrightarrow> last us \<le> tmp)"
  using assms
proof (induction ys arbitrary: gi x zs rule: rev_induct)
  case Nil
  have "0 < ngroups gi" using length_gids [OF Nil.prems(1)] Nil.prems(2) by simp
  from GROUP_SET_gids [OF Nil.prems(1) this] obtain g0
    where "GROUP_SET gi 0 tmp = Some g0" "gi_like gi g0" "gids g0 = (gids gi)[0 := tmp]" .
  then show ?case using Nil.prems(2) by (subst shift_right.simps) simp
next
  case (snoc y ys)
  have len: "length ys + 1 < ngroups gi" using length_gids [OF snoc.prems(1)] snoc.prems(2) by simp
  have y: "GROUP_AT gi (length ys) = Some y"
    using GROUP_AT_gids [OF snoc.prems(1), of "length ys"] len snoc.prems(2) by (simp add: nth_append)
  show ?case
  proof (cases "tmp < y")
    case True
    from GROUP_SET_gids [OF snoc.prems(1) len] obtain g1
      where g1: "GROUP_SET gi (length ys + 1) y = Some g1" "gi_like gi g1" "gids g1 = (gids gi)[length ys + 1 := y]" .
    then have "gids g1 = ys @ y # (y # zs)" using snoc.prems(2) by (simp add: list_update_append)
    from snoc.IH [OF gi_likeD(1) [OF g1(2)] this] obtain gi' us vs
      where ih: "shift_right g1 tmp 1 (int (length ys) - 1) (length ys) = Some gi'" "gi_like g1 gi'"
        "ys = us @ vs" "gids gi' = us @ tmp # vs @ y # zs" "\<forall>v \<in> set vs. tmp < v" "us \<noteq> [] \<longrightarrow> last us \<le> tmp" by blast
    have "shift_right gi tmp 1 (int (length (ys @ [y])) - 1) (length (ys @ [y])) = Some gi'"
      using y True g1(1) ih(1) by (subst shift_right.simps) simp
    then show ?thesis using ih True gi_like_trans [OF g1(2) ih(2)]
      by (intro exI [of _ gi'] exI [of _ us] exI [of _ "vs @ [y]"]) auto
  next
    case False
    from GROUP_SET_gids [OF snoc.prems(1) len] obtain g1
      where g1: "GROUP_SET gi (length ys + 1) tmp = Some g1" "gi_like gi g1" "gids g1 = (gids gi)[length ys + 1 := tmp]" .
    then have "shift_right gi tmp 1 (int (length (ys @ [y])) - 1) (length (ys @ [y])) = Some g1"
      using y False by (subst shift_right.simps) simp
    then show ?thesis using g1 False snoc.prems(2)
      by (intro exI [of _ g1] exI [of _ "ys @ [y]"] exI [of _ "[]"]) (simp add: list_update_append)
  qed
qed

lemma sort_stride_1:
  assumes "gi_ok gi" "base + n + 1 = ngroups gi" "sorted (take (base + 1) (gids gi))"
    "sort_stride gi 1 base n = Some gi'"
  shows "sorted (gids gi')"
  using assms
proof (induction n arbitrary: gi base)
  case 0
  then show ?case by (simp add: length_gids)
next
  case (Suc n)
  define ys where "ys = take (base + 1) (gids gi)"
  define tmp where "tmp = gids gi ! (base + 1)"
  have len: "length (gids gi) = base + n + 2" using Suc.prems(1,2) length_gids by simp
  then have xs: "gids gi = ys @ tmp # drop (base + 2) (gids gi)" "length ys = base + 1"
    by (simp_all add: ys_def tmp_def Cons_nth_drop_Suc)
  from shift_right_insert [OF Suc.prems(1) xs(1), of tmp] obtain g1 us vs
    where g1: "shift_right gi tmp 1 (int base) (base + 1) = Some g1" "gi_like gi g1" "ys = us @ vs"
      "gids g1 = us @ tmp # vs @ drop (base + 2) (gids gi)" "\<forall>v \<in> set vs. tmp < v" "us \<noteq> [] \<longrightarrow> last us \<le> tmp"
    using xs(2) by auto
  have "sorted ys" using Suc.prems(3) by (simp add: ys_def)
  then have us: "sorted us" "sorted vs" "\<forall>u \<in> set us. \<forall>v \<in> set vs. u \<le> v"
    by (simp_all add: g1(3) sorted_append)
  have "\<forall>u \<in> set us. u \<le> tmp"
  proof (cases us rule: rev_cases)
    case (snoc us' u)
    then have "\<forall>w \<in> set us. w \<le> u" using us(1) by (auto simp: sorted_append)
    then show ?thesis using g1(6) snoc by auto
  qed simp
  then have "sorted (us @ tmp # vs)" using us g1(5) by (auto simp: sorted_append)
  moreover have l: "base + 1 + 1 = length (us @ tmp # vs)" using xs(2) g1(3) by simp
  have "take (base + 1 + 1) (gids g1) = us @ tmp # vs" unfolding l g1(4) by simp
  ultimately have "sorted (take (base + 1 + 1) (gids g1))" by simp
  moreover have "sort_stride g1 1 (base + 1) n = Some gi'"
    using Suc.prems(1,2,4) g1(1) GROUP_AT_gids [of gi "base + 1"] by (simp add: tmp_def)
  ultimately show ?case using Suc.IH [of g1 "base + 1"] g1(2) Suc.prems(2) by (simp add: gi_like_def)
qed

text \<open>The strides of the loops.\<close>

primrec knuth :: "nat \<Rightarrow> nat" where
  "knuth 0 = 0"
| "knuth (Suc k) = 3 * knuth k + 1"

lemma knuth_div [simp]: "Suc (3 * knuth k) div 3 = knuth k"
  by simp

lemma first_stride_knuth: "\<exists>j. first_stride n (knuth (Suc k)) = knuth (Suc j) \<and> n \<le> knuth (Suc j)"
proof (induction "n - knuth (Suc k)" arbitrary: k rule: less_induct)
  case less
  show ?case
  proof (cases "knuth (Suc k) < n")
    case True
    then have "n - knuth (Suc (Suc k)) < n - knuth (Suc k)" by simp
    from less [OF this] True show ?thesis by (subst first_stride.simps) simp
  next
    case False
    then show ?thesis by (subst first_stride.simps) (auto intro!: exI [of _ k])
  qed
qed

lemma sort_strides_knuth:
  assumes "gi_ok gi"
  shows "\<exists>gi'. sort_strides gi (knuth k) = Some gi' \<and> gi_like gi gi' \<and> mset (gids gi') = mset (gids gi)
    \<and> (k = 0 \<longrightarrow> gi' = gi) \<and> (0 < k \<longrightarrow> sorted (gids gi'))"
  using assms
proof (induction k arbitrary: gi)
  case 0
  then show ?case by (subst sort_strides.simps) (simp add: gi_like_refl)
next
  case (Suc k)
  let ?s = "knuth (Suc k)"
  obtain g1 where g1: "sort_stride gi ?s 0 (ngroups gi - ?s) = Some g1" "gi_like gi g1" "mset (gids g1) = mset (gids gi)"
  proof -
    have "ngroups gi - ?s = 0 \<or> 0 + (ngroups gi - ?s) + ?s \<le> ngroups gi" by linarith
    then show ?thesis using sort_stride_mset [of gi ?s "ngroups gi - ?s" 0] Suc.prems that by auto
  qed
  obtain g2 where g2: "sort_strides g1 (knuth k) = Some g2" "gi_like g1 g2" "mset (gids g2) = mset (gids g1)"
    "k = 0 \<longrightarrow> g2 = g1" "0 < k \<longrightarrow> sorted (gids g2)"
    using Suc.IH [OF gi_likeD(1) [OF g1(2)]] by blast
  have "sort_strides gi ?s = Some g2" using g1(1) g2(1) by (subst sort_strides.simps) simp
  moreover have "sorted (gids g1)" if "k = 0"
  proof (cases "ngroups gi = 0")
    case True
    then show ?thesis using length_gids [OF gi_likeD(1) [OF g1(2)]] gi_likeD(2) [OF g1(2)] by simp
  next
    case False
    have "sorted (take (0 + 1) (gids gi))" by (cases "gids gi") simp_all
    then show ?thesis using sort_stride_1 [of gi 0 "ngroups gi - 1" g1] Suc.prems g1(1) that False by simp
  qed
  ultimately show ?case using g1 g2 gi_like_trans [OF g1(2) g2(2)] by auto
qed

lemma groups_sort_sorts:
  assumes "gi_ok gi"
  obtains gi' where "groups_sort gi = Some gi'" "gi_like gi gi'" "mset (gids gi') = mset (gids gi)" "sorted (gids gi')"
proof -
  obtain j where j: "first_stride (ngroups gi) 1 = knuth (Suc j)" "ngroups gi \<le> knuth (Suc j)"
    using first_stride_knuth [of "ngroups gi" 0] by auto
  have "groups_sort gi = sort_strides gi (knuth j)" unfolding groups_sort_def j(1) by simp
  moreover obtain gi' where gi': "sort_strides gi (knuth j) = Some gi'" "gi_like gi gi'"
    "mset (gids gi') = mset (gids gi)" "j = 0 \<longrightarrow> gi' = gi" "0 < j \<longrightarrow> sorted (gids gi')"
    using sort_strides_knuth [OF assms] by blast
  moreover have "sorted (gids gi')"
  proof (cases "j = 0")
    case True
    then have "length (gids gi') \<le> 1" using j(2) gi'(4) length_gids [OF assms] by simp
    then show ?thesis by (cases "gids gi'") auto
  qed (use gi' in simp)
  ultimately show ?thesis using that by simp
qed

lemma bsearch_sorted:
  assumes "gi_ok gi" "sorted (gids gi)" "right \<le> ngroups gi"
  shows "bsearch gi grp left right = Some (\<exists>i. left \<le> i \<and> i < right \<and> gids gi ! i = grp)"
  using assms(3)
proof (induction "right - left" arbitrary: left right rule: less_induct)
  case less
  define mid where "mid = (left + right) div 2"
  have mono: "i \<le> j \<Longrightarrow> j < ngroups gi \<Longrightarrow> gids gi ! i \<le> gids gi ! j" for i j
    using sorted_nth_mono [OF assms(2)] length_gids [OF assms(1)] by simp
  show ?case
  proof (cases "left < right")
    case False
    then show ?thesis by (subst bsearch.simps) auto
  next
    case True
    then have m: "left \<le> mid" "mid < right" by (auto simp: mid_def)
    let ?g = "gids gi ! mid"
    have at: "GROUP_AT gi mid = Some ?g" using m less.prems GROUP_AT_gids [OF assms(1)] by simp
    consider (lt) "?g < grp" | (gt) "grp < ?g" | (eq) "?g = grp" by force
    then show ?thesis
    proof cases
      case lt
      have "i < mid + 1 \<Longrightarrow> gids gi ! i \<noteq> grp" for i using mono [of i mid] m less.prems lt by force
      then have "(mid + 1 \<le> i \<and> i < right \<and> gids gi ! i = grp) = (left \<le> i \<and> i < right \<and> gids gi ! i = grp)" for i
        using m by (cases "i < mid + 1") auto
      moreover have "bsearch gi grp (mid + 1) right = Some (\<exists>i. mid + 1 \<le> i \<and> i < right \<and> gids gi ! i = grp)"
        using m less.prems by (intro less.hyps) auto
      ultimately show ?thesis using True at lt
        by (subst bsearch.simps) (simp only: Let_def mid_def [symmetric] option.case if_True)
    next
      case gt
      have "mid \<le> i \<Longrightarrow> i < right \<Longrightarrow> gids gi ! i \<noteq> grp" for i using mono [of mid i] less.prems gt by force
      then have "(left \<le> i \<and> i < mid \<and> gids gi ! i = grp) = (left \<le> i \<and> i < right \<and> gids gi ! i = grp)" for i
        using m by (cases "i < mid") auto
      moreover have "bsearch gi grp left mid = Some (\<exists>i. left \<le> i \<and> i < mid \<and> gids gi ! i = grp)"
        using m less.prems by (intro less.hyps) auto
      ultimately show ?thesis using True at gt less_not_sym [OF gt]
        by (subst bsearch.simps) (simp only: Let_def mid_def [symmetric] option.case if_True if_False)
    next
      case eq
      then have "\<exists>i. left \<le> i \<and> i < right \<and> gids gi ! i = grp" using m by blast
      then show ?thesis using True at eq
        by (subst bsearch.simps) (simp add: Let_def mid_def [symmetric])
    qed
  qed
qed

lemma groups_search_sorted:
  assumes "gi_ok gi" "sorted (gids gi)"
  shows "groups_search (Some gi) grp = Some (grp \<in> set (gids gi))"
  using bsearch_sorted [OF assms, of "ngroups gi" grp 0] length_gids [OF assms(1)]
  by (auto simp: groups_search_def in_set_conv_nth)

section \<open>Allocation and user memory\<close>

lemma alloc_pages_Inr: "alloc_pages al i n = Inr bs \<Longrightarrow> length bs = n \<and> (\<forall>b \<in> set bs. length b = NGROUPS_PER_BLOCK)"
  by (induction al i n arbitrary: bs rule: alloc_pages.induct) (auto split: if_splits sum.splits)

lemma undo_pages_eq [simp]: "undo_pages i = i"
  by (induction i) auto

lemma groups_alloc_ok: "groups_alloc al n = (Some gi, live) \<Longrightarrow>
    gi_ok gi \<and> ngroups gi = n \<and> usage gi = 1 \<and> groups_free gi = live"
  by (auto simp: groups_alloc_def Let_def gi_ok_def nblocks_def groups_free_def NGROUPS_PER_BLOCK_def
        dest!: alloc_pages_Inr split: if_splits sum.splits)

lemma copy_to_user_mapped:
  "\<forall>i < length xs. m (p + i) \<noteq> None \<Longrightarrow>
   copy_to_user m p xs = ((\<lambda>a. if p \<le> a \<and> a < p + length xs then Some (xs ! (a - p)) else m a), 0)"
proof (induction xs arbitrary: m p)
  case Nil
  then show ?case by (auto simp: fun_eq_iff)
next
  case (Cons x xs)
  define m1 where "m1 = m(p \<mapsto> x)"
  have "\<forall>i < length xs. m1 (p + 1 + i) \<noteq> None" and "m p \<noteq> None"
    using Cons.prems by (auto simp: All_less_Suc2 m1_def)
  then have "copy_to_user m p (x # xs) =
      ((\<lambda>a. if p + 1 \<le> a \<and> a < p + 1 + length xs then Some (xs ! (a - (p + 1))) else m1 a), 0)"
    using Cons.IH [of m1 "p + 1"] by (simp add: m1_def [symmetric])
  moreover have "(if p + 1 \<le> a \<and> a < p + 1 + length xs then Some (xs ! (a - (p + 1))) else m1 a) =
      (if p \<le> a \<and> a < p + length (x # xs) then Some ((x # xs) ! (a - p)) else m a)" for a
    by (cases "p + 1 \<le> a") (auto simp: nth_Cons' m1_def)
  ultimately show ?case by presburger
qed

lemma copy_from_user_Some: "copy_from_user m p n = Some xs \<Longrightarrow> length xs = n \<and> (\<forall>i < n. m (p + i) = Some (xs ! i))"
proof (induction n arbitrary: p xs)
  case (Suc n)
  then obtain y ys where "m p = Some y" "copy_from_user m (p + 1) n = Some ys" "xs = y # ys"
    by (auto elim!: bind_SomeE)
  then show ?case using Suc.IH [of "p + 1" ys] by (simp add: All_less_Suc2)
qed simp

lemma from_user_blocks_Some:
  assumes "from_user_blocks m p bs n = Some bs'" "\<forall>b \<in> set bs. length b = NGROUPS_PER_BLOCK"
    "n \<le> NGROUPS_PER_BLOCK * length bs"
  shows "map length bs' = map length bs \<and> (\<forall>i < n. m (p + i) = Some (concat bs' ! i))"
  using assms
proof (induction bs arbitrary: p n bs')
  case (Cons b bs)
  let ?k = NGROUPS_PER_BLOCK
  let ?c = "min ?k n"
  obtain xs bs1 where r: "copy_from_user m p ?c = Some xs" "from_user_blocks m (p + ?k) bs (n - ?c) = Some bs1"
    "bs' = (xs @ drop ?c b) # bs1"
    using Cons.prems(1) by (auto simp: Let_def elim!: bind_SomeE)
  note xs = copy_from_user_Some [OF r(1)]
  have ih: "map length bs1 = map length bs" "\<forall>i < n - ?c. m (p + ?k + i) = Some (concat bs1 ! i)"
    using Cons.IH [OF r(2)] Cons.prems by auto
  have len: "length (xs @ drop ?c b) = ?k" using xs Cons.prems(2) by auto
  have "m (p + i) = Some (concat bs' ! i)" if "i < n" for i
  proof (cases "i < ?k")
    case True
    then show ?thesis using xs that by (simp add: r(3) nth_append)
  next
    case False
    then have "i - ?k < n - ?c" using that by simp
    then have "m (p + ?k + (i - ?k)) = Some (concat bs1 ! (i - ?k))" using ih(2) by blast
    then show ?thesis using False len
      by (simp add: r(3) nth_append [of "xs @ drop ?c b" "concat bs1"] del: append_assoc)
  qed
  then show ?case using ih len Cons.prems(2) by (simp add: r(3))
qed simp

lemma groups_from_user_ok:
  assumes "gi_ok gi" "groups_from_user gi m p = Some gi'"
  shows "gi_like gi gi'" "\<forall>i < ngroups gi. m (p + i) = Some (gids gi' ! i)"
proof -
  obtain bs where bs: "from_user_blocks m p (blocks gi) (ngroups gi) = Some bs" "gi' = gi\<lparr>blocks := bs\<rparr>"
    using assms(2) by (auto simp: groups_from_user_def elim!: bind_SomeE)
  have *: "map length bs = map length (blocks gi) \<and> (\<forall>i < ngroups gi. m (p + i) = Some (concat bs ! i))"
  proof (cases "on_pages gi")
    case True
    then show ?thesis using from_user_blocks_Some [OF bs(1)] assms(1) by (simp add: gi_ok_def nblocks_def)
  next
    case False
    then obtain b where b: "blocks gi = [b]" "length b = NGROUPS_SMALL" "ngroups gi \<le> NGROUPS_SMALL"
      using assms(1) by (auto simp: gi_ok_def nblocks_def length_Suc_conv)
    then have c: "min NGROUPS_PER_BLOCK (ngroups gi) = ngroups gi"
      by (simp add: NGROUPS_SMALL_def NGROUPS_PER_BLOCK_def)
    obtain xs where "copy_from_user m p (ngroups gi) = Some xs" "bs = [xs @ drop (ngroups gi) b]"
      using bs(1) b(1) c by (auto simp: Let_def elim!: bind_SomeE)
    then show ?thesis using copy_from_user_Some [of m p "ngroups gi" xs] b by (simp add: nth_append)
  qed
  show "gi_like gi gi'"
    using * gi_ok_lengths [of bs gi] assms(1) by (simp add: bs(2) gi_like_def nblocks_def)
  show "\<forall>i < ngroups gi. m (p + i) = Some (gids gi' ! i)" using * by (simp add: bs(2) gids_def)
qed

lemma to_user_blocks_mapped:
  assumes "\<forall>b \<in> set bs. length b = NGROUPS_PER_BLOCK" "n \<le> NGROUPS_PER_BLOCK * length bs"
    "\<forall>i < n. m (p + i) \<noteq> None"
  shows "to_user_blocks m p bs n = ((\<lambda>a. if p \<le> a \<and> a < p + n then Some (concat bs ! (a - p)) else m a), 0)"
  using assms
proof (induction bs arbitrary: m p n)
  case Nil
  then show ?case by (auto simp: fun_eq_iff)
next
  case (Cons b bs)
  let ?k = NGROUPS_PER_BLOCK
  let ?c = "min ?k n"
  let ?m = "\<lambda>a. if p \<le> a \<and> a < p + ?c then Some (b ! (a - p)) else m a"
  have b: "length b = ?k" using Cons.prems(1) by simp
  have "copy_to_user m p (take ?c b) = (?m, 0)"
    using copy_to_user_mapped [of "take ?c b" m p] Cons.prems(3) b by (auto simp: fun_eq_iff min_def)
  then have "to_user_blocks m p (b # bs) n = to_user_blocks ?m (p + ?k) bs (n - ?c)"
    by (simp add: Let_def)
  also have "\<dots> = ((\<lambda>a. if p + ?k \<le> a \<and> a < p + ?k + (n - ?c) then Some (concat bs ! (a - (p + ?k))) else ?m a), 0)"
  proof (rule Cons.IH)
    show "\<forall>i < n - ?c. ?m (p + ?k + i) \<noteq> None" using Cons.prems(3) by (auto simp: add.assoc)
  qed (use Cons.prems in auto)
  finally have "to_user_blocks m p (b # bs) n = \<dots>" .
  moreover have "(if p + ?k \<le> a \<and> a < p + ?k + (n - ?c) then Some (concat bs ! (a - (p + ?k))) else ?m a) =
      (if p \<le> a \<and> a < p + n then Some (concat (b # bs) ! (a - p)) else m a)" for a
    using b by (cases "p + ?k \<le> a") (auto simp: nth_append min_def)
  ultimately show ?case by presburger
qed

lemma groups_to_user_ok:
  assumes "gi_ok gi" "\<forall>i < ngroups gi. m (p + i) \<noteq> None"
  shows "groups_to_user m p gi =
    ((\<lambda>a. if p \<le> a \<and> a < p + ngroups gi then Some (gids gi ! (a - p)) else m a), 0)"
proof (cases "on_pages gi")
  case True
  then show ?thesis using to_user_blocks_mapped [of "blocks gi" "ngroups gi" m p] assms
    by (auto simp: groups_to_user_def gi_ok_def nblocks_def gids_def fun_eq_iff)
next
  case False
  then obtain b where b: "blocks gi = [b]" "length b = NGROUPS_SMALL" "ngroups gi \<le> NGROUPS_SMALL"
    using assms(1) by (auto simp: gi_ok_def nblocks_def length_Suc_conv)
  then have "min NGROUPS_PER_BLOCK (ngroups gi) = ngroups gi"
    by (simp add: NGROUPS_SMALL_def NGROUPS_PER_BLOCK_def)
  then show ?thesis using b copy_to_user_mapped [of "take (ngroups gi) b" m p] assms(2)
    by (auto simp: groups_to_user_def gids_def fun_eq_iff Let_def)
qed


section \<open>Properties\<close>

text \<open>
  \<^verbatim>\<open>groups_sort\<close> sorts. On every well-formed structure the Shell sort returns without leaving the blocks,
  keeps the identifiers as a multiset and the shape of the structure, and brings them into ascending
  order; and the binary search of \<^verbatim>\<open>groups_search\<close> in the result ends and decides membership in the
  original list.
\<close>

lemma groups_sort_search:
  assumes "gi_ok gi"
  shows "\<exists>gi'. groups_sort gi = Some gi' \<and> gi_ok gi' \<and> ngroups gi' = ngroups gi
    \<and> sorted (gids gi') \<and> mset (gids gi') = mset (gids gi)
    \<and> (\<forall>grp. groups_search (Some gi') grp = Some (grp \<in> set (gids gi)))"
proof (rule groups_sort_sorts [OF assms])
  fix gi' assume gi': "groups_sort gi = Some gi'" "gi_like gi gi'" "mset (gids gi') = mset (gids gi)" "sorted (gids gi')"
  then show ?thesis using groups_search_sorted [OF gi_likeD(1) [OF gi'(2)] gi'(4)] mset_eq_setD [OF gi'(3)]
    by (auto simp: gi_like_def)
qed

definition demo_groups :: group_info where
  "demo_groups = \<lparr>usage = 1, ngroups = 5, on_pages = False, blocks = [[30, 10, 50, 20, 10] @ replicate 27 0]\<rparr>"

end
