(* ===== verification/Creds.thy ===== *)
theory Creds
  imports Group_Info
begin

unbundle bit_operations_syntax

text \<open>
  Credentials: the capability sets of include/linux/capability.h, the capability checks of
  security/commoncap.c and kernel/capability.c, and the system calls of kernel/sys.c and
  kernel/groups.c that change the identifiers of a process. The security hooks are those of the
  capability module. A \<^verbatim>\<open>struct cred\<close> is a value: the system calls copy it (\<^verbatim>\<open>prepare_creds\<close>), change the
  copy, and install it (\<^verbatim>\<open>commit_creds\<close>) or drop it (\<^verbatim>\<open>abort_creds\<close>), so reference counts and keyrings do not
  occur. A \<^verbatim>\<open>user_struct\<close> is named by its user identifier. The outcome of the allocations is an argument.
\<close>

section \<open>Capability sets\<close>

record kernel_cap_t =
  cap0 :: u32
  cap1 :: u32

definition CAP_SETGID :: nat where "CAP_SETGID = 6"
definition CAP_SETUID :: nat where "CAP_SETUID = 7"
definition CAP_SETPCAP :: nat where "CAP_SETPCAP = 8"
definition CAP_LAST_CAP :: nat where "CAP_LAST_CAP = 33"

definition cap_word :: "kernel_cap_t \<Rightarrow> nat \<Rightarrow> u32" where
  "cap_word c i = (if i = 0 then cap0 c else cap1 c)"

definition CAP_TO_INDEX :: "nat \<Rightarrow> nat" where "CAP_TO_INDEX x = drop_bit 5 x"

definition CAP_TO_MASK :: "nat \<Rightarrow> u32" where "CAP_TO_MASK x = push_bit (x AND 31) 1"

definition cap_valid :: "nat \<Rightarrow> bool" where "cap_valid x \<longleftrightarrow> x \<le> CAP_LAST_CAP"

definition CAP_EMPTY_SET :: kernel_cap_t where "CAP_EMPTY_SET = \<lparr>cap0 = 0, cap1 = 0\<rparr>"

definition CAP_FULL_SET :: kernel_cap_t where "CAP_FULL_SET = \<lparr>cap0 = - 1, cap1 = - 1\<rparr>"

text \<open>The capabilities 0 to 4 (chown, dac\_override, dac\_read\_search, fowner, fsetid), 9 (linux\_immutable),
  27 (mknod) and 32 (mac\_override).\<close>

definition CAP_FS_SET :: kernel_cap_t where
  "CAP_FS_SET = \<lparr>cap0 = CAP_TO_MASK 0 OR CAP_TO_MASK 27 OR CAP_TO_MASK 1 OR CAP_TO_MASK 2 OR CAP_TO_MASK 3
     OR CAP_TO_MASK 4 OR CAP_TO_MASK 9, cap1 = CAP_TO_MASK 32\<rparr>"

definition cap_raised :: "kernel_cap_t \<Rightarrow> nat \<Rightarrow> bool" where
  "cap_raised c flag \<longleftrightarrow> cap_word c (CAP_TO_INDEX flag) AND CAP_TO_MASK flag \<noteq> 0"

definition cap_lower :: "kernel_cap_t \<Rightarrow> nat \<Rightarrow> kernel_cap_t" where
  "cap_lower c flag = (if CAP_TO_INDEX flag = 0 then c\<lparr>cap0 := cap0 c AND NOT (CAP_TO_MASK flag)\<rparr>
     else c\<lparr>cap1 := cap1 c AND NOT (CAP_TO_MASK flag)\<rparr>)"

definition cap_combine :: "kernel_cap_t \<Rightarrow> kernel_cap_t \<Rightarrow> kernel_cap_t" where
  "cap_combine a b = \<lparr>cap0 = cap0 a OR cap0 b, cap1 = cap1 a OR cap1 b\<rparr>"

definition cap_intersect :: "kernel_cap_t \<Rightarrow> kernel_cap_t \<Rightarrow> kernel_cap_t" where
  "cap_intersect a b = \<lparr>cap0 = cap0 a AND cap0 b, cap1 = cap1 a AND cap1 b\<rparr>"

definition cap_drop :: "kernel_cap_t \<Rightarrow> kernel_cap_t \<Rightarrow> kernel_cap_t" where
  "cap_drop a d = \<lparr>cap0 = cap0 a AND NOT (cap0 d), cap1 = cap1 a AND NOT (cap1 d)\<rparr>"

definition cap_isclear :: "kernel_cap_t \<Rightarrow> bool" where
  "cap_isclear a \<longleftrightarrow> cap0 a = 0 \<and> cap1 a = 0"

definition cap_issubset :: "kernel_cap_t \<Rightarrow> kernel_cap_t \<Rightarrow> bool" where
  "cap_issubset a s \<longleftrightarrow> cap_isclear (cap_drop a s)"

definition cap_drop_fs_set :: "kernel_cap_t \<Rightarrow> kernel_cap_t" where
  "cap_drop_fs_set a = cap_drop a CAP_FS_SET"

definition cap_raise_fs_set :: "kernel_cap_t \<Rightarrow> kernel_cap_t \<Rightarrow> kernel_cap_t" where
  "cap_raise_fs_set a permitted = cap_combine a (cap_intersect permitted CAP_FS_SET)"

section \<open>Credentials\<close>

record cred =
  cr_uid :: u32
  cr_gid :: u32
  cr_suid :: u32
  cr_sgid :: u32
  cr_euid :: u32
  cr_egid :: u32
  cr_fsuid :: u32
  cr_fsgid :: u32
  cr_securebits :: u32
  cap_inheritable :: kernel_cap_t
  cap_permitted :: kernel_cap_t
  cap_effective :: kernel_cap_t
  cap_bset :: kernel_cap_t
  cr_user :: u32
  cr_groups :: group_info

text \<open>The current process, and the process counts of the users.\<close>

record cstate =
  cred_of :: cred
  superpriv :: bool
  has_mm :: bool
  dumpable :: int
  pdeath_signal :: int
  processes :: "u32 \<Rightarrow> nat"
  rlim_nproc :: nat
  suid_dumpable :: int

record calloc =
  cred_ok :: bool
  user_ok :: bool
  groups_mem :: galloc

definition prepare_creds :: "calloc \<Rightarrow> cstate \<Rightarrow> cred option" where
  "prepare_creds al s = (if cred_ok al then Some (cred_of s) else None)"

definition commit_creds :: "cstate \<Rightarrow> cred \<Rightarrow> cstate \<times> int" where
  "commit_creds s new =
     (let old = cred_of s;
          s1 = (if cr_euid old \<noteq> cr_euid new \<or> cr_egid old \<noteq> cr_egid new \<or> cr_fsuid old \<noteq> cr_fsuid new
                   \<or> cr_fsgid old \<noteq> cr_fsgid new \<or> \<not> cap_issubset (cap_permitted new) (cap_permitted old)
                then s\<lparr>dumpable := (if has_mm s then suid_dumpable s else dumpable s), pdeath_signal := 0\<rparr> else s);
          s2 = (if cr_user new \<noteq> cr_user old
                then s1\<lparr>processes := (processes s1)(cr_user new := processes s1 (cr_user new) + 1)\<rparr> else s1);
          s3 = s2\<lparr>cred_of := new\<rparr>;
          s4 = (if cr_user new \<noteq> cr_user old
                then s3\<lparr>processes := (processes s3)(cr_user old := processes s3 (cr_user old) - 1)\<rparr> else s3)
      in (s4, 0))"

definition capable :: "cstate \<Rightarrow> nat \<Rightarrow> cstate \<times> bool" where
  "capable s cap =
     (if cap_raised (cap_effective (cred_of s)) cap then (s\<lparr>superpriv := True\<rparr>, True) else (s, False))"

text \<open>\<^verbatim>\<open>b || capable(cap)\<close>: the capability is asked for only if \<open>b\<close> is false.\<close>

definition or_capable :: "cstate \<Rightarrow> bool \<Rightarrow> nat \<Rightarrow> cstate \<times> bool" where
  "or_capable s b cap = (if b then (s, True) else capable s cap)"

definition SECURE_NO_SETUID_FIXUP :: nat where "SECURE_NO_SETUID_FIXUP = 2"
definition SECURE_KEEP_CAPS :: nat where "SECURE_KEEP_CAPS = 4"
definition SECURE_KEEP_CAPS_LOCKED :: nat where "SECURE_KEEP_CAPS_LOCKED = 5"

definition issecure_mask :: "nat \<Rightarrow> u32" where "issecure_mask x = push_bit x 1"

definition issecure :: "cstate \<Rightarrow> nat \<Rightarrow> bool" where
  "issecure s x \<longleftrightarrow> issecure_mask x AND cr_securebits (cred_of s) \<noteq> 0"

datatype setid_flag = LSM_SETID_ID | LSM_SETID_RE | LSM_SETID_RES | LSM_SETID_FS

definition cap_emulate_setxuid :: "cstate \<Rightarrow> cred \<Rightarrow> cred \<Rightarrow> cred" where
  "cap_emulate_setxuid s new old =
     (let new1 = (if (cr_uid old = 0 \<or> cr_euid old = 0 \<or> cr_suid old = 0)
                    \<and> (cr_uid new \<noteq> 0 \<and> cr_euid new \<noteq> 0 \<and> cr_suid new \<noteq> 0) \<and> \<not> issecure s SECURE_KEEP_CAPS
                  then new\<lparr>cap_permitted := CAP_EMPTY_SET, cap_effective := CAP_EMPTY_SET\<rparr> else new);
          new2 = (if cr_euid old = 0 \<and> cr_euid new1 \<noteq> 0 then new1\<lparr>cap_effective := CAP_EMPTY_SET\<rparr> else new1)
      in if cr_euid old \<noteq> 0 \<and> cr_euid new2 = 0 then new2\<lparr>cap_effective := cap_permitted new2\<rparr> else new2)"

text \<open>It always returns 0 for the four flags; the result is the changed copy.\<close>

definition cap_task_fix_setuid :: "cstate \<Rightarrow> cred \<Rightarrow> cred \<Rightarrow> setid_flag \<Rightarrow> cred" where
  "cap_task_fix_setuid s new old flags = (case flags of
     LSM_SETID_FS \<Rightarrow>
       if \<not> issecure s SECURE_NO_SETUID_FIXUP then
         let new1 = (if cr_fsuid old = 0 \<and> cr_fsuid new \<noteq> 0
                     then new\<lparr>cap_effective := cap_drop_fs_set (cap_effective new)\<rparr> else new)
         in if cr_fsuid old \<noteq> 0 \<and> cr_fsuid new1 = 0
            then new1\<lparr>cap_effective := cap_raise_fs_set (cap_effective new1) (cap_permitted new1)\<rparr> else new1
       else new
   | _ \<Rightarrow> if \<not> issecure s SECURE_NO_SETUID_FIXUP then cap_emulate_setxuid s new old else new)"

text \<open>\<^verbatim>\<open>alloc_uid\<close> may fail; the user with identifier 0 is \<^verbatim>\<open>INIT_USER\<close>. The error is \<^verbatim>\<open>-EAGAIN\<close>.\<close>

definition set_user :: "calloc \<Rightarrow> cstate \<Rightarrow> cred \<Rightarrow> int + cred" where
  "set_user al s new =
     (if \<not> user_ok al then Inl (- EAGAIN)
      else if rlim_nproc s \<le> processes s (cr_uid new) \<and> cr_uid new \<noteq> 0 then Inl (- EAGAIN)
      else Inr (new\<lparr>cr_user := cr_uid new\<rparr>))"

section \<open>The system calls of kernel/sys.c\<close>

definition setregid :: "calloc \<Rightarrow> cstate \<Rightarrow> u32 \<Rightarrow> u32 \<Rightarrow> cstate \<times> int" where
  "setregid al s rgid egid = (case prepare_creds al s of None \<Rightarrow> (s, - ENOMEM) | Some new \<Rightarrow>
     let old = cred_of s;
         (s1, ok1) = (if rgid \<noteq> - 1 then or_capable s (cr_gid old = rgid \<or> cr_egid old = rgid) CAP_SETGID else (s, True));
         new1 = (if rgid \<noteq> - 1 then new\<lparr>cr_gid := rgid\<rparr> else new)
     in if \<not> ok1 then (s1, - EPERM)
        else
          let (s2, ok2) = (if egid \<noteq> - 1
                 then or_capable s1 (cr_gid old = egid \<or> cr_egid old = egid \<or> cr_sgid old = egid) CAP_SETGID else (s1, True));
              new2 = (if egid \<noteq> - 1 then new1\<lparr>cr_egid := egid\<rparr> else new1)
          in if \<not> ok2 then (s2, - EPERM)
             else
               let new3 = (if rgid \<noteq> - 1 \<or> (egid \<noteq> - 1 \<and> egid \<noteq> cr_gid old) then new2\<lparr>cr_sgid := cr_egid new2\<rparr> else new2)
               in commit_creds s2 (new3\<lparr>cr_fsgid := cr_egid new3\<rparr>))"

definition setgid :: "calloc \<Rightarrow> cstate \<Rightarrow> u32 \<Rightarrow> cstate \<times> int" where
  "setgid al s gid = (case prepare_creds al s of None \<Rightarrow> (s, - ENOMEM) | Some new \<Rightarrow>
     let old = cred_of s; (s1, priv) = capable s CAP_SETGID
     in if priv then commit_creds s1 (new\<lparr>cr_gid := gid, cr_egid := gid, cr_sgid := gid, cr_fsgid := gid\<rparr>)
        else if gid = cr_gid old \<or> gid = cr_sgid old then commit_creds s1 (new\<lparr>cr_egid := gid, cr_fsgid := gid\<rparr>)
        else (s1, - EPERM))"

definition setreuid :: "calloc \<Rightarrow> cstate \<Rightarrow> u32 \<Rightarrow> u32 \<Rightarrow> cstate \<times> int" where
  "setreuid al s ruid euid = (case prepare_creds al s of None \<Rightarrow> (s, - ENOMEM) | Some new \<Rightarrow>
     let old = cred_of s;
         new1 = (if ruid \<noteq> - 1 then new\<lparr>cr_uid := ruid\<rparr> else new);
         (s1, ok1) = (if ruid \<noteq> - 1 then or_capable s (cr_uid old = ruid \<or> cr_euid old = ruid) CAP_SETUID else (s, True))
     in if \<not> ok1 then (s1, - EPERM)
        else
          let new2 = (if euid \<noteq> - 1 then new1\<lparr>cr_euid := euid\<rparr> else new1);
              (s2, ok2) = (if euid \<noteq> - 1
                 then or_capable s1 (cr_uid old = euid \<or> cr_euid old = euid \<or> cr_suid old = euid) CAP_SETUID else (s1, True))
          in if \<not> ok2 then (s2, - EPERM)
             else (case (if cr_uid new2 \<noteq> cr_uid old then set_user al s2 new2 else Inr new2) of
               Inl e \<Rightarrow> (s2, e)
             | Inr new3 \<Rightarrow>
                 let new4 = (if ruid \<noteq> - 1 \<or> (euid \<noteq> - 1 \<and> euid \<noteq> cr_uid old) then new3\<lparr>cr_suid := cr_euid new3\<rparr> else new3);
                     new5 = new4\<lparr>cr_fsuid := cr_euid new4\<rparr>
                 in commit_creds s2 (cap_task_fix_setuid s2 new5 old LSM_SETID_RE)))"

definition setuid :: "calloc \<Rightarrow> cstate \<Rightarrow> u32 \<Rightarrow> cstate \<times> int" where
  "setuid al s uid = (case prepare_creds al s of None \<Rightarrow> (s, - ENOMEM) | Some new \<Rightarrow>
     let old = cred_of s; (s1, priv) = capable s CAP_SETUID
     in case (if priv then
                let new1 = new\<lparr>cr_suid := uid, cr_uid := uid\<rparr>
                in if uid \<noteq> cr_uid old then set_user al s1 new1 else Inr new1
              else if uid \<noteq> cr_uid old \<and> uid \<noteq> cr_suid new then Inl (- EPERM)
              else Inr new) of
          Inl e \<Rightarrow> (s1, e)
        | Inr new2 \<Rightarrow>
            let new3 = new2\<lparr>cr_fsuid := uid, cr_euid := uid\<rparr>
            in commit_creds s1 (cap_task_fix_setuid s1 new3 old LSM_SETID_ID))"

text \<open>The test of one argument of \<^verbatim>\<open>setresuid\<close> and \<^verbatim>\<open>setresgid\<close>: leave as it is, or one of three identifiers.\<close>

definition id_allowed :: "u32 \<Rightarrow> u32 \<Rightarrow> u32 \<Rightarrow> u32 \<Rightarrow> bool" where
  "id_allowed i a b c \<longleftrightarrow> \<not> (i \<noteq> - 1 \<and> i \<noteq> a \<and> i \<noteq> b \<and> i \<noteq> c)"

definition setresuid :: "calloc \<Rightarrow> cstate \<Rightarrow> u32 \<Rightarrow> u32 \<Rightarrow> u32 \<Rightarrow> cstate \<times> int" where
  "setresuid al s ruid euid suid = (case prepare_creds al s of None \<Rightarrow> (s, - ENOMEM) | Some new \<Rightarrow>
     let old = cred_of s; (s1, priv) = capable s CAP_SETUID
     in if \<not> priv \<and> \<not> (id_allowed ruid (cr_uid old) (cr_euid old) (cr_suid old)
                     \<and> id_allowed euid (cr_uid old) (cr_euid old) (cr_suid old)
                     \<and> id_allowed suid (cr_uid old) (cr_euid old) (cr_suid old)) then (s1, - EPERM)
        else (case (if ruid \<noteq> - 1 then
                      let new1 = new\<lparr>cr_uid := ruid\<rparr> in if ruid \<noteq> cr_uid old then set_user al s1 new1 else Inr new1
                    else Inr new) of
          Inl e \<Rightarrow> (s1, e)
        | Inr new2 \<Rightarrow>
            let new3 = (if euid \<noteq> - 1 then new2\<lparr>cr_euid := euid\<rparr> else new2);
                new4 = (if suid \<noteq> - 1 then new3\<lparr>cr_suid := suid\<rparr> else new3);
                new5 = new4\<lparr>cr_fsuid := cr_euid new4\<rparr>
            in commit_creds s1 (cap_task_fix_setuid s1 new5 old LSM_SETID_RES)))"

definition setresgid :: "calloc \<Rightarrow> cstate \<Rightarrow> u32 \<Rightarrow> u32 \<Rightarrow> u32 \<Rightarrow> cstate \<times> int" where
  "setresgid al s rgid egid sgid = (case prepare_creds al s of None \<Rightarrow> (s, - ENOMEM) | Some new \<Rightarrow>
     let old = cred_of s; (s1, priv) = capable s CAP_SETGID
     in if \<not> priv \<and> \<not> (id_allowed rgid (cr_gid old) (cr_egid old) (cr_sgid old)
                     \<and> id_allowed egid (cr_gid old) (cr_egid old) (cr_sgid old)
                     \<and> id_allowed sgid (cr_gid old) (cr_egid old) (cr_sgid old)) then (s1, - EPERM)
        else
          let new1 = (if rgid \<noteq> - 1 then new\<lparr>cr_gid := rgid\<rparr> else new);
              new2 = (if egid \<noteq> - 1 then new1\<lparr>cr_egid := egid\<rparr> else new1);
              new3 = (if sgid \<noteq> - 1 then new2\<lparr>cr_sgid := sgid\<rparr> else new2)
          in commit_creds s1 (new3\<lparr>cr_fsgid := cr_egid new3\<rparr>))"

definition put_user :: "umem \<Rightarrow> u32 \<Rightarrow> nat \<Rightarrow> umem \<times> int" where
  "put_user m v p = (if m p = None then (m, - EFAULT) else (m(p \<mapsto> v), 0))"

definition getresuid :: "cstate \<Rightarrow> umem \<Rightarrow> nat \<Rightarrow> nat \<Rightarrow> nat \<Rightarrow> umem \<times> int" where
  "getresuid s m ruid euid suid =
     (let c = cred_of s; (m1, r1) = put_user m (cr_uid c) ruid
      in if r1 \<noteq> 0 then (m1, r1)
         else let (m2, r2) = put_user m1 (cr_euid c) euid
              in if r2 \<noteq> 0 then (m2, r2) else put_user m2 (cr_suid c) suid)"

definition getresgid :: "cstate \<Rightarrow> umem \<Rightarrow> nat \<Rightarrow> nat \<Rightarrow> nat \<Rightarrow> umem \<times> int" where
  "getresgid s m rgid egid sgid =
     (let c = cred_of s; (m1, r1) = put_user m (cr_gid c) rgid
      in if r1 \<noteq> 0 then (m1, r1)
         else let (m2, r2) = put_user m1 (cr_egid c) egid
              in if r2 \<noteq> 0 then (m2, r2) else put_user m2 (cr_sgid c) sgid)"

definition setfsuid :: "calloc \<Rightarrow> cstate \<Rightarrow> u32 \<Rightarrow> cstate \<times> u32" where
  "setfsuid al s uid = (case prepare_creds al s of None \<Rightarrow> (s, cr_fsuid (cred_of s)) | Some new \<Rightarrow>
     let old = cred_of s;
         (s1, ok) = or_capable s (uid = cr_uid old \<or> uid = cr_euid old \<or> uid = cr_suid old \<or> uid = cr_fsuid old) CAP_SETUID
     in if ok \<and> uid \<noteq> cr_fsuid old
        then (fst (commit_creds s1 (cap_task_fix_setuid s1 (new\<lparr>cr_fsuid := uid\<rparr>) old LSM_SETID_FS)), cr_fsuid old)
        else (s1, cr_fsuid old))"

definition setfsgid :: "calloc \<Rightarrow> cstate \<Rightarrow> u32 \<Rightarrow> cstate \<times> u32" where
  "setfsgid al s gid = (case prepare_creds al s of None \<Rightarrow> (s, cr_fsgid (cred_of s)) | Some new \<Rightarrow>
     let old = cred_of s;
         (s1, ok) = or_capable s (gid = cr_gid old \<or> gid = cr_egid old \<or> gid = cr_sgid old \<or> gid = cr_fsgid old) CAP_SETGID
     in if ok \<and> gid \<noteq> cr_fsgid old
        then (fst (commit_creds s1 (new\<lparr>cr_fsgid := gid\<rparr>)), cr_fsgid old)
        else (s1, cr_fsgid old))"

section \<open>Supplementary groups\<close>

text \<open>\<^term>\<open>None\<close> outside: an access out of the blocks of the structure.\<close>

definition set_groups :: "cred \<Rightarrow> group_info \<Rightarrow> cred option" where
  "set_groups new gi = do { gi1 \<leftarrow> groups_sort gi; Some (new\<lparr>cr_groups := gi1\<rparr>) }"

definition set_current_groups :: "calloc \<Rightarrow> cstate \<Rightarrow> group_info \<Rightarrow> (cstate \<times> int) option" where
  "set_current_groups al s gi = (case prepare_creds al s of
     None \<Rightarrow> Some (s, - ENOMEM)
   | Some new \<Rightarrow> do { new1 \<leftarrow> set_groups new gi; Some (commit_creds s new1) })"

definition getgroups :: "cstate \<Rightarrow> umem \<Rightarrow> int \<Rightarrow> nat \<Rightarrow> umem \<times> int" where
  "getgroups s m gidsetsize grouplist =
     (if gidsetsize < 0 then (m, - EINVAL)
      else
        let gi = cr_groups (cred_of s); i = int (ngroups gi)
        in if gidsetsize \<noteq> 0 then
             (if gidsetsize < i then (m, - EINVAL)
              else let (m1, r) = groups_to_user m grouplist gi in if r \<noteq> 0 then (m1, - EFAULT) else (m1, i))
           else (m, i))"

text \<open>The cast to \<^verbatim>\<open>unsigned\<close> makes a negative size too large.\<close>

definition setgroups :: "calloc \<Rightarrow> cstate \<Rightarrow> umem \<Rightarrow> int \<Rightarrow> nat \<Rightarrow> (cstate \<times> int) option" where
  "setgroups al s m gidsetsize grouplist =
     (let (s1, priv) = capable s CAP_SETGID
      in if \<not> priv then Some (s1, - EPERM)
         else if NGROUPS_MAX < unat (word_of_int gidsetsize :: u32) then Some (s1, - EINVAL)
         else (case fst (groups_alloc (groups_mem al) (nat gidsetsize)) of
           None \<Rightarrow> Some (s1, - ENOMEM)
         | Some gi \<Rightarrow> (case groups_from_user gi m grouplist of
             None \<Rightarrow> Some (s1, - EFAULT)
           | Some gi1 \<Rightarrow> set_current_groups al s1 gi1)))"

definition in_group_p :: "cstate \<Rightarrow> u32 \<Rightarrow> bool option" where
  "in_group_p s grp = (if grp \<noteq> cr_fsgid (cred_of s) then groups_search (Some (cr_groups (cred_of s))) grp else Some True)"

definition in_egroup_p :: "cstate \<Rightarrow> u32 \<Rightarrow> bool option" where
  "in_egroup_p s grp = (if grp \<noteq> cr_egid (cred_of s) then groups_search (Some (cr_groups (cred_of s))) grp else Some True)"

section \<open>Capability system calls\<close>

definition LINUX_CAPABILITY_VERSION_1 :: u32 where "LINUX_CAPABILITY_VERSION_1 = 0x19980330"
definition LINUX_CAPABILITY_VERSION_2 :: u32 where "LINUX_CAPABILITY_VERSION_2 = 0x20071026"
definition LINUX_CAPABILITY_VERSION_3 :: u32 where "LINUX_CAPABILITY_VERSION_3 = 0x20080522"

text \<open>The header is two cells of user memory, the version and the process. The result is the number of words to
  copy, or an error.\<close>

definition cap_validate_magic :: "umem \<Rightarrow> nat \<Rightarrow> umem \<times> (int + nat)" where
  "cap_validate_magic m hdr = (case m hdr of
     None \<Rightarrow> (m, Inl (- EFAULT))
   | Some version \<Rightarrow>
       if version = LINUX_CAPABILITY_VERSION_1 then (m, Inr 1)
       else if version = LINUX_CAPABILITY_VERSION_2 \<or> version = LINUX_CAPABILITY_VERSION_3 then (m, Inr 2)
       else let (m1, r) = put_user m LINUX_CAPABILITY_VERSION_3 hdr
            in (m1, Inl (if r \<noteq> 0 then - EFAULT else - EINVAL)))"

text \<open>The target of \<^verbatim>\<open>capget\<close>: \<open>vpid\<close> is the number of the current process, \<open>find_task\<close> the lookup of another one.\<close>

definition cap_get_target_pid :: "cstate \<Rightarrow> int \<Rightarrow> (int \<rightharpoonup> cred) \<Rightarrow> int \<Rightarrow> int + cred" where
  "cap_get_target_pid s vpid find_task pid =
     (if pid \<noteq> 0 \<and> pid \<noteq> vpid then (case find_task pid of None \<Rightarrow> Inl (- ESRCH) | Some c \<Rightarrow> Inr c) else Inr (cred_of s))"

definition cap_words :: "nat \<Rightarrow> kernel_cap_t \<Rightarrow> kernel_cap_t \<Rightarrow> kernel_cap_t \<Rightarrow> u32 list" where
  "cap_words tocopy pE pP pI = concat (map (\<lambda>i. [cap_word pE i, cap_word pP i, cap_word pI i]) [0..<tocopy])"

definition capget :: "cstate \<Rightarrow> int \<Rightarrow> (int \<rightharpoonup> cred) \<Rightarrow> umem \<Rightarrow> nat \<Rightarrow> nat \<Rightarrow> umem \<times> int" where
  "capget s vpid find_task m header dataptr = (case cap_validate_magic m header of
     (m1, Inl r) \<Rightarrow> (m1, r)
   | (m1, Inr tocopy) \<Rightarrow> (case m1 (header + 1) of
       None \<Rightarrow> (m1, - EFAULT)
     | Some w \<Rightarrow>
         let pid = sint w
         in if pid < 0 then (m1, - EINVAL)
            else (case cap_get_target_pid s vpid find_task pid of
              Inl r \<Rightarrow> (m1, r)
            | Inr c \<Rightarrow>
                let (m2, left) = copy_to_user m1 dataptr (cap_words tocopy (cap_effective c) (cap_permitted c) (cap_inheritable c))
                in (m2, if left \<noteq> 0 then - EFAULT else 0))))"

definition cap_inh_is_capped :: "cstate \<Rightarrow> bool" where
  "cap_inh_is_capped s \<longleftrightarrow> \<not> cap_raised (cap_effective (cred_of s)) CAP_SETPCAP"

definition cap_capset :: "cstate \<Rightarrow> cred \<Rightarrow> cred \<Rightarrow> kernel_cap_t \<Rightarrow> kernel_cap_t \<Rightarrow> kernel_cap_t \<Rightarrow> int + cred" where
  "cap_capset s new old effective inheritable permitted =
     (if cap_inh_is_capped s \<and> \<not> cap_issubset inheritable (cap_combine (cap_inheritable old) (cap_permitted old)) then Inl (- EPERM)
      else if \<not> cap_issubset inheritable (cap_combine (cap_inheritable old) (cap_bset old)) then Inl (- EPERM)
      else if \<not> cap_issubset permitted (cap_permitted old) then Inl (- EPERM)
      else if \<not> cap_issubset effective permitted then Inl (- EPERM)
      else Inr (new\<lparr>cap_effective := effective, cap_inheritable := inheritable, cap_permitted := permitted\<rparr>))"

text \<open>The words of the request; the second words are 0 in the old format.\<close>

definition kdata_caps :: "nat \<Rightarrow> u32 list \<Rightarrow> nat \<Rightarrow> kernel_cap_t" where
  "kdata_caps tocopy xs k = \<lparr>cap0 = xs ! k, cap1 = (if 1 < tocopy then xs ! (3 + k) else 0)\<rparr>"

definition capset :: "calloc \<Rightarrow> cstate \<Rightarrow> int \<Rightarrow> umem \<Rightarrow> nat \<Rightarrow> nat \<Rightarrow> umem \<times> cstate \<times> int" where
  "capset al s vpid m header data = (case cap_validate_magic m header of
     (m1, Inl r) \<Rightarrow> (m1, s, r)
   | (m1, Inr tocopy) \<Rightarrow> (case m1 (header + 1) of
       None \<Rightarrow> (m1, s, - EFAULT)
     | Some w \<Rightarrow>
         if sint w \<noteq> 0 \<and> sint w \<noteq> vpid then (m1, s, - EPERM)
         else (case copy_from_user m1 data (3 * tocopy) of
           None \<Rightarrow> (m1, s, - EFAULT)
         | Some xs \<Rightarrow> (case prepare_creds al s of
             None \<Rightarrow> (m1, s, - ENOMEM)
           | Some new \<Rightarrow> (case cap_capset s new (cred_of s) (kdata_caps tocopy xs 0) (kdata_caps tocopy xs 2) (kdata_caps tocopy xs 1) of
               Inl r \<Rightarrow> (m1, s, r)
             | Inr new1 \<Rightarrow> (m1, commit_creds s new1))))))"

section \<open>The capability part of prctl\<close>

definition PR_GET_KEEPCAPS :: int where "PR_GET_KEEPCAPS = 7"
definition PR_SET_KEEPCAPS :: int where "PR_SET_KEEPCAPS = 8"
definition PR_CAPBSET_READ :: int where "PR_CAPBSET_READ = 23"
definition PR_CAPBSET_DROP :: int where "PR_CAPBSET_DROP = 24"
definition PR_GET_SECUREBITS :: int where "PR_GET_SECUREBITS = 27"
definition PR_SET_SECUREBITS :: int where "PR_SET_SECUREBITS = 28"

definition SECURE_ALL_BITS :: u64 where
  "SECURE_ALL_BITS = push_bit 0 1 OR push_bit 2 1 OR push_bit 4 1"

definition SECURE_ALL_LOCKS :: u64 where
  "SECURE_ALL_LOCKS = push_bit 1 SECURE_ALL_BITS"

definition cap_prctl_drop :: "cstate \<Rightarrow> cred \<Rightarrow> u64 \<Rightarrow> cstate \<times> (int + cred)" where
  "cap_prctl_drop s new cap =
     (let (s1, ok) = capable s CAP_SETPCAP
      in if \<not> ok then (s1, Inl (- EPERM))
         else if \<not> cap_valid (unat cap) then (s1, Inl (- EINVAL))
         else (s1, Inr (new\<lparr>cap_bset := cap_lower (cap_bset new) (unat cap)\<rparr>)))"

definition securebits_denied :: "cstate \<Rightarrow> u64 \<Rightarrow> bool" where
  "securebits_denied s arg2 \<longleftrightarrow>
     (let sb = (ucast (cr_securebits (cred_of s)) :: u64)
      in drop_bit 1 (sb AND SECURE_ALL_LOCKS) AND (sb XOR arg2) \<noteq> 0
       \<or> sb AND SECURE_ALL_LOCKS AND NOT arg2 \<noteq> 0
       \<or> arg2 AND NOT (SECURE_ALL_LOCKS OR SECURE_ALL_BITS) \<noteq> 0
       \<or> \<not> cap_raised (cap_effective (cred_of s)) CAP_SETPCAP)"

definition cap_task_prctl :: "calloc \<Rightarrow> cstate \<Rightarrow> int \<Rightarrow> u64 \<Rightarrow> cstate \<times> int" where
  "cap_task_prctl al s option arg2 = (case prepare_creds al s of None \<Rightarrow> (s, - ENOMEM) | Some new \<Rightarrow>
     if option = PR_CAPBSET_READ then
       (if \<not> cap_valid (unat arg2) then (s, - EINVAL) else (s, if cap_raised (cap_bset new) (unat arg2) then 1 else 0))
     else if option = PR_CAPBSET_DROP then
       (case cap_prctl_drop s new arg2 of (s1, Inl r) \<Rightarrow> (s1, r) | (s1, Inr new1) \<Rightarrow> commit_creds s1 new1)
     else if option = PR_SET_SECUREBITS then
       (if securebits_denied s arg2 then (s, - EPERM) else commit_creds s (new\<lparr>cr_securebits := ucast arg2\<rparr>))
     else if option = PR_GET_SECUREBITS then (s, uint (cr_securebits new))
     else if option = PR_GET_KEEPCAPS then (s, if issecure s SECURE_KEEP_CAPS then 1 else 0)
     else if option = PR_SET_KEEPCAPS then
       (if 1 < arg2 then (s, - EINVAL)
        else if issecure s SECURE_KEEP_CAPS_LOCKED then (s, - EPERM)
        else commit_creds s (new\<lparr>cr_securebits := (if arg2 \<noteq> 0 then cr_securebits new OR issecure_mask SECURE_KEEP_CAPS
                                                    else cr_securebits new AND NOT (issecure_mask SECURE_KEEP_CAPS))\<rparr>))
     else (s, - ENOSYS))"

section \<open>Capability sets as sets\<close>

lemma and_not_0_iff: "x AND NOT y = 0 \<longleftrightarrow> (\<forall>n. bit x n \<longrightarrow> bit y n)" for x y :: "'a :: len word"
proof
  assume *: "x AND NOT y = 0"
  have "\<not> bit (x AND NOT y) n" for n by (simp add: *)
  then show "\<forall>n. bit x n \<longrightarrow> bit y n" by (auto simp: bit_and_iff bit_not_iff dest: bit_imp_le_length)
next
  assume "\<forall>n. bit x n \<longrightarrow> bit y n"
  then show "x AND NOT y = 0" by (intro bit_word_eqI) (simp add: bit_and_iff bit_not_iff)
qed

lemma cap_issubset_iff:
  "cap_issubset a b \<longleftrightarrow> (\<forall>n. bit (cap0 a) n \<longrightarrow> bit (cap0 b) n) \<and> (\<forall>n. bit (cap1 a) n \<longrightarrow> bit (cap1 b) n)"
  by (simp add: cap_issubset_def cap_isclear_def cap_drop_def and_not_0_iff)

lemma cap_issubset_refl [simp]: "cap_issubset a a"
  by (simp add: cap_issubset_iff)

lemma cap_issubset_empty [simp]: "cap_issubset CAP_EMPTY_SET a"
  by (simp add: cap_issubset_iff CAP_EMPTY_SET_def)

lemma cap_issubset_trans: "cap_issubset a b \<Longrightarrow> cap_issubset b c \<Longrightarrow> cap_issubset a c"
  by (auto simp: cap_issubset_iff)

lemma cap_issubset_drop_fs: "cap_issubset a b \<Longrightarrow> cap_issubset (cap_drop_fs_set a) b"
  by (auto simp: cap_issubset_iff cap_drop_fs_set_def cap_drop_def bit_and_iff)

lemma cap_issubset_raise_fs: "cap_issubset a b \<Longrightarrow> cap_issubset (cap_raise_fs_set a b) b"
  by (auto simp: cap_issubset_iff cap_raise_fs_set_def cap_combine_def cap_intersect_def bit_and_iff bit_or_iff)

lemma cap_raised_bit: "cap_raised c f \<longleftrightarrow> bit (cap_word c (CAP_TO_INDEX f)) (f AND 31)"
  by (simp add: cap_raised_def CAP_TO_MASK_def push_bit_eq_mult and_exp_eq_0_iff_not_bit)

lemma cap_raised_mono: "cap_issubset a b \<Longrightarrow> cap_raised a f \<Longrightarrow> cap_raised b f"
  by (auto simp: cap_raised_bit cap_issubset_iff cap_word_def split: if_splits)

lemma cap_raised_empty [simp]: "\<not> cap_raised CAP_EMPTY_SET f"
  by (simp add: cap_raised_bit cap_word_def CAP_EMPTY_SET_def)

lemma cap_issubset_empty_iff: "cap_issubset a CAP_EMPTY_SET \<longleftrightarrow> a = CAP_EMPTY_SET"
proof
  assume "cap_issubset a CAP_EMPTY_SET"
  then have "cap0 a = 0" "cap1 a = 0"
    by (auto simp: cap_issubset_iff CAP_EMPTY_SET_def intro: bit_word_eqI)
  then show "a = CAP_EMPTY_SET" by (simp add: CAP_EMPTY_SET_def)
qed simp

section \<open>What a system call may change\<close>

lemma commit_creds_cred [simp]: "cred_of (fst (commit_creds s new)) = new" "snd (commit_creds s new) = 0"
  by (simp_all add: commit_creds_def Let_def)

lemma capable_simps [simp]:
  "cred_of (fst (capable s c)) = cred_of s" "snd (capable s c) = cap_raised (cap_effective (cred_of s)) c"
  "processes (fst (capable s c)) = processes s" "rlim_nproc (fst (capable s c)) = rlim_nproc s"
  "issecure (fst (capable s c)) = issecure s"
  by (simp_all add: capable_def issecure_def fun_eq_iff)

lemma or_capable_simps [simp]:
  "cred_of (fst (or_capable s b c)) = cred_of s"
  "snd (or_capable s b c) = (b \<or> cap_raised (cap_effective (cred_of s)) c)"
  "processes (fst (or_capable s b c)) = processes s" "rlim_nproc (fst (or_capable s b c)) = rlim_nproc s"
  "issecure (fst (or_capable s b c)) = issecure s"
  by (simp_all add: or_capable_def)

lemma opt_capable [simp]:
  "cred_of (fst (if b then or_capable s x c else (s, True))) = cred_of s"
  "snd (if b then or_capable s x c else (s, True)) \<longleftrightarrow> (b \<longrightarrow> x \<or> cap_raised (cap_effective (cred_of s)) c)"
  by simp_all

text \<open>The identifiers and capability sets that a step from \<open>c\<close> to \<open>c'\<close> may reach.\<close>

definition uids :: "cred \<Rightarrow> u32 set" where
  "uids c = {cr_uid c, cr_euid c, cr_suid c}"

definition sys_gids :: "cred \<Rightarrow> u32 set" where
  "sys_gids c = {cr_gid c, cr_egid c, cr_sgid c}"

definition confined :: "cred \<Rightarrow> cred \<Rightarrow> bool" where
  "confined c c' \<longleftrightarrow>
     (\<not> cap_raised (cap_effective c) CAP_SETUID \<longrightarrow> uids c' \<subseteq> uids c \<and> cr_fsuid c' \<in> insert (cr_fsuid c) (uids c))
   \<and> (\<not> cap_raised (cap_effective c) CAP_SETGID \<longrightarrow>
        sys_gids c' \<subseteq> sys_gids c \<and> cr_fsgid c' \<in> insert (cr_fsgid c) (sys_gids c) \<and> cr_groups c' = cr_groups c)
   \<and> cap_issubset (cap_permitted c') (cap_permitted c)
   \<and> (cap_issubset (cap_effective c) (cap_permitted c) \<longrightarrow> cap_issubset (cap_effective c') (cap_permitted c'))"

lemma confined_refl [simp]: "confined c c"
  by (simp add: confined_def)

text \<open>The capability fix-up keeps the identifiers, and the effective set below the permitted one.\<close>

lemma fix_setuid_ids [simp]:
  "cr_uid (cap_task_fix_setuid s n old f) = cr_uid n" "cr_euid (cap_task_fix_setuid s n old f) = cr_euid n"
  "cr_suid (cap_task_fix_setuid s n old f) = cr_suid n" "cr_fsuid (cap_task_fix_setuid s n old f) = cr_fsuid n"
  "cr_gid (cap_task_fix_setuid s n old f) = cr_gid n" "cr_egid (cap_task_fix_setuid s n old f) = cr_egid n"
  "cr_sgid (cap_task_fix_setuid s n old f) = cr_sgid n" "cr_fsgid (cap_task_fix_setuid s n old f) = cr_fsgid n"
  "cr_groups (cap_task_fix_setuid s n old f) = cr_groups n"
  by (cases f; simp add: cap_task_fix_setuid_def cap_emulate_setxuid_def Let_def)+

lemma fix_setuid_caps [simp]:
  "cap_issubset (cap_permitted n) p \<Longrightarrow> cap_issubset (cap_permitted (cap_task_fix_setuid s n old f)) p"
  "cap_issubset (cap_effective n) (cap_permitted n) \<Longrightarrow>
   cap_issubset (cap_effective (cap_task_fix_setuid s n old f)) (cap_permitted (cap_task_fix_setuid s n old f))"
  by (cases f; simp add: cap_task_fix_setuid_def cap_emulate_setxuid_def Let_def cap_issubset_drop_fs cap_issubset_raise_fs)+

text \<open>Selectors under a conditional, so that no case distinction on whole records is needed.\<close>

lemmas cred_if = if_distrib [of cr_uid] if_distrib [of cr_euid] if_distrib [of cr_suid] if_distrib [of cr_fsuid]
  if_distrib [of cr_gid] if_distrib [of cr_egid] if_distrib [of cr_sgid] if_distrib [of cr_fsgid]
  if_distrib [of cr_groups] if_distrib [of cap_permitted] if_distrib [of cap_effective]

lemmas call_defs = prepare_creds_def case_prod_unfold Let_def

lemma set_user_upd:
  "(if b then set_user al s n else Inr n) = Inr n' \<Longrightarrow> \<exists>u. n' = n\<lparr>cr_user := u\<rparr>"
  by (auto simp: set_user_def split: if_splits intro: exI [of _ "cr_user n"])

text \<open>A new set of credentials that differs in the user identifiers only, or in the group identifiers only.\<close>

lemma confined_uids:
  assumes "cr_gid n = cr_gid c" "cr_egid n = cr_egid c" "cr_sgid n = cr_sgid c" "cr_fsgid n = cr_fsgid c"
    "cr_groups n = cr_groups c" "cap_permitted n = cap_permitted c" "cap_effective n = cap_effective c"
    "\<not> cap_raised (cap_effective c) CAP_SETUID \<Longrightarrow>
       cr_uid n \<in> uids c \<and> cr_euid n \<in> uids c \<and> cr_suid n \<in> uids c \<and> cr_fsuid n \<in> insert (cr_fsuid c) (uids c)"
  shows "confined c (cap_task_fix_setuid s n c f)"
  using assms by (simp add: confined_def sys_gids_def) (simp add: uids_def)

lemma confined_gids:
  assumes "cr_uid n = cr_uid c" "cr_euid n = cr_euid c" "cr_suid n = cr_suid c" "cr_fsuid n = cr_fsuid c"
    "cap_permitted n = cap_permitted c" "cap_effective n = cap_effective c"
    "\<not> cap_raised (cap_effective c) CAP_SETGID \<Longrightarrow> cr_groups n = cr_groups c \<and>
       cr_gid n \<in> sys_gids c \<and> cr_egid n \<in> sys_gids c \<and> cr_sgid n \<in> sys_gids c \<and> cr_fsgid n \<in> insert (cr_fsgid c) (sys_gids c)"
  shows "confined c n"
  using assms by (simp add: confined_def uids_def) (simp add: sys_gids_def)

lemma confined_sum:
  assumes "\<And>n. x = Inr n \<Longrightarrow> confined (cred_of s) (g n)" "cred_of s1 = cred_of s"
  shows "confined (cred_of s) (cred_of (fst (case x of Inl e \<Rightarrow> (s1, e) | Inr n \<Rightarrow> commit_creds s1 (g n))))"
  using assms by (cases x) simp_all

lemma setuid_eq:
  assumes "cred_ok al"
  defines "s1 \<equiv> \<lambda>s. fst (capable s CAP_SETUID)"
  shows "setuid al s u =
    (case (if cap_raised (cap_effective (cred_of s)) CAP_SETUID then
             if u \<noteq> cr_uid (cred_of s) then set_user al (s1 s) ((cred_of s)\<lparr>cr_suid := u, cr_uid := u\<rparr>)
             else Inr ((cred_of s)\<lparr>cr_suid := u, cr_uid := u\<rparr>)
           else if u \<noteq> cr_uid (cred_of s) \<and> u \<noteq> cr_suid (cred_of s) then Inl (- EPERM) else Inr (cred_of s)) of
       Inl e \<Rightarrow> (s1 s, e)
     | Inr n \<Rightarrow> commit_creds (s1 s) (cap_task_fix_setuid (s1 s) (n\<lparr>cr_fsuid := u, cr_euid := u\<rparr>) (cred_of s) LSM_SETID_ID))"
  unfolding setuid_def call_defs capable_simps s1_def using assms(1) by (simp only: option.case if_True)

lemma setuid_confined: "confined (cred_of s) (cred_of (fst (setuid al s u)))"
proof (cases "cred_ok al")
  case True
  let ?c = "cred_of s"
  let ?p = "cap_raised (cap_effective ?c) CAP_SETUID"
  let ?n = "?c\<lparr>cr_suid := u, cr_uid := u\<rparr>"
  let ?s1 = "fst (capable s CAP_SETUID)"
  let ?x = "if ?p then if u \<noteq> cr_uid ?c then set_user al ?s1 ?n else Inr ?n
            else if u \<noteq> cr_uid ?c \<and> u \<noteq> cr_suid ?c then Inl (- EPERM) else Inr ?c"
  show ?thesis unfolding setuid_eq [OF True]
  proof (rule confined_sum)
    fix n assume n: "?x = Inr n"
    show "confined ?c (cap_task_fix_setuid ?s1 (n\<lparr>cr_fsuid := u, cr_euid := u\<rparr>) ?c LSM_SETID_ID)"
    proof (cases ?p)
      case True
      then have "(if u \<noteq> cr_uid ?c then set_user al ?s1 ?n else Inr ?n) = Inr n" using n by simp
      then obtain w where "n = ?n\<lparr>cr_user := w\<rparr>" using set_user_upd by blast
      then show ?thesis using True by (intro confined_uids) simp_all
    next
      case False
      then have "n = ?c" "u = cr_uid ?c \<or> u = cr_suid ?c" using n by (auto split: if_splits)
      then show ?thesis by (intro confined_uids) (auto simp: uids_def)
    qed
  qed simp
qed (simp add: setuid_def prepare_creds_def)

lemma setresuid_confined: "confined (cred_of s) (cred_of (fst (setresuid al s r e u)))"
proof (cases "cred_ok al")
  case True
  let ?c = "cred_of s"
  let ?p = "cap_raised (cap_effective ?c) CAP_SETUID"
  let ?ok = "\<lambda>i. id_allowed i (cr_uid ?c) (cr_euid ?c) (cr_suid ?c)"
  let ?n = "?c\<lparr>cr_uid := r\<rparr>"
  let ?s1 = "fst (capable s CAP_SETUID)"
  let ?x = "if r \<noteq> - 1 then if r \<noteq> cr_uid ?c then set_user al ?s1 ?n else Inr ?n else Inr ?c"
  let ?n4 = "\<lambda>n. let n3 = (if e \<noteq> - 1 then n\<lparr>cr_euid := e\<rparr> else n) in if u \<noteq> - 1 then n3\<lparr>cr_suid := u\<rparr> else n3"
  let ?fin = "\<lambda>n. cap_task_fix_setuid ?s1 ((?n4 n)\<lparr>cr_fsuid := cr_euid (?n4 n)\<rparr>) ?c LSM_SETID_RES"
  have eq: "setresuid al s r e u = (if \<not> ?p \<and> \<not> (?ok r \<and> ?ok e \<and> ?ok u) then (?s1, - EPERM)
      else case ?x of Inl e \<Rightarrow> (?s1, e) | Inr n \<Rightarrow> commit_creds ?s1 (?fin n))"
    unfolding setresuid_def call_defs capable_simps using True by (simp only: option.case if_True)
  have id: "i \<noteq> - 1 \<Longrightarrow> ?ok i \<Longrightarrow> i \<in> uids ?c" for i by (auto simp: id_allowed_def uids_def)
  have own: "cr_uid ?c \<in> uids ?c" "cr_euid ?c \<in> uids ?c" "cr_suid ?c \<in> uids ?c" by (simp_all add: uids_def)
  show ?thesis
  proof (cases "\<not> ?p \<and> \<not> (?ok r \<and> ?ok e \<and> ?ok u)")
    case True
    then show ?thesis unfolding eq by simp
  next
    case False
    have fin: "confined ?c (?fin n)" if n: "?x = Inr n" for n
    proof -
      obtain w where w: "n = ?c\<lparr>cr_uid := (if r \<noteq> - 1 then r else cr_uid ?c), cr_user := w\<rparr>"
      proof (cases "r = - 1")
        case True
        then show ?thesis using n by (intro that [of "cr_user ?c"]) simp
      next
        case False
        then have "(if r \<noteq> cr_uid ?c then set_user al ?s1 ?n else Inr ?n) = Inr n" using n by simp
        from set_user_upd [OF this] show ?thesis using False that by auto
      qed
      then show ?thesis using False id own by (intro confined_uids) (simp_all add: Let_def cred_if)
    qed
    have "confined ?c (cred_of (fst (case ?x of Inl e \<Rightarrow> (?s1, e) | Inr n \<Rightarrow> commit_creds ?s1 (?fin n))))"
      by (rule confined_sum, erule fin, rule capable_simps)
    then show ?thesis unfolding eq using False by (simp only: if_False)
  qed
qed (simp add: setresuid_def prepare_creds_def)

lemma setreuid_confined: "confined (cred_of s) (cred_of (fst (setreuid al s r e)))"
proof (cases "cred_ok al")
  case True
  let ?c = "cred_of s"
  let ?p = "cap_raised (cap_effective ?c) CAP_SETUID"
  let ?a1 = "if r \<noteq> - 1 then or_capable s (cr_uid ?c = r \<or> cr_euid ?c = r) CAP_SETUID else (s, True)"
  let ?a2 = "if e \<noteq> - 1 then or_capable (fst ?a1) (cr_uid ?c = e \<or> cr_euid ?c = e \<or> cr_suid ?c = e) CAP_SETUID else (fst ?a1, True)"
  let ?n1 = "if r \<noteq> - 1 then ?c\<lparr>cr_uid := r\<rparr> else ?c"
  let ?n2 = "if e \<noteq> - 1 then ?n1\<lparr>cr_euid := e\<rparr> else ?n1"
  let ?x = "if cr_uid ?n2 \<noteq> cr_uid ?c then set_user al (fst ?a2) ?n2 else Inr ?n2"
  let ?n4 = "\<lambda>n. if r \<noteq> - 1 \<or> e \<noteq> - 1 \<and> e \<noteq> cr_uid ?c then n\<lparr>cr_suid := cr_euid n\<rparr> else n"
  let ?fin = "\<lambda>n. cap_task_fix_setuid (fst ?a2) ((?n4 n)\<lparr>cr_fsuid := cr_euid (?n4 n)\<rparr>) ?c LSM_SETID_RE"
  let ?y = "case ?x of Inl e \<Rightarrow> (fst ?a2, e) | Inr n \<Rightarrow> commit_creds (fst ?a2) (?fin n)"
  have eq: "setreuid al s r e = (if \<not> snd ?a1 then (fst ?a1, - EPERM) else if \<not> snd ?a2 then (fst ?a2, - EPERM) else ?y)"
    unfolding setreuid_def call_defs using True by (simp only: option.case if_True)
  have own: "cr_uid ?c \<in> uids ?c" "cr_euid ?c \<in> uids ?c" "cr_suid ?c \<in> uids ?c" by (simp_all add: uids_def)
  have a: "cred_of (fst ?a1) = ?c" "cred_of (fst ?a2) = ?c" by simp_all
  show ?thesis
  proof (cases "snd ?a1 \<and> snd ?a2")
    case False
    then show ?thesis unfolding eq using a by (cases "snd ?a1") (simp_all only: fst_conv if_True if_False not_False_eq_True not_True_eq_False simp_thms confined_refl)
  next
    case True
    have "r \<in> uids ?c" if "r \<noteq> - 1" "\<not> ?p" using True that own by (auto simp only: opt_capable)
    moreover have "e \<in> uids ?c" if "e \<noteq> - 1" "\<not> ?p" using True that own by (auto simp only: opt_capable)
    ultimately have fin: "confined ?c (?fin n)" if n: "?x = Inr n" for n
      using set_user_upd [OF n] own by (intro confined_uids) (auto simp: cred_if)
    have "confined ?c (cred_of (fst ?y))" by (rule confined_sum, erule fin, rule a)
    then show ?thesis unfolding eq using True by (simp only: if_False simp_thms)
  qed
qed (simp add: setreuid_def prepare_creds_def)

lemma setfsuid_confined: "confined (cred_of s) (cred_of (fst (setfsuid al s u)))"
  by (auto simp: setfsuid_def call_defs uids_def intro!: confined_uids)

lemma setgid_confined: "confined (cred_of s) (cred_of (fst (setgid al s g)))"
  by (auto simp: setgid_def call_defs sys_gids_def intro!: confined_gids)

lemma setfsgid_confined: "confined (cred_of s) (cred_of (fst (setfsgid al s g)))"
  by (auto simp: setfsgid_def call_defs sys_gids_def intro!: confined_gids)

lemma setresgid_confined: "confined (cred_of s) (cred_of (fst (setresgid al s r e g)))"
proof (cases "cred_ok al")
  case True
  let ?c = "cred_of s"
  let ?p = "cap_raised (cap_effective ?c) CAP_SETGID"
  let ?ok = "\<lambda>i. id_allowed i (cr_gid ?c) (cr_egid ?c) (cr_sgid ?c)"
  have id: "i \<noteq> - 1 \<Longrightarrow> ?ok i \<Longrightarrow> i \<in> sys_gids ?c" for i by (auto simp: id_allowed_def sys_gids_def)
  have own: "cr_gid ?c \<in> sys_gids ?c" "cr_egid ?c \<in> sys_gids ?c" "cr_sgid ?c \<in> sys_gids ?c" by (simp_all add: sys_gids_def)
  show ?thesis
  proof (cases "\<not> ?p \<and> \<not> (?ok r \<and> ?ok e \<and> ?ok g)")
    case True
    then show ?thesis using \<open>cred_ok al\<close> by (simp add: setresgid_def call_defs)
  next
    case False
    then show ?thesis using \<open>cred_ok al\<close> id own
      unfolding setresgid_def call_defs capable_simps
      by (simp only: option.case if_True if_False commit_creds_cred) (rule confined_gids; simp add: cred_if)
  qed
qed (simp add: setresgid_def prepare_creds_def)

lemma setregid_confined: "confined (cred_of s) (cred_of (fst (setregid al s r e)))"
proof (cases "cred_ok al")
  case True
  let ?c = "cred_of s"
  let ?p = "cap_raised (cap_effective ?c) CAP_SETGID"
  let ?a1 = "if r \<noteq> - 1 then or_capable s (cr_gid ?c = r \<or> cr_egid ?c = r) CAP_SETGID else (s, True)"
  let ?a2 = "if e \<noteq> - 1 then or_capable (fst ?a1) (cr_gid ?c = e \<or> cr_egid ?c = e \<or> cr_sgid ?c = e) CAP_SETGID else (fst ?a1, True)"
  let ?n1 = "if r \<noteq> - 1 then ?c\<lparr>cr_gid := r\<rparr> else ?c"
  let ?n2 = "if e \<noteq> - 1 then ?n1\<lparr>cr_egid := e\<rparr> else ?n1"
  let ?n3 = "if r \<noteq> - 1 \<or> e \<noteq> - 1 \<and> e \<noteq> cr_gid ?c then ?n2\<lparr>cr_sgid := cr_egid ?n2\<rparr> else ?n2"
  have eq: "setregid al s r e = (if \<not> snd ?a1 then (fst ?a1, - EPERM) else if \<not> snd ?a2 then (fst ?a2, - EPERM)
      else commit_creds (fst ?a2) (?n3\<lparr>cr_fsgid := cr_egid ?n3\<rparr>))"
    unfolding setregid_def call_defs using True by (simp only: option.case if_True)
  have own: "cr_gid ?c \<in> sys_gids ?c" "cr_egid ?c \<in> sys_gids ?c" "cr_sgid ?c \<in> sys_gids ?c" by (simp_all add: sys_gids_def)
  have a: "cred_of (fst ?a1) = ?c" "cred_of (fst ?a2) = ?c" by simp_all
  show ?thesis
  proof (cases "snd ?a1 \<and> snd ?a2")
    case False
    then show ?thesis unfolding eq using a by (cases "snd ?a1") (simp_all only: fst_conv if_True if_False not_False_eq_True not_True_eq_False simp_thms confined_refl)
  next
    case True
    have "r \<in> sys_gids ?c" if "r \<noteq> - 1" "\<not> ?p" using True that own by (auto simp only: opt_capable)
    moreover have "e \<in> sys_gids ?c" if "e \<noteq> - 1" "\<not> ?p" using True that own by (auto simp only: opt_capable)
    ultimately have "confined ?c (?n3\<lparr>cr_fsgid := cr_egid ?n3\<rparr>)"
      using own by (intro confined_gids) (simp_all add: cred_if)
    then show ?thesis unfolding eq using True by (simp only: if_False simp_thms commit_creds_cred)
  qed
qed (simp add: setregid_def prepare_creds_def)

lemma setgroups_confined: "setgroups al s m n p = Some (s', r) \<Longrightarrow> confined (cred_of s) (cred_of s')"
proof -
  assume *: "setgroups al s m n p = Some (s', r)"
  have "cred_of s' = cred_of s \<or> (\<exists>gi. (cred_of s)\<lparr>cr_groups := gi\<rparr> = cred_of s') \<and> cap_raised (cap_effective (cred_of s)) CAP_SETGID"
    using * by (auto simp: setgroups_def call_defs set_current_groups_def set_groups_def elim!: bind_SomeE
        split: if_splits option.splits dest!: arg_cong [of _ _ "\<lambda>x. cred_of (fst x)"])
  then show ?thesis
  proof (elim disjE exE conjE)
    fix gi assume eq: "(cred_of s)\<lparr>cr_groups := gi\<rparr> = cred_of s'" and p: "cap_raised (cap_effective (cred_of s)) CAP_SETGID"
    have "confined (cred_of s) ((cred_of s)\<lparr>cr_groups := gi\<rparr>)" using p by (intro confined_gids) simp_all
    then show ?thesis unfolding eq .
  qed simp
qed

lemma cap_capset_Inr:
  assumes "cap_capset s c c e i p = Inr n"
  shows "n = c\<lparr>cap_effective := e, cap_inheritable := i, cap_permitted := p\<rparr>"
    "cap_issubset p (cap_permitted c)" "cap_issubset e p"
  using assms by (auto simp: cap_capset_def split: if_splits)

lemma capset_confined: "confined (cred_of s) (cred_of (fst (snd (capset al s vpid m h d))))"
proof -
  have "cred_of (fst (snd (capset al s vpid m h d))) = cred_of s \<or>
    (\<exists>e i p. cap_capset s (cred_of s) (cred_of s) e i p = Inr (cred_of (fst (snd (capset al s vpid m h d)))))"
    by (auto simp: capset_def prepare_creds_def split: prod.splits sum.splits option.splits)
  then show ?thesis
  proof (elim disjE exE)
    fix e i p assume "cap_capset s (cred_of s) (cred_of s) e i p = Inr (cred_of (fst (snd (capset al s vpid m h d))))"
    from cap_capset_Inr [OF this] show ?thesis by (simp add: confined_def uids_def sys_gids_def)
  qed simp
qed

lemma cap_task_prctl_confined: "confined (cred_of s) (cred_of (fst (cap_task_prctl al s opt arg2)))"
proof -
  have "confined c (c\<lparr>cr_securebits := x\<rparr>)" "confined c (c\<lparr>cap_bset := y\<rparr>)" for c x y
    by (simp_all add: confined_def uids_def sys_gids_def)
  then show ?thesis
    by (simp add: cap_task_prctl_def cap_prctl_drop_def call_defs split: prod.splits sum.splits)
qed

section \<open>Sequences of system calls\<close>

datatype idcall =
    Setuid u32 | Setreuid u32 u32 | Setresuid u32 u32 u32 | Setfsuid u32
  | Setgid u32 | Setregid u32 u32 | Setresgid u32 u32 u32 | Setfsgid u32
  | Setgroups umem int nat | Capset int umem nat nat | Prctl int u64

fun do_call :: "calloc \<Rightarrow> idcall \<Rightarrow> cstate \<Rightarrow> cstate option" where
  "do_call al (Setuid u) s = Some (fst (setuid al s u))"
| "do_call al (Setreuid r e) s = Some (fst (setreuid al s r e))"
| "do_call al (Setresuid r e u) s = Some (fst (setresuid al s r e u))"
| "do_call al (Setfsuid u) s = Some (fst (setfsuid al s u))"
| "do_call al (Setgid g) s = Some (fst (setgid al s g))"
| "do_call al (Setregid r e) s = Some (fst (setregid al s r e))"
| "do_call al (Setresgid r e g) s = Some (fst (setresgid al s r e g))"
| "do_call al (Setfsgid g) s = Some (fst (setfsgid al s g))"
| "do_call al (Setgroups m n p) s = map_option fst (setgroups al s m n p)"
| "do_call al (Capset vpid m h d) s = Some (fst (snd (capset al s vpid m h d)))"
| "do_call al (Prctl opt a) s = Some (fst (cap_task_prctl al s opt a))"

text \<open>The states a process can bring itself into, whatever the allocations answer.\<close>

inductive cred_reach :: "cstate \<Rightarrow> cstate \<Rightarrow> bool" for s where
  cred_refl: "cred_reach s s"
| cred_call: "cred_reach s s1 \<Longrightarrow> do_call al c s1 = Some s2 \<Longrightarrow> cred_reach s s2"

lemma do_call_confined: "do_call al c s = Some s' \<Longrightarrow> confined (cred_of s) (cred_of s')"
  by (cases c) (auto simp: setuid_confined setreuid_confined setresuid_confined setfsuid_confined setgid_confined
      setregid_confined setresgid_confined setfsgid_confined setgroups_confined capset_confined cap_task_prctl_confined
      dest!: sym [of "fst _"])

lemma unprivileged_effective:
  assumes "cap_issubset (cap_effective c) (cap_permitted c)" "cap_issubset (cap_permitted c) p" "\<not> cap_raised p f"
  shows "\<not> cap_raised (cap_effective c) f"
  using assms cap_raised_mono by blast

lemma cred_reach_inv:
  assumes "cred_reach s s'" "cap_issubset (cap_effective (cred_of s)) (cap_permitted (cred_of s))"
  defines "c \<equiv> cred_of s" and "c' \<equiv> cred_of s'"
  shows "cap_issubset (cap_effective c') (cap_permitted c') \<and> cap_issubset (cap_permitted c') (cap_permitted c)
    \<and> (\<not> cap_raised (cap_permitted c) CAP_SETUID \<longrightarrow> uids c' \<subseteq> uids c \<and> cr_fsuid c' \<in> insert (cr_fsuid c) (uids c))
    \<and> (\<not> cap_raised (cap_permitted c) CAP_SETGID \<longrightarrow>
         sys_gids c' \<subseteq> sys_gids c \<and> cr_fsgid c' \<in> insert (cr_fsgid c) (sys_gids c) \<and> cr_groups c' = cr_groups c)"
  unfolding c'_def using assms(1)
proof induction
  case cred_refl
  then show ?case using assms(2) by (simp add: c_def)
next
  case (cred_call s1 al d s2)
  let ?b = "cred_of s1" and ?e = "cred_of s2"
  have ih: "cap_issubset (cap_effective ?b) (cap_permitted ?b)" "cap_issubset (cap_permitted ?b) (cap_permitted c)"
    "\<not> cap_raised (cap_permitted c) CAP_SETUID \<Longrightarrow> uids ?b \<subseteq> uids c \<and> cr_fsuid ?b \<in> insert (cr_fsuid c) (uids c)"
    "\<not> cap_raised (cap_permitted c) CAP_SETGID \<Longrightarrow>
       sys_gids ?b \<subseteq> sys_gids c \<and> cr_fsgid ?b \<in> insert (cr_fsgid c) (sys_gids c) \<and> cr_groups ?b = cr_groups c"
    using cred_call.IH by blast+
  note np = unprivileged_effective [OF ih(1,2)]
  note conf = do_call_confined [OF cred_call.hyps(2), unfolded confined_def]
  have cu: "\<not> cap_raised (cap_effective ?b) CAP_SETUID \<Longrightarrow> uids ?e \<subseteq> uids ?b \<and> cr_fsuid ?e \<in> insert (cr_fsuid ?b) (uids ?b)"
    and cg: "\<not> cap_raised (cap_effective ?b) CAP_SETGID \<Longrightarrow>
      sys_gids ?e \<subseteq> sys_gids ?b \<and> cr_fsgid ?e \<in> insert (cr_fsgid ?b) (sys_gids ?b) \<and> cr_groups ?e = cr_groups ?b"
    using conf by simp_all
  have "cap_issubset (cap_permitted ?e) (cap_permitted c)" using conf cap_issubset_trans ih(2) by blast
  moreover have "cap_issubset (cap_effective ?e) (cap_permitted ?e)" using conf ih(1) by blast
  moreover have "uids ?e \<subseteq> uids c \<and> cr_fsuid ?e \<in> insert (cr_fsuid c) (uids c)" if "\<not> cap_raised (cap_permitted c) CAP_SETUID"
    using cu [OF np [OF that]] ih(3) [OF that] by auto
  moreover have "sys_gids ?e \<subseteq> sys_gids c \<and> cr_fsgid ?e \<in> insert (cr_fsgid c) (sys_gids c) \<and> cr_groups ?e = cr_groups c"
    if "\<not> cap_raised (cap_permitted c) CAP_SETGID"
    using cg [OF np [OF that]] ih(4) [OF that] by auto
  ultimately show ?case by blast
qed

section \<open>Properties\<close>

text \<open>
  C28: A process cannot raise itself. Whatever sequence of the eleven system calls it makes, with whatever outcome
  of the allocations, its permitted capabilities never grow and the effective ones stay within the
  permitted ones. If \<^verbatim>\<open>CAP_SETUID\<close> is not permitted to it, its real, effective and saved user identifiers
  stay among the three it started with; if \<^verbatim>\<open>CAP_SETGID\<close> is not, the same holds of the group
  identifiers, and the supplementary groups do not change.
\<close>

theorem cred_confinement:
  assumes "cred_reach s s'" "cap_issubset (cap_effective (cred_of s)) (cap_permitted (cred_of s))"
  shows "cap_issubset (cap_permitted (cred_of s')) (cap_permitted (cred_of s))
    \<and> cap_issubset (cap_effective (cred_of s')) (cap_permitted (cred_of s'))
    \<and> (\<not> cap_raised (cap_permitted (cred_of s)) CAP_SETUID \<longrightarrow> uids (cred_of s') \<subseteq> uids (cred_of s))
    \<and> (\<not> cap_raised (cap_permitted (cred_of s)) CAP_SETGID \<longrightarrow>
         sys_gids (cred_of s') \<subseteq> sys_gids (cred_of s) \<and> cr_groups (cred_of s') = cr_groups (cred_of s))"
  using cred_reach_inv [OF assms] by blast

text \<open>A user's process that runs a set-user-id program of user 500, and the process of the superuser.\<close>

definition user_cred :: cred where
  "user_cred = \<lparr>cr_uid = 1000, cr_gid = 100, cr_suid = 500, cr_sgid = 100, cr_euid = 500, cr_egid = 100,
     cr_fsuid = 500, cr_fsgid = 100, cr_securebits = 0, cap_inheritable = CAP_EMPTY_SET, cap_permitted = CAP_EMPTY_SET,
     cap_effective = CAP_EMPTY_SET, cap_bset = CAP_FULL_SET, cr_user = 1000, cr_groups = init_groups\<rparr>"

definition root_cred :: cred where
  "root_cred = user_cred\<lparr>cr_uid := 0, cr_suid := 0, cr_euid := 0, cr_fsuid := 0, cr_user := 0,
     cap_permitted := CAP_FULL_SET, cap_effective := CAP_FULL_SET\<rparr>"

definition demo_cstate :: "cred \<Rightarrow> cstate" where
  "demo_cstate c = \<lparr>cred_of = c, superpriv = False, has_mm = True, dumpable = 1, pdeath_signal = 0,
     processes = (\<lambda>_. 1), rlim_nproc = 100, suid_dumpable = 0\<rparr>"

definition demo_calloc :: calloc where
  "demo_calloc = \<lparr>cred_ok = True, user_ok = True,
     groups_mem = \<lparr>kmalloc_ok = True, page_ok = (\<lambda>_. True), uninit = (\<lambda>_ _. 0)\<rparr>\<rparr>"

theorem cred_confinement_witness:
  "uids (cred_of (fst (setreuid demo_calloc (demo_cstate user_cred) 500 1000))) \<subseteq> {1000, 500}"
proof -
  have "cred_reach (demo_cstate user_cred) (fst (setreuid demo_calloc (demo_cstate user_cred) 500 1000))"
    using cred_call [OF cred_refl, of demo_calloc "Setreuid 500 1000"] by simp
  from cred_confinement [OF this] show ?thesis
    by (simp add: demo_cstate_def user_cred_def uids_def insert_commute)
qed

lemma setuid_root:
  assumes "cap_raised (cap_effective (cred_of s)) CAP_SETUID" "0 \<in> uids (cred_of s)" "u \<noteq> 0"
    "\<not> issecure s SECURE_KEEP_CAPS" "\<not> issecure s SECURE_NO_SETUID_FIXUP" "setuid al s u = (s1, 0)"
  defines "c \<equiv> cred_of s1"
  shows "cr_uid c = u \<and> cr_euid c = u \<and> cr_suid c = u \<and> cr_fsuid c = u \<and> cap_permitted c = CAP_EMPTY_SET \<and> cap_effective c = CAP_EMPTY_SET"
proof -
  let ?c = "cred_of s" and ?s = "fst (capable s CAP_SETUID)"
  let ?n = "?c\<lparr>cr_suid := u, cr_uid := u\<rparr>"
  let ?x = "if u \<noteq> cr_uid ?c then set_user al ?s ?n else Inr ?n"
  have ok: "cred_ok al" using assms(6) by (auto simp: setuid_def prepare_creds_def ENOMEM_def split: if_splits)
  have eq: "setuid al s u = (case ?x of Inl e \<Rightarrow> (?s, e) | Inr n \<Rightarrow>
      commit_creds ?s (cap_task_fix_setuid ?s (n\<lparr>cr_fsuid := u, cr_euid := u\<rparr>) ?c LSM_SETID_ID))"
    unfolding setuid_eq [OF ok] using assms(1) by (simp only: if_True)
  obtain n where n: "?x = Inr n"
    using assms(6) unfolding eq by (cases ?x) (auto simp: set_user_def EAGAIN_def split: if_splits)
  obtain w where w: "n = ?n\<lparr>cr_user := w\<rparr>" using set_user_upd [OF n] by blast
  have "c = cap_task_fix_setuid ?s (n\<lparr>cr_fsuid := u, cr_euid := u\<rparr>) ?c LSM_SETID_ID"
    using assms(6) unfolding eq n c_def by (metis commit_creds_cred(1) fst_conv sum.case(2))
  then show ?thesis using assms(2-5)
    by (auto simp: w cap_task_fix_setuid_def cap_emulate_setxuid_def Let_def uids_def)
qed

text \<open>
  C29: Dropping privileges with \<^verbatim>\<open>setuid\<close> is final. If a process of the superuser that has not asked to keep
  its capabilities calls \<^verbatim>\<open>setuid\<close> with another user and the call succeeds, then after any further
  sequence of calls all its user identifiers are that user, and it has no capability.
\<close>

theorem setuid_drops_forever:
  assumes "cap_raised (cap_effective (cred_of s)) CAP_SETUID" "0 \<in> uids (cred_of s)" "u \<noteq> 0"
    "\<not> issecure s SECURE_KEEP_CAPS" "\<not> issecure s SECURE_NO_SETUID_FIXUP"
    "setuid al s u = (s1, 0)" "cred_reach s1 s2"
  shows "uids (cred_of s2) = {u} \<and> cr_fsuid (cred_of s2) = u
    \<and> cap_permitted (cred_of s2) = CAP_EMPTY_SET \<and> (\<forall>cap. \<not> snd (capable s2 cap))"
proof -
  note r = setuid_root [OF assms(1-6)]
  then have u: "uids (cred_of s1) = {u}" by (simp add: uids_def)
  have "cap_issubset (cap_effective (cred_of s1)) (cap_permitted (cred_of s1))" using r by simp
  from cred_reach_inv [OF assms(7) this] r u
  have *: "uids (cred_of s2) \<subseteq> {u}" "cr_fsuid (cred_of s2) = u" "cap_permitted (cred_of s2) = CAP_EMPTY_SET"
    "cap_effective (cred_of s2) = CAP_EMPTY_SET"
    by (auto simp: cap_issubset_empty_iff)
  moreover have "uids (cred_of s2) \<noteq> {}" by (simp add: uids_def)
  ultimately show ?thesis by auto
qed

lemma root_full [simp]: "cap_raised CAP_FULL_SET f"
proof -
  have "f AND 31 = take_bit 5 f" by (simp add: take_bit_eq_mask mask_eq_exp_minus_1)
  then have "f AND 31 < 32" by (simp add: take_bit_eq_mod)
  then show ?thesis by (simp add: cap_raised_bit cap_word_def CAP_FULL_SET_def)
qed

theorem setuid_drops_forever_witness:
  "\<exists>s1. setuid demo_calloc (demo_cstate root_cred) 1000 = (s1, 0) \<and> uids (cred_of (fst (setreuid demo_calloc s1 0 0))) = {1000}"
proof -
  define s1 where "s1 = fst (setuid demo_calloc (demo_cstate root_cred) 1000)"
  have "snd (setuid demo_calloc (demo_cstate root_cred) 1000) = 0"
    by (simp add: setuid_def call_defs demo_calloc_def demo_cstate_def root_cred_def set_user_def)
  then have s1: "setuid demo_calloc (demo_cstate root_cred) 1000 = (s1, 0)" by (simp add: s1_def prod_eq_iff)
  have "cred_reach s1 (fst (setreuid demo_calloc s1 0 0))"
    using cred_call [OF cred_refl, of demo_calloc "Setreuid 0 0"] by simp
  from setuid_drops_forever [OF _ _ _ _ _ s1 this] s1 show ?thesis
    by (simp add: demo_cstate_def root_cred_def user_cred_def uids_def issecure_def)
qed

text \<open>Only the flag that records the use of a capability may differ.\<close>

definition same_creds :: "cstate \<Rightarrow> cstate \<Rightarrow> bool" where
  "same_creds s s' \<longleftrightarrow> s' = s\<lparr>superpriv := superpriv s'\<rparr>"

lemma same_creds_refl [simp]: "same_creds s s"
  by (simp add: same_creds_def)

lemma same_creds_capable [simp]: "same_creds s (fst (capable s c))" "same_creds s (fst (or_capable s b c))"
  by (simp_all add: same_creds_def capable_def or_capable_def)

lemma same_creds_trans: "same_creds a b \<Longrightarrow> same_creds b c \<Longrightarrow> same_creds a c"
  by (cases a; cases b; cases c) (simp add: same_creds_def)

lemma same_creds_opt [simp]: "same_creds s (fst (if b then or_capable s x c else (s, True)))"
  by simp

definition err_keeps :: "cstate \<Rightarrow> cstate \<times> int \<Rightarrow> bool" where
  "err_keeps s y \<longleftrightarrow> (snd y \<noteq> 0 \<longrightarrow> same_creds s (fst y))"

lemma err_keeps_rules:
  "err_keeps s (commit_creds s1 n)"
  "same_creds s s1 \<Longrightarrow> err_keeps s (s1, e)"
  "err_keeps s x \<Longrightarrow> err_keeps s y \<Longrightarrow> err_keeps s (if b then x else y)"
  "same_creds s s1 \<Longrightarrow> err_keeps s (case z of Inl e \<Rightarrow> (s1, e) | Inr n \<Rightarrow> commit_creds s1 (g n))"
  "err_keeps s x \<Longrightarrow> (\<And>n. o' = Some n \<Longrightarrow> err_keeps s (f n)) \<Longrightarrow> err_keeps s (case o' of None \<Rightarrow> x | Some n \<Rightarrow> f n)"
  by (auto simp: err_keeps_def split: sum.split option.split)

lemma err_keeps_calls:
  "err_keeps s (setuid al s u)" "err_keeps s (setreuid al s r e)" "err_keeps s (setresuid al s r e u)"
  "err_keeps s (setgid al s g)" "err_keeps s (setregid al s r e)" "err_keeps s (setresgid al s r e g)"
proof -
  note unf = case_prod_unfold Let_def
  show "err_keeps s (setuid al s u)"
    unfolding setuid_def unf by (intro err_keeps_rules) simp_all
  show "err_keeps s (setreuid al s r e)"
    unfolding setreuid_def unf by (intro err_keeps_rules) (rule same_creds_refl same_creds_opt same_creds_trans [OF same_creds_opt])+
  show "err_keeps s (setresuid al s r e u)"
    unfolding setresuid_def unf by (intro err_keeps_rules) simp_all
  show "err_keeps s (setgid al s g)"
    unfolding setgid_def unf by (intro err_keeps_rules) simp_all
  show "err_keeps s (setregid al s r e)"
    unfolding setregid_def unf by (intro err_keeps_rules) (rule same_creds_refl same_creds_opt same_creds_trans [OF same_creds_opt])+
  show "err_keeps s (setresgid al s r e g)"
    unfolding setresgid_def unf by (intro err_keeps_rules) simp_all
qed

text \<open>
  C30: A call that fails changes nothing. If \<^verbatim>\<open>setuid\<close>, \<^verbatim>\<open>setreuid\<close>, \<^verbatim>\<open>setresuid\<close>, \<^verbatim>\<open>setgid\<close>, \<^verbatim>\<open>setregid\<close> or
  \<^verbatim>\<open>setresgid\<close> returns an error (no memory, no permission, or too many processes of the new user), then the
  credentials, the process counts and the rest of the state are as before, except for the flag that
  records the use of a capability.
\<close>

theorem failed_setid_changes_nothing:
  "(snd (setuid al s u) \<noteq> 0 \<longrightarrow> same_creds s (fst (setuid al s u)))
   \<and> (snd (setreuid al s r e) \<noteq> 0 \<longrightarrow> same_creds s (fst (setreuid al s r e)))
   \<and> (snd (setresuid al s r e u) \<noteq> 0 \<longrightarrow> same_creds s (fst (setresuid al s r e u)))
   \<and> (snd (setgid al s g) \<noteq> 0 \<longrightarrow> same_creds s (fst (setgid al s g)))
   \<and> (snd (setregid al s r e) \<noteq> 0 \<longrightarrow> same_creds s (fst (setregid al s r e)))
   \<and> (snd (setresgid al s r e g) \<noteq> 0 \<longrightarrow> same_creds s (fst (setresgid al s r e g)))"
  by (intro conjI err_keeps_calls [unfolded err_keeps_def])

text \<open>The limit of processes of user 2000 is reached.\<close>

theorem failed_setid_changes_nothing_witness:
  "setuid demo_calloc ((demo_cstate root_cred)\<lparr>rlim_nproc := 1\<rparr>) 2000 =
     (((demo_cstate root_cred)\<lparr>rlim_nproc := 1\<rparr>)\<lparr>superpriv := True\<rparr>, - EAGAIN)"
proof -
  let ?s = "(demo_cstate root_cred)\<lparr>rlim_nproc := 1\<rparr>"
  have r: "snd (setuid demo_calloc ?s 2000) = - EAGAIN" "superpriv (fst (setuid demo_calloc ?s 2000))"
    by (simp_all add: setuid_def call_defs demo_calloc_def demo_cstate_def root_cred_def set_user_def capable_def)
  have "snd (setuid demo_calloc ?s 2000) \<noteq> 0" using r(1) by (simp add: EAGAIN_def)
  then have "same_creds ?s (fst (setuid demo_calloc ?s 2000))" using failed_setid_changes_nothing by blast
  then have "fst (setuid demo_calloc ?s 2000) = ?s\<lparr>superpriv := True\<rparr>" using r(2) by (simp add: same_creds_def)
  then show ?thesis using r(1) by (simp add: prod_eq_iff)
qed

lemma setgroups_ok:
  assumes "setgroups al s m n p = Some (s', 0)" "in_cint n"
  obtains gi where "cr_groups (cred_of s') = gi" "gi_ok gi" "ngroups gi = nat n" "0 \<le> n" "sorted (gids gi)"
    "\<exists>xs. length xs = nat n \<and> mset (gids gi) = mset xs \<and> (\<forall>i < nat n. m (p + i) = Some (xs ! i))"
proof -
  obtain g0 live g1 where g: "groups_alloc (groups_mem al) (nat n) = (Some g0, live)" "groups_from_user g0 m p = Some g1"
    and fin: "set_current_groups al (fst (capable s CAP_SETGID)) g1 = Some (s', 0)"
    and n: "unat (word_of_int n :: u32) \<le> NGROUPS_MAX"
    using assms(1) by (auto simp: setgroups_def case_prod_unfold Let_def prod_eq_iff EPERM_def EINVAL_def ENOMEM_def EFAULT_def
        split: if_splits option.splits)
  have "0 \<le> n"
  proof (rule ccontr)
    assume "\<not> 0 \<le> n"
    then have "n mod 4294967296 = n + 4294967296"
      using assms(2) by (intro mod_pos_pos_trivial [of "n + 4294967296" 4294967296, simplified]) (auto simp: in_cint_def INT_MIN_def)
    then have "uint (word_of_int n :: u32) = n + 4294967296" by (simp add: uint_word_of_int)
    then show False using n assms(2) by (simp add: NGROUPS_MAX_def in_cint_def INT_MIN_def unat_eq_nat_uint nat_le_iff)
  qed
  note g0 = groups_alloc_ok [OF g(1)]
  note g1 = groups_from_user_ok [OF _ g(2)]
  have g1': "gi_ok g1" "ngroups g1 = nat n" using g1(1) g0 by (auto simp: gi_like_def)
  obtain gi where gi: "groups_sort g1 = Some gi" "gi_like g1 gi" "mset (gids gi) = mset (gids g1)" "sorted (gids gi)"
    using groups_sort_sorts [OF g1'(1)] .
  have "cr_groups (cred_of s') = gi"
    using fin gi(1) by (auto simp: set_current_groups_def set_groups_def prepare_creds_def ENOMEM_def prod_eq_iff
        split: if_splits dest!: arg_cong [of _ s' cred_of])
  then show ?thesis
    using that [of gi] gi g1' g1(2) g0 length_gids [OF g1'(1)] \<open>0 \<le> n\<close> by (auto simp: gi_like_def)
qed

text \<open>
  C31: \<^verbatim>\<open>setgroups\<close> and \<^verbatim>\<open>getgroups\<close> are inverse up to order. After a successful \<^verbatim>\<open>setgroups\<close> of \<open>n\<close> identifiers,
  \<^verbatim>\<open>getgroups\<close> into a writable array returns \<open>n\<close> and stores the same identifiers in ascending order, and
  the membership tests \<^verbatim>\<open>in_group_p\<close> and \<^verbatim>\<open>in_egroup_p\<close> accept exactly these and the group of the process.
\<close>

theorem setgroups_getgroups:
  assumes "setgroups al s m n p = Some (s', 0)" "in_cint n" "\<forall>i < nat n. m2 (q + i) \<noteq> None"
  shows "\<exists>xs m'. length xs = nat n \<and> (\<forall>i < nat n. m (p + i) = Some (xs ! i))
    \<and> getgroups s' m2 n q = (m', n) \<and> (\<forall>i < nat n. m' (q + i) = Some (sort xs ! i))
    \<and> (\<forall>g. in_group_p s' g = Some (g = cr_fsgid (cred_of s') \<or> g \<in> set xs))
    \<and> (\<forall>g. in_egroup_p s' g = Some (g = cr_egid (cred_of s') \<or> g \<in> set xs))"
proof (rule setgroups_ok [OF assms(1,2)])
  fix gi assume gi: "cr_groups (cred_of s') = gi" "gi_ok gi" "ngroups gi = nat n" "0 \<le> n" "sorted (gids gi)"
    and "\<exists>xs. length xs = nat n \<and> mset (gids gi) = mset xs \<and> (\<forall>i < nat n. m (p + i) = Some (xs ! i))"
  then obtain xs where xs: "length xs = nat n" "mset (gids gi) = mset xs" "\<forall>i < nat n. m (p + i) = Some (xs ! i)" by blast
  have sort: "sort xs = gids gi" using properties_for_sort [OF xs(2) gi(5)] .
  have set: "set xs = set (gids gi)" using mset_eq_setD [OF xs(2)] by simp
  define m' where "m' = (\<lambda>a. if q \<le> a \<and> a < q + nat n then Some (gids gi ! (a - q)) else m2 a)"
  have to: "groups_to_user m2 q gi = (m', 0)" using groups_to_user_ok [OF gi(2), of m2 q] gi(3) assms(3) by (simp add: m'_def)
  have get: "getgroups s' m2 n q = (if n = 0 then m2 else m', n)"
    using gi(1,3,4) to by (simp add: getgroups_def Let_def)
  have "n = 0 \<Longrightarrow> m' = m2" by (auto simp: m'_def fun_eq_iff)
  then have "getgroups s' m2 n q = (m', n)" using get by auto
  moreover have "\<forall>i < nat n. m' (q + i) = Some (sort xs ! i)" by (simp add: m'_def sort)
  moreover have "in_group_p s' g = Some (g = cr_fsgid (cred_of s') \<or> g \<in> set xs)"
    "in_egroup_p s' g = Some (g = cr_egid (cred_of s') \<or> g \<in> set xs)" for g
    using groups_search_sorted [OF gi(2,5)] by (simp_all add: in_group_p_def in_egroup_p_def gi(1) set)
  ultimately show ?thesis using xs by blast
qed

theorem setgroups_getgroups_witness:
  "\<exists>s'. setgroups demo_calloc (demo_cstate root_cred) [0 \<mapsto> 30, 1 \<mapsto> 10] 2 0 = Some (s', 0) \<and> in_group_p s' 10 = Some True"
proof -
  let ?m = "[0 \<mapsto> 30, 1 \<mapsto> 10] :: umem"
  let ?s = "demo_cstate root_cred"
  define g0 where "g0 = \<lparr>usage = 1, ngroups = 2, on_pages = False, blocks = [replicate 32 (0 :: u32)]\<rparr>"
  define g1 where "g1 = g0\<lparr>blocks := [[30, 10] @ replicate 30 0]\<rparr>"
  have "map (\<lambda>_. 0 :: u32) [0..<32] = replicate 32 0" by (simp add: map_replicate_const)
  then have "fst (groups_alloc (groups_mem demo_calloc) 2) = Some g0"
    by (simp add: groups_alloc_def demo_calloc_def g0_def NGROUPS_SMALL_def NGROUPS_PER_BLOCK_def)
  moreover have "groups_from_user g0 ?m 0 = Some g1"
    by (simp add: groups_from_user_def g0_def g1_def NGROUPS_PER_BLOCK_def numeral_2_eq_2 Let_def)
  moreover have "gi_ok g1" by (simp add: gi_ok_def g1_def g0_def nblocks_def NGROUPS_SMALL_def)
  then obtain gi where "groups_sort g1 = Some gi" by (rule groups_sort_sorts) blast
  moreover have "cap_raised (cap_effective (cred_of ?s)) CAP_SETGID" "cred_ok demo_calloc"
    by (simp_all add: demo_cstate_def root_cred_def demo_calloc_def)
  ultimately have "setgroups demo_calloc ?s ?m 2 0 =
      Some (commit_creds (fst (capable ?s CAP_SETGID)) ((cred_of ?s)\<lparr>cr_groups := gi\<rparr>))"
    by (simp add: setgroups_def case_prod_unfold Let_def NGROUPS_MAX_def set_current_groups_def prepare_creds_def set_groups_def)
  then obtain s' where s': "setgroups demo_calloc ?s ?m 2 0 = Some (s', 0)"
    by (metis commit_creds_cred(2) prod.collapse)
  have "\<forall>i < nat 2. ?m (0 + i) \<noteq> None" by (simp add: numeral_2_eq_2 All_less_Suc)
  then obtain xs where xs: "length xs = 2" "\<forall>i < 2. ?m (0 + i) = Some (xs ! i)"
    "in_group_p s' 10 = Some (10 = cr_fsgid (cred_of s') \<or> 10 \<in> set xs)"
    using setgroups_getgroups [OF s', of ?m 0] by (auto simp: in_cint_def INT_MIN_def INT_MAX_def)
  then have "xs ! 1 = 10" by (auto dest!: spec [of _ 1])
  then have "10 \<in> set xs" using xs(1) nth_mem [of 1 xs] by simp
  then show ?thesis using s' xs(3) by auto
qed

end
