(* ===== verification/Kfifo.thy ===== *)
theory Kfifo
  imports Prelude
begin

unbundle bit_operations_syntax

text \<open>
  The byte ring buffer of kernel/kfifo.c and include/linux/kfifo.h. The indices \<^verbatim>\<open>in\<close> and \<^verbatim>\<open>out\<close> are 32-bit words
  that are never reduced: they wrap at $2^{32}$, and the offset into the buffer is their low bits. The
  operations are first shown to refine a bounded queue of bytes, and then to be correct for one
  writer and one reader that run concurrently without a lock. \<^term>\<open>None\<close> is a copy outside of the
  buffer, or \<^verbatim>\<open>BUG_ON\<close>.
\<close>

section \<open>Operations\<close>

record kfifo =
  buffer :: "u8 list"
  fsize :: u32
  fin :: u32
  fout :: u32

definition is_power_of_2 :: "u64 \<Rightarrow> bool" where
  "is_power_of_2 n \<longleftrightarrow> n \<noteq> 0 \<and> n AND (n - 1) = 0"

text \<open>The position of the last bit that is set, from 1; 0 if there is none.\<close>

fun fls_nat :: "nat \<Rightarrow> nat" where
  "fls_nat n = (if n = 0 then 0 else Suc (fls_nat (n div 2)))"

declare fls_nat.simps [simp del]

definition fls_long :: "u64 \<Rightarrow> nat" where
  "fls_long l = fls_nat (unat l)"

text \<open>A shift by the width of the type is undefined.\<close>

definition roundup_pow_of_two :: "u64 \<Rightarrow> u64 option" where
  "roundup_pow_of_two n = (let k = fls_long (n - 1) in if k < 64 then Some (push_bit k 1) else None)"

text \<open>The allocator is an argument: the buffer it returns, if any, and whether the structure can be allocated.\<close>

definition kfifo_init :: "u8 list \<Rightarrow> u32 \<Rightarrow> bool \<Rightarrow> (int + kfifo) option" where
  "kfifo_init buf sz kmalloc_ok =
     (if \<not> is_power_of_2 (ucast sz) then None
      else if \<not> kmalloc_ok then Some (Inl (- ENOMEM))
      else Some (Inr \<lparr>buffer = buf, fsize = sz, fin = 0, fout = 0\<rparr>))"

definition kfifo_alloc :: "u32 \<Rightarrow> (nat \<Rightarrow> u8 list option) \<Rightarrow> bool \<Rightarrow> (int + kfifo) option" where
  "kfifo_alloc sz kmalloc kmalloc_ok = do {
     sz1 \<leftarrow> (if \<not> is_power_of_2 (ucast sz) then
                (if 0x80000000 < sz then None
                 else do { n \<leftarrow> roundup_pow_of_two (ucast sz); Some (ucast n) })
              else Some sz);
     case kmalloc (unat sz1) of
       None \<Rightarrow> Some (Inl (- ENOMEM))
     | Some buf \<Rightarrow> kfifo_init buf sz1 kmalloc_ok }"

text \<open>\<^verbatim>\<open>memcpy\<close> into and out of the buffer.\<close>

definition blit :: "u8 list \<Rightarrow> nat \<Rightarrow> u8 list \<Rightarrow> u8 list option" where
  "blit buf off xs =
     (if off + length xs \<le> length buf then Some (take off buf @ xs @ drop (off + length xs) buf) else None)"

definition slice :: "u8 list \<Rightarrow> nat \<Rightarrow> nat \<Rightarrow> u8 list option" where
  "slice buf off n = (if off + n \<le> length buf then Some (take n (drop off buf)) else None)"

text \<open>\<^verbatim>\<open>__kfifo_put\<close> in three parts, between which another processor may run: the length, the two copies, the new index.\<close>

definition put_len :: "kfifo \<Rightarrow> u32 \<Rightarrow> u32" where
  "put_len f len = min len (fsize f - fin f + fout f)"

definition put_copy :: "kfifo \<Rightarrow> u8 list \<Rightarrow> u32 \<Rightarrow> kfifo option" where
  "put_copy f data len =
     (let off = fin f AND (fsize f - 1); l = min len (fsize f - off)
      in do {
        b1 \<leftarrow> blit (buffer f) (unat off) (take (unat l) data);
        b2 \<leftarrow> blit b1 0 (take (unat (len - l)) (drop (unat l) data));
        Some (f\<lparr>buffer := b2\<rparr>) })"

definition put_end :: "kfifo \<Rightarrow> u32 \<Rightarrow> kfifo" where
  "put_end f len = f\<lparr>fin := fin f + len\<rparr>"

definition kfifo_put_nolock :: "kfifo \<Rightarrow> u8 list \<Rightarrow> u32 \<Rightarrow> (kfifo \<times> u32) option" where
  "kfifo_put_nolock f data len =
     (let len1 = put_len f len in do { f1 \<leftarrow> put_copy f data len1; Some (put_end f1 len1, len1) })"

definition get_len :: "kfifo \<Rightarrow> u32 \<Rightarrow> u32" where
  "get_len f len = min len (fin f - fout f)"

definition get_copy :: "kfifo \<Rightarrow> u32 \<Rightarrow> u8 list option" where
  "get_copy f len =
     (let off = fout f AND (fsize f - 1); l = min len (fsize f - off)
      in do {
        xs \<leftarrow> slice (buffer f) (unat off) (unat l);
        ys \<leftarrow> slice (buffer f) 0 (unat (len - l));
        Some (xs @ ys) })"

definition get_end :: "kfifo \<Rightarrow> u32 \<Rightarrow> kfifo" where
  "get_end f len = f\<lparr>fout := fout f + len\<rparr>"

definition kfifo_get_nolock :: "kfifo \<Rightarrow> u32 \<Rightarrow> (kfifo \<times> u8 list) option" where
  "kfifo_get_nolock f len =
     (let len1 = get_len f len in do { xs \<leftarrow> get_copy f len1; Some (get_end f len1, xs) })"

definition kfifo_reset :: "kfifo \<Rightarrow> kfifo" where
  "kfifo_reset f = f\<lparr>fin := 0, fout := 0\<rparr>"

text \<open>The versions that hold the lock are single steps.\<close>

definition kfifo_put :: "kfifo \<Rightarrow> u8 list \<Rightarrow> u32 \<Rightarrow> (kfifo \<times> u32) option" where
  "kfifo_put f data len = kfifo_put_nolock f data len"

definition kfifo_get :: "kfifo \<Rightarrow> u32 \<Rightarrow> (kfifo \<times> u8 list) option" where
  "kfifo_get f len = do {
     (f1, xs) \<leftarrow> kfifo_get_nolock f len;
     Some (if fin f1 = fout f1 then kfifo_reset f1 else f1, xs) }"

definition kfifo_len :: "kfifo \<Rightarrow> u32" where
  "kfifo_len f = fin f - fout f"

section \<open>The bytes in the buffer\<close>

text \<open>The queue \<open>q\<close> is in the buffer of $2^k$ bytes, and \<open>N\<close> bytes have been taken out before.\<close>

definition shape :: "kfifo \<Rightarrow> nat \<Rightarrow> bool" where
  "shape f k \<longleftrightarrow> k \<le> 31 \<and> fsize f = 2 ^ k \<and> length (buffer f) = 2 ^ k"

definition holds_q :: "kfifo \<Rightarrow> nat \<Rightarrow> nat \<Rightarrow> u8 list \<Rightarrow> bool" where
  "holds_q f k N q \<longleftrightarrow> shape f k \<and> fout f = of_nat N \<and> fin f = of_nat (N + length q) \<and> length q \<le> 2 ^ k
     \<and> (\<forall>j < length q. buffer f ! ((N + j) mod 2 ^ k) = q ! j)"

lemma pow31: "k \<le> 31 \<Longrightarrow> (2 ^ k :: nat) \<le> 2147483648"
  using power_increasing [of k 31 "2 :: nat"] by simp

lemma unat_small: "n \<le> 2147483648 \<Longrightarrow> unat (of_nat n :: u32) = n"
  by (simp add: unat_of_nat)

lemma unat_pow: "k \<le> 31 \<Longrightarrow> unat (2 ^ k :: u32) = 2 ^ k"
  using unat_small [OF pow31] by (metis of_nat_numeral of_nat_power)

lemma index_mask:
  assumes "k \<le> 31"
  shows "unat ((of_nat N :: u32) AND (2 ^ k - 1)) = N mod 2 ^ k"
proof -
  have "(of_nat N :: u32) AND (2 ^ k - 1) = take_bit k (of_nat N)"
    by (simp add: take_bit_eq_mask mask_eq_exp_minus_1)
  then have "unat ((of_nat N :: u32) AND (2 ^ k - 1)) = unat (take_bit k (of_nat N :: u32))" by (rule arg_cong)
  also have "\<dots> = take_bit k (unat (of_nat N :: u32))" by (rule unsigned_take_bit_eq)
  also have "\<dots> = N mod 4294967296 mod 2 ^ k" by (simp add: take_bit_eq_mod unat_of_nat)
  also have "\<dots> = N mod 2 ^ k"
  proof (rule mod_mod_cancel)
    have "(2 :: nat) ^ k dvd 2 ^ 32" using assms by (intro le_imp_power_dvd) simp
    then show "(2 :: nat) ^ k dvd 4294967296" by simp
  qed
  finally show ?thesis .
qed

lemma offset_wrap:
  assumes "j < (2 :: nat) ^ k"
  shows "(N + j) mod 2 ^ k = (if N mod 2 ^ k + j < 2 ^ k then N mod 2 ^ k + j else N mod 2 ^ k + j - 2 ^ k)"
proof -
  have "(N + j) mod 2 ^ k = (N mod 2 ^ k + j) mod 2 ^ k" by (simp add: mod_add_left_eq)
  moreover have "N mod 2 ^ k + j - 2 ^ k < 2 ^ k" using assms mod_less_divisor [of "2 ^ k" N] by linarith
  then have "\<not> N mod 2 ^ k + j < 2 ^ k \<Longrightarrow> (N mod 2 ^ k + j) mod 2 ^ k = N mod 2 ^ k + j - 2 ^ k"
    using assms by (simp add: le_mod_geq)
  ultimately show ?thesis by simp
qed

lemma blit_nth: "blit buf off xs = Some b \<Longrightarrow> p < length buf \<Longrightarrow>
    b ! p = (if off \<le> p \<and> p < off + length xs then xs ! (p - off) else buf ! p)"
  by (auto simp: blit_def nth_append min_def split: if_splits)

lemma blit_length: "blit buf off xs = Some b \<Longrightarrow> length b = length buf"
  by (auto simp: blit_def split: if_splits)

lemma index_offsets:
  assumes "shape f k" "x = of_nat M"
  shows "unat (x AND (fsize f - 1)) = M mod 2 ^ k"
    "unat (fsize f - (x AND (fsize f - 1))) = 2 ^ k - M mod 2 ^ k"
proof -
  have k: "k \<le> 31" "fsize f = 2 ^ k" using assms(1) by (auto simp: shape_def)
  show off: "unat (x AND (fsize f - 1)) = M mod 2 ^ k" using index_mask [OF k(1)] k(2) assms(2) by simp
  have "x AND (fsize f - 1) \<le> fsize f"
    using off unat_pow [OF k(1)] k(2) by (simp add: word_le_nat_alt less_imp_le)
  then show "unat (fsize f - (x AND (fsize f - 1))) = 2 ^ k - M mod 2 ^ k"
    using off unat_pow [OF k(1)] k(2) by (simp add: unat_sub)
qed

lemma unat_min: "unat (min a b) = min (unat a) (unat b)" for a b :: "'a :: len word"
  by (simp add: min_def word_le_nat_alt)

lemma put_copy_spec:
  assumes sh: "shape f k" and M: "fin f = of_nat M" and n: "unat len \<le> 2 ^ k" "unat len \<le> length data"
  obtains b where "put_copy f data len = Some (f\<lparr>buffer := b\<rparr>)" "length b = 2 ^ k"
    "\<And>j. j < unat len \<Longrightarrow> b ! ((M + j) mod 2 ^ k) = data ! j"
    "\<And>p. p < 2 ^ k \<Longrightarrow> (\<And>j. j < unat len \<Longrightarrow> (M + j) mod 2 ^ k \<noteq> p) \<Longrightarrow> b ! p = buffer f ! p"
proof -
  define off where "off = M mod 2 ^ k"
  define l where "l = min (unat len) (2 ^ k - off)"
  note po = index_offsets [OF sh M, folded off_def]
  have off: "off < 2 ^ k" by (simp add: off_def)
  have buf: "length (buffer f) = 2 ^ k" using sh by (simp add: shape_def)
  let ?l = "min len (fsize f - (fin f AND (fsize f - 1)))"
  have ul: "unat ?l = l" by (simp add: unat_min po l_def)
  have "?l \<le> len" by simp
  then have ur: "unat (len - ?l) = unat len - l" by (simp add: unat_sub ul)
  have fits: "off + l \<le> 2 ^ k" "unat len - l \<le> 2 ^ k" using off n by (auto simp: l_def)
  have lt: "length (take l data) = l" "length (take (unat len - l) (drop l data)) = unat len - l"
    using n(2) by (auto simp: l_def)
  have ll: "l \<le> length data" using n(2) by (simp add: l_def)
  obtain b1 where b1: "blit (buffer f) off (take l data) = Some b1"
    using buf fits lt(1) by (simp add: blit_def del: length_take)
  then have lb1: "length b1 = 2 ^ k" using buf blit_length by fastforce
  obtain b2 where b2: "blit b1 0 (take (unat len - l) (drop l data)) = Some b2"
    using lb1 fits lt(2) by (simp add: blit_def del: length_take)
  have nth: "b2 ! p = (if p < unat len - l then data ! (l + p) else if off \<le> p \<and> p < off + l then data ! (p - off) else buffer f ! p)"
    if "p < 2 ^ k" for p
    using blit_nth [OF b2, of p] blit_nth [OF b1, of p] that buf lb1 lt ll by auto
  show ?thesis
  proof (rule that)
    show "put_copy f data len = Some (f\<lparr>buffer := b2\<rparr>)"
      using b1 b2 by (simp add: put_copy_def Let_def po ul ur)
    show "length b2 = 2 ^ k" using blit_length [OF b2] lb1 by simp
    show "b2 ! ((M + j) mod 2 ^ k) = data ! j" if "j < unat len" for j
      using nth [of "(M + j) mod 2 ^ k"] offset_wrap [of j k M, folded off_def] that n(1) off
      by (auto simp: l_def)
    show "b2 ! p = buffer f ! p" if "p < 2 ^ k" "\<And>j. j < unat len \<Longrightarrow> (M + j) mod 2 ^ k \<noteq> p" for p
    proof -
      have "\<not> (off \<le> p \<and> p < off + l)"
      proof
        assume p: "off \<le> p \<and> p < off + l"
        then have "p - off < unat len" "p - off < 2 ^ k" using that(1) by (auto simp: l_def)
        then show False using that(2) [of "p - off"] offset_wrap [of "p - off" k M, folded off_def] p that(1) by auto
      qed
      moreover have "\<not> p < unat len - l"
      proof
        assume p: "p < unat len - l"
        then have l: "l = 2 ^ k - off" "p + l < unat len" by (auto simp: l_def min_def split: if_splits)
        then have "(M + (p + l)) mod 2 ^ k = p"
          using offset_wrap [of "p + l" k M, folded off_def] n(1) off by auto
        then show False using that(2) [OF l(2)] by simp
      qed
      ultimately show ?thesis unfolding nth [OF that(1)] by argo
    qed
  qed
qed

lemma get_copy_spec:
  assumes sh: "shape f k" and N: "fout f = of_nat N" and n: "unat len \<le> 2 ^ k"
  shows "get_copy f len = Some (map (\<lambda>j. buffer f ! ((N + j) mod 2 ^ k)) [0..<unat len])"
proof -
  define off where "off = N mod 2 ^ k"
  define l where "l = min (unat len) (2 ^ k - off)"
  note po = index_offsets [OF sh N, folded off_def]
  have off: "off < 2 ^ k" by (simp add: off_def)
  have buf: "length (buffer f) = 2 ^ k" using sh by (simp add: shape_def)
  let ?l = "min len (fsize f - (fout f AND (fsize f - 1)))"
  have ul: "unat ?l = l" by (simp add: unat_min po l_def)
  have "?l \<le> len" by simp
  then have ur: "unat (len - ?l) = unat len - l" by (simp add: unat_sub ul)
  have fits: "off + l \<le> 2 ^ k" "unat len - l \<le> 2 ^ k" using off n by (auto simp: l_def)
  have "take l (drop off (buffer f)) @ take (unat len - l) (buffer f) =
      map (\<lambda>j. buffer f ! ((N + j) mod 2 ^ k)) [0..<unat len]" (is "?xs = ?ys")
  proof (rule nth_equalityI)
    show "length ?xs = length ?ys" using fits buf off n by (auto simp: l_def)
    fix j assume "j < length ?xs"
    then have j: "j < unat len" using fits buf by (auto simp: l_def)
    show "?xs ! j = ?ys ! j"
      using j offset_wrap [of j k N, folded off_def] n buf fits off
      by (auto simp: nth_append l_def min_def add.commute)
  qed
  then show ?thesis using fits buf by (simp add: get_copy_def Let_def po ul ur slice_def)
qed

section \<open>Refinement of a bounded queue\<close>

text \<open>
  What the users of a byte queue rely on: a representation invariant, the queue that an object
  holds, and a bounded put and get.
\<close>

locale byte_queue =
  fixes ok :: "'f \<Rightarrow> bool" and room :: "'f \<Rightarrow> nat" and q_of :: "'f \<Rightarrow> u8 list"
    and put :: "'f \<Rightarrow> u8 list \<Rightarrow> u32 \<Rightarrow> ('f \<times> u32) option"
    and get :: "'f \<Rightarrow> u32 \<Rightarrow> ('f \<times> u8 list) option"
  assumes put_law: "ok f \<Longrightarrow> unat n \<le> length xs \<Longrightarrow>
      \<exists>f' r. put f xs n = Some (f', r) \<and> ok f' \<and> unat r = min (unat n) (room f)
        \<and> q_of f' = q_of f @ take (unat r) xs \<and> room f' = room f - unat r"
    and get_law: "ok f \<Longrightarrow>
      \<exists>f' ys. get f n = Some (f', ys) \<and> ok f' \<and> ys = take (unat n) (q_of f) \<and> q_of f' = drop (unat n) (q_of f)
        \<and> room f' = room f + length ys"
begin

text \<open>What fits is returned unchanged, in order and behind what was there before.\<close>

lemma put_get:
  assumes "ok f" "unat n = length xs" "length xs \<le> room f" "unat m = length (q_of f) + length xs"
  shows "\<exists>f' f''. put f xs n = Some (f', n) \<and> get f' m = Some (f'', q_of f @ xs) \<and> ok f'' \<and> q_of f'' = []"
proof -
  obtain f' r where f': "put f xs n = Some (f', r)" "ok f'" "unat r = min (unat n) (room f)" "q_of f' = q_of f @ take (unat r) xs"
    using put_law [OF assms(1), of n xs] assms(2) by auto
  then have r: "r = n" using assms by (simp add: word_unat_eq_iff)
  obtain f'' ys where "get f' m = Some (f'', ys)" "ok f''" "ys = take (unat m) (q_of f')" "q_of f'' = drop (unat m) (q_of f')"
    using get_law [OF f'(2), of m] by auto
  then show ?thesis using f' r assms by auto
qed

end

definition kq_ok :: "kfifo \<Rightarrow> bool" where
  "kq_ok f \<longleftrightarrow> (\<exists>k N q. holds_q f k N q)"

definition kq_bytes :: "kfifo \<Rightarrow> u8 list" where
  "kq_bytes f = map (\<lambda>j. buffer f ! unat ((fout f + of_nat j) AND (fsize f - 1))) [0..<unat (fin f - fout f)]"

definition kq_room :: "kfifo \<Rightarrow> nat" where
  "kq_room f = unat (fsize f) - unat (fin f - fout f)"

lemma holds_q_len:
  assumes "holds_q f k N q"
  shows "fin f - fout f = of_nat (length q)" "unat (fin f - fout f) = length q" "unat (fsize f) = 2 ^ k"
proof -
  show l: "fin f - fout f = of_nat (length q)" using assms by (simp add: holds_q_def)
  have k: "k \<le> 31" "length q \<le> 2 ^ k" using assms by (auto simp: holds_q_def shape_def)
  then have "length q \<le> 2147483648" using pow31 [OF k(1)] by simp
  then show "unat (fin f - fout f) = length q" using l unat_small by simp
  show "unat (fsize f) = 2 ^ k" using assms unat_pow [OF k(1)] by (simp add: holds_q_def shape_def)
qed

lemma holds_q_abs:
  assumes "holds_q f k N q"
  shows "kq_bytes f = q" "kq_room f = 2 ^ k - length q"
proof -
  show "kq_room f = 2 ^ k - length q" using holds_q_len [OF assms] by (simp add: kq_room_def)
  have "buffer f ! unat ((fout f + of_nat j) AND (fsize f - 1)) = q ! j" if "j < length q" for j
  proof -
    have sh: "shape f k" "fout f + of_nat j = of_nat (N + j)" using assms by (auto simp: holds_q_def)
    then show ?thesis using index_offsets(1) [OF sh] assms that by (simp add: holds_q_def)
  qed
  then show "kq_bytes f = q"
    using holds_q_len(2) [OF assms] by (intro nth_equalityI) (simp_all add: kq_bytes_def)
qed

lemma put_len_spec:
  assumes "holds_q f k N q"
  shows "unat (put_len f len) = min (unat len) (2 ^ k - length q)"
proof -
  have eq: "fsize f - fin f + fout f = fsize f - (fin f - fout f)" by simp
  have "fin f - fout f \<le> fsize f"
    using holds_q_len(2,3) [OF assms] assms by (simp add: word_le_nat_alt holds_q_def)
  then have "unat (fsize f - (fin f - fout f)) = 2 ^ k - length q"
    using holds_q_len(2,3) [OF assms] by (simp only: unat_sub)
  then show ?thesis unfolding put_len_def unat_min eq by simp
qed

lemma get_len_spec: "holds_q f k N q \<Longrightarrow> unat (get_len f len) = min (unat len) (length q)"
  using holds_q_len(2) [of f k N q] by (simp add: get_len_def unat_min)

text \<open>The slots of two positions that are less than the size apart differ.\<close>

lemma slots_differ:
  assumes "i < j" "j < i + 2 ^ k"
  shows "i mod 2 ^ k \<noteq> j mod (2 :: nat) ^ k"
proof
  assume "i mod 2 ^ k = j mod 2 ^ k"
  then have "2 ^ k dvd j - i" using assms(1) mod_eq_dvd_iff_nat [of i j "2 ^ k"] by simp
  then have "2 ^ k \<le> j - i" using assms(1) by (intro dvd_imp_le) auto
  then show False using assms by simp
qed

lemma put_refines:
  assumes "holds_q f k N q" "unat len \<le> length data"
  obtains f' r where "kfifo_put_nolock f data len = Some (f', r)" "unat r = min (unat len) (2 ^ k - length q)"
    "holds_q f' k N (q @ take (unat r) data)"
proof -
  define r where "r = put_len f len"
  have r: "unat r = min (unat len) (2 ^ k - length q)" using put_len_spec [OF assms(1)] by (simp add: r_def)
  have sh: "shape f k" "fin f = of_nat (N + length q)" "length q \<le> 2 ^ k" "fout f = of_nat N" using assms(1) by (auto simp: holds_q_def)
  have b: "unat r \<le> 2 ^ k" "unat r \<le> length data" using r assms(2) by auto
  obtain buf where buf: "put_copy f data r = Some (f\<lparr>buffer := buf\<rparr>)" "length buf = 2 ^ k"
    "\<And>j. j < unat r \<Longrightarrow> buf ! ((N + length q + j) mod 2 ^ k) = data ! j"
    "\<And>p. p < 2 ^ k \<Longrightarrow> (\<And>j. j < unat r \<Longrightarrow> (N + length q + j) mod 2 ^ k \<noteq> p) \<Longrightarrow> buf ! p = buffer f ! p"
    by (rule put_copy_spec [OF sh(1,2) b]) blast
  have old: "buf ! ((N + j) mod 2 ^ k) = q ! j" if "j < length q" for j
  proof -
    have "(N + length q + i) mod 2 ^ k \<noteq> (N + j) mod 2 ^ k" if "i < unat r" for i
    proof -
      have "length q + i < 2 ^ k" using that r by linarith
      then show ?thesis using slots_differ [of "N + j" "N + length q + i" k] \<open>j < length q\<close> by auto
    qed
    then show ?thesis using buf(4) [of "(N + j) mod 2 ^ k"] assms(1) that by (simp add: holds_q_def)
  qed
  have "holds_q (put_end (f\<lparr>buffer := buf\<rparr>) r) k N (q @ take (unat r) data)"
    unfolding holds_q_def
  proof (intro conjI allI impI)
    show "fin (put_end (f\<lparr>buffer := buf\<rparr>) r) = of_nat (N + length (q @ take (unat r) data))"
      using sh b by (simp add: put_end_def)
    show "length (q @ take (unat r) data) \<le> 2 ^ k" using r sh(3) by auto
    fix j assume j: "j < length (q @ take (unat r) data)"
    show "buffer (put_end (f\<lparr>buffer := buf\<rparr>) r) ! ((N + j) mod 2 ^ k) = (q @ take (unat r) data) ! j"
      using old [of j] buf(3) [of "j - length q"] j b by (auto simp: put_end_def nth_append)
  qed (use sh buf(2) in \<open>auto simp: shape_def put_end_def\<close>)
  then show ?thesis using that [of "put_end (f\<lparr>buffer := buf\<rparr>) r" r] buf(1) r
    by (simp add: kfifo_put_nolock_def Let_def r_def [symmetric])
qed

lemma get_refines:
  assumes "holds_q f k N q"
  shows "\<exists>f'. kfifo_get_nolock f len = Some (f', take (unat len) q)
    \<and> holds_q f' k (N + min (unat len) (length q)) (drop (unat len) q) \<and> fsize f' = fsize f \<and> buffer f' = buffer f"
proof -
  define r where "r = get_len f len"
  have r: "unat r = min (unat len) (length q)" using get_len_spec [OF assms] by (simp add: r_def)
  have sh: "shape f k" "fout f = of_nat N" "length q \<le> 2 ^ k" using assms by (auto simp: holds_q_def)
  have "get_copy f r = Some (map (\<lambda>j. buffer f ! ((N + j) mod 2 ^ k)) [0..<unat r])"
    using get_copy_spec [OF sh(1,2)] r sh(3) by simp
  moreover have "map (\<lambda>j. buffer f ! ((N + j) mod 2 ^ k)) [0..<unat r] = take (unat len) q"
    using assms r by (intro nth_equalityI) (auto simp: holds_q_def)
  moreover have rw: "r = of_nat (min (unat len) (length q))" using r by (metis of_nat_unat ucast_id)
  have "holds_q (get_end f r) k (N + min (unat len) (length q)) (drop (unat len) q)"
    unfolding holds_q_def
  proof (intro conjI allI impI)
    show "fout (get_end f r) = of_nat (N + min (unat len) (length q))" using sh rw by (simp add: get_end_def)
    have e: "N + min (unat len) (length q) + length (drop (unat len) q) = N + length q" by simp
    show "fin (get_end f r) = of_nat (N + min (unat len) (length q) + length (drop (unat len) q))"
      unfolding e using assms by (simp add: get_end_def holds_q_def)
    fix j assume "j < length (drop (unat len) q)"
    then show "buffer (get_end f r) ! ((N + min (unat len) (length q) + j) mod 2 ^ k) = drop (unat len) q ! j"
      using assms by (simp add: get_end_def holds_q_def add.assoc)
  qed (use sh in \<open>auto simp: shape_def get_end_def\<close>)
  ultimately show ?thesis by (simp add: kfifo_get_nolock_def Let_def r_def [symmetric]) (simp add: get_end_def)
qed

lemma holds_q_reset:
  assumes "holds_q f k N q" "fin f = fout f"
  shows "holds_q (kfifo_reset f) k 0 q"
proof -
  have "q = []" using holds_q_len(2) [OF assms(1)] assms(2) by simp
  then show ?thesis using assms(1) by (simp add: holds_q_def shape_def kfifo_reset_def)
qed

lemma kfifo_get_refines:
  assumes "holds_q f k N q"
  shows "\<exists>f' N'. kfifo_get f len = Some (f', take (unat len) q) \<and> holds_q f' k N' (drop (unat len) q)"
proof -
  obtain f1 where "kfifo_get_nolock f len = Some (f1, take (unat len) q)"
    "holds_q f1 k (N + min (unat len) (length q)) (drop (unat len) q)"
    using get_refines [OF assms] by blast
  then show ?thesis using holds_q_reset [of f1 k _ "drop (unat len) q"]
    by (cases "fin f1 = fout f1") (auto simp: kfifo_get_def)
qed

lemma kfifo_put_law:
  assumes "kq_ok f" "unat n \<le> length xs"
  shows "\<exists>f' r. kfifo_put f xs n = Some (f', r) \<and> kq_ok f' \<and> unat r = min (unat n) (kq_room f)
    \<and> kq_bytes f' = kq_bytes f @ take (unat r) xs \<and> kq_room f' = kq_room f - unat r"
proof -
  obtain k N q where h: "holds_q f k N q" using assms(1) by (auto simp: kq_ok_def)
  obtain f' r where f': "kfifo_put_nolock f xs n = Some (f', r)" "unat r = min (unat n) (2 ^ k - length q)"
    "holds_q f' k N (q @ take (unat r) xs)" by (rule put_refines [OF h assms(2)])
  then show ?thesis
    using holds_q_abs [OF h] holds_q_abs [OF f'(3)] assms(2) by (auto simp: kfifo_put_def kq_ok_def)
qed

lemma kfifo_get_law:
  assumes "kq_ok f"
  shows "\<exists>f' ys. kfifo_get f n = Some (f', ys) \<and> kq_ok f' \<and> ys = take (unat n) (kq_bytes f)
    \<and> kq_bytes f' = drop (unat n) (kq_bytes f) \<and> kq_room f' = kq_room f + length ys"
proof -
  obtain k N q where h: "holds_q f k N q" using assms by (auto simp: kq_ok_def)
  obtain f' N' where f': "kfifo_get f n = Some (f', take (unat n) q)" "holds_q f' k N' (drop (unat n) q)"
    using kfifo_get_refines [OF h] by blast
  have "length q \<le> 2 ^ k" using h by (simp add: holds_q_def)
  then show ?thesis using f' holds_q_abs [OF h] holds_q_abs [OF f'(2)] by (auto simp: kq_ok_def)
qed

interpretation kq: byte_queue kq_ok kq_room kq_bytes kfifo_put kfifo_get
  by unfold_locales (use kfifo_put_law kfifo_get_law in blast)+

section \<open>One writer and one reader without a lock\<close>

text \<open>
  The state of a put and of a get that is in progress on its processor. \<open>sent\<close> and \<open>recvd\<close> record the
  bytes of the puts and gets that have returned. The steps of the two processors interleave
  arbitrarily; the memory barriers in the code order the steps of each processor.
\<close>

datatype writer = WIdle | WLen "u8 list" u32 | WCopied "u8 list" u32

datatype reader = RIdle | RLen u32 | RCopied u32 "u8 list"

record fifo_sys =
  fifo :: kfifo
  wr :: writer
  rdr :: reader
  sent :: "u8 list"
  recvd :: "u8 list"

inductive fifo_step :: "fifo_sys \<Rightarrow> fifo_sys \<Rightarrow> bool" where
  w_len: "wr s = WIdle \<Longrightarrow> unat len \<le> length data \<Longrightarrow>
    fifo_step s (s\<lparr>wr := WLen data (put_len (fifo s) len)\<rparr>)"
| w_copy: "wr s = WLen data n \<Longrightarrow> put_copy (fifo s) data n = Some f \<Longrightarrow>
    fifo_step s (s\<lparr>fifo := f, wr := WCopied data n\<rparr>)"
| w_end: "wr s = WCopied data n \<Longrightarrow>
    fifo_step s (s\<lparr>fifo := put_end (fifo s) n, wr := WIdle, sent := sent s @ take (unat n) data\<rparr>)"
| r_len: "rdr s = RIdle \<Longrightarrow> fifo_step s (s\<lparr>rdr := RLen (get_len (fifo s) len)\<rparr>)"
| r_copy: "rdr s = RLen n \<Longrightarrow> get_copy (fifo s) n = Some xs \<Longrightarrow> fifo_step s (s\<lparr>rdr := RCopied n xs\<rparr>)"
| r_end: "rdr s = RCopied n xs \<Longrightarrow>
    fifo_step s (s\<lparr>fifo := get_end (fifo s) n, rdr := RIdle, recvd := recvd s @ xs\<rparr>)"

inductive fifo_reach :: "fifo_sys \<Rightarrow> bool" where
  fifo_init: "kfifo_init buf sz True = Some (Inr f) \<Longrightarrow> length buf = unat sz \<Longrightarrow>
    fifo_reach \<lparr>fifo = f, wr = WIdle, rdr = RIdle, sent = [], recvd = []\<rparr>"
| fifo_next: "fifo_reach s \<Longrightarrow> fifo_step s s' \<Longrightarrow> fifo_reach s'"

inductive_cases fifo_stepE: "fifo_step s s'"

text \<open>The bytes between the two indices are in the buffer; what the writer has written beyond \<^verbatim>\<open>in\<close> does not
  overlap them.\<close>

definition w_inv :: "nat \<Rightarrow> fifo_sys \<Rightarrow> bool" where
  "w_inv k s = (case wr s of
     WIdle \<Rightarrow> True
   | WLen data n \<Rightarrow> unat n \<le> length data \<and> length (sent s) + unat n \<le> length (recvd s) + 2 ^ k
   | WCopied data n \<Rightarrow> unat n \<le> length data \<and> length (sent s) + unat n \<le> length (recvd s) + 2 ^ k
       \<and> (\<forall>j < unat n. buffer (fifo s) ! ((length (sent s) + j) mod 2 ^ k) = data ! j))"

definition r_inv :: "fifo_sys \<Rightarrow> bool" where
  "r_inv s = (case rdr s of
     RIdle \<Rightarrow> True
   | RLen n \<Rightarrow> length (recvd s) + unat n \<le> length (sent s)
   | RCopied n xs \<Rightarrow> length (recvd s) + unat n \<le> length (sent s) \<and> xs = take (unat n) (drop (length (recvd s)) (sent s)))"

definition fifo_inv :: "nat \<Rightarrow> fifo_sys \<Rightarrow> bool" where
  "fifo_inv k s \<longleftrightarrow> recvd s = take (length (recvd s)) (sent s)
     \<and> holds_q (fifo s) k (length (recvd s)) (drop (length (recvd s)) (sent s)) \<and> w_inv k s \<and> r_inv s"

lemma inv_frames [simp]:
  "r_inv (s\<lparr>wr := x\<rparr>) = r_inv s" "r_inv (s\<lparr>fifo := f\<rparr>) = r_inv s" "w_inv k (s\<lparr>rdr := y\<rparr>) = w_inv k s"
  by (simp_all add: r_inv_def w_inv_def split: reader.split writer.split)

lemma fifo_inv_facts:
  assumes "fifo_inv k s"
  defines "R \<equiv> length (recvd s)" and "S \<equiv> length (sent s)"
  shows "shape (fifo s) k" "fout (fifo s) = of_nat R" "fin (fifo s) = of_nat S" "R \<le> S" "S \<le> R + 2 ^ k"
    "\<And>i. R \<le> i \<Longrightarrow> i < S \<Longrightarrow> buffer (fifo s) ! (i mod 2 ^ k) = sent s ! i"
proof -
  have "length (recvd s) = length (take (length (recvd s)) (sent s))" using assms(1) by (simp add: fifo_inv_def)
  then show le: "R \<le> S" unfolding R_def S_def by simp
  have h: "holds_q (fifo s) k R (drop R (sent s))" using assms by (simp add: fifo_inv_def R_def)
  show "shape (fifo s) k" "fout (fifo s) = of_nat R" using h by (simp_all add: holds_q_def)
  have "R + length (drop R (sent s)) = S" using le by (simp add: S_def)
  then show "fin (fifo s) = of_nat S" using h unfolding holds_q_def by simp
  show "S \<le> R + 2 ^ k" using h unfolding holds_q_def by (simp add: S_def) linarith
  fix i assume i: "R \<le> i" "i < S"
  have "\<forall>j < length (drop R (sent s)). buffer (fifo s) ! ((R + j) mod 2 ^ k) = drop R (sent s) ! j"
    using h by (simp add: holds_q_def)
  from this [rule_format, of "i - R"] show "buffer (fifo s) ! (i mod 2 ^ k) = sent s ! i"
    using i by (simp add: S_def)
qed

lemma holds_qI:
  assumes "shape f k" "fout f = of_nat R" "fin f = of_nat (length xs)" "R \<le> length xs" "length xs \<le> R + 2 ^ k"
    "\<And>i. R \<le> i \<Longrightarrow> i < length xs \<Longrightarrow> buffer f ! (i mod 2 ^ k) = xs ! i"
  shows "holds_q f k R (drop R xs)"
proof -
  have "R + length (drop R xs) = length xs" using assms(4) by simp
  then show ?thesis unfolding holds_q_def using assms by simp
qed

lemma w_len_inv:
  assumes "fifo_inv k s" "wr s = WIdle" "unat len \<le> length data"
  shows "fifo_inv k (s\<lparr>wr := WLen data (put_len (fifo s) len)\<rparr>)"
proof -
  have h: "holds_q (fifo s) k (length (recvd s)) (drop (length (recvd s)) (sent s))" using assms(1) by (simp add: fifo_inv_def)
  have "unat (put_len (fifo s) len) \<le> length data" "length (sent s) + unat (put_len (fifo s) len) \<le> length (recvd s) + 2 ^ k"
    using put_len_spec [OF h, of len] fifo_inv_facts(4,5) [OF assms(1)] assms(3) by auto
  then show ?thesis using assms(1) by (simp add: fifo_inv_def) (simp add: w_inv_def)
qed

lemma w_copy_inv:
  assumes "fifo_inv k s" "wr s = WLen data n" "put_copy (fifo s) data n = Some f"
  shows "fifo_inv k (s\<lparr>fifo := f, wr := WCopied data n\<rparr>)"
proof -
  note i = fifo_inv_facts [OF assms(1)]
  have n: "unat n \<le> length data" "length (sent s) + unat n \<le> length (recvd s) + 2 ^ k"
    using assms(1,2) by (simp_all add: fifo_inv_def w_inv_def)
  have le: "unat n \<le> 2 ^ k" using n(2) i(4) by linarith
  obtain b where b: "put_copy (fifo s) data n = Some ((fifo s)\<lparr>buffer := b\<rparr>)" "length b = 2 ^ k"
    "\<And>j. j < unat n \<Longrightarrow> b ! ((length (sent s) + j) mod 2 ^ k) = data ! j"
    "\<And>p. p < 2 ^ k \<Longrightarrow> (\<And>j. j < unat n \<Longrightarrow> (length (sent s) + j) mod 2 ^ k \<noteq> p) \<Longrightarrow> b ! p = buffer (fifo s) ! p"
    by (rule put_copy_spec [OF i(1,3) le n(1)]) blast
  have f: "f = (fifo s)\<lparr>buffer := b\<rparr>" using b(1) assms(3) by simp
  have "b ! (p mod 2 ^ k) = sent s ! p" if p: "length (recvd s) \<le> p" "p < length (sent s)" for p
  proof -
    have "(length (sent s) + j) mod 2 ^ k \<noteq> p mod 2 ^ k" if "j < unat n" for j
      using slots_differ [of p "length (sent s) + j" k] p that n(2) by simp
    then show ?thesis using b(4) [of "p mod 2 ^ k"] i(6) [OF p] by simp
  qed
  then have "holds_q f k (length (recvd s)) (drop (length (recvd s)) (sent s))"
    using i b(2) by (intro holds_qI) (simp_all add: f shape_def)
  moreover have "w_inv k (s\<lparr>fifo := f, wr := WCopied data n\<rparr>)" using n b(3) by (simp add: w_inv_def f)
  ultimately show ?thesis using assms(1) by (simp add: fifo_inv_def)
qed

lemma w_end_inv:
  assumes "fifo_inv k s" "wr s = WCopied data n"
  shows "fifo_inv k (s\<lparr>fifo := put_end (fifo s) n, wr := WIdle, sent := sent s @ take (unat n) data\<rparr>)"
proof -
  note i = fifo_inv_facts [OF assms(1)]
  have n: "unat n \<le> length data" "length (sent s) + unat n \<le> length (recvd s) + 2 ^ k"
    "\<forall>j < unat n. buffer (fifo s) ! ((length (sent s) + j) mod 2 ^ k) = data ! j"
    using assms by (simp_all add: fifo_inv_def w_inv_def)
  let ?xs = "sent s @ take (unat n) data"
  have h: "holds_q (put_end (fifo s) n) k (length (recvd s)) (drop (length (recvd s)) ?xs)"
  proof (rule holds_qI)
    fix p assume p: "length (recvd s) \<le> p" "p < length ?xs"
    show "buffer (put_end (fifo s) n) ! (p mod 2 ^ k) = ?xs ! p"
    proof (cases "p < length (sent s)")
      case True
      then show ?thesis using i(6) [OF p(1)] by (simp add: put_end_def nth_append)
    next
      case False
      then show ?thesis using n(3) [rule_format, of "p - length (sent s)"] p(2) n(1)
        by (simp add: put_end_def nth_append)
    qed
  qed (use i n in \<open>simp_all add: put_end_def shape_def\<close>)
  have p: "recvd s = take (length (recvd s)) ?xs" and r: "r_inv s"
    using assms(1) i(4) by (simp_all add: fifo_inv_def)
  from r have "r_inv (s\<lparr>fifo := put_end (fifo s) n, wr := WIdle, sent := ?xs\<rparr>)"
    by (auto simp: r_inv_def split: reader.splits)
  then show ?thesis unfolding fifo_inv_def w_inv_def using h p [symmetric] by simp
qed

lemma r_len_inv:
  assumes "fifo_inv k s"
  shows "fifo_inv k (s\<lparr>rdr := RLen (get_len (fifo s) len)\<rparr>)"
proof -
  have h: "holds_q (fifo s) k (length (recvd s)) (drop (length (recvd s)) (sent s))" using assms by (simp add: fifo_inv_def)
  have "length (recvd s) + unat (get_len (fifo s) len) \<le> length (sent s)"
    using get_len_spec [OF h, of len] fifo_inv_facts(4) [OF assms] by simp
  then show ?thesis using assms by (simp add: fifo_inv_def) (simp add: r_inv_def)
qed

lemma r_copy_inv:
  assumes "fifo_inv k s" "rdr s = RLen n" "get_copy (fifo s) n = Some xs"
  shows "fifo_inv k (s\<lparr>rdr := RCopied n xs\<rparr>)"
proof -
  note i = fifo_inv_facts [OF assms(1)]
  have n: "length (recvd s) + unat n \<le> length (sent s)" using assms(1,2) by (simp add: fifo_inv_def r_inv_def)
  then have "unat n \<le> 2 ^ k" using i(5) by linarith
  then have "xs = map (\<lambda>j. buffer (fifo s) ! ((length (recvd s) + j) mod 2 ^ k)) [0..<unat n]"
    using get_copy_spec [OF i(1,2)] assms(3) by simp
  also have "\<dots> = take (unat n) (drop (length (recvd s)) (sent s))"
    using n i(6) by (intro nth_equalityI) simp_all
  finally show ?thesis using assms(1) n by (simp add: fifo_inv_def) (simp add: r_inv_def)
qed

lemma r_end_inv:
  assumes "fifo_inv k s" "rdr s = RCopied n xs"
  shows "fifo_inv k (s\<lparr>fifo := get_end (fifo s) n, rdr := RIdle, recvd := recvd s @ xs\<rparr>)"
proof -
  note i = fifo_inv_facts [OF assms(1)]
  let ?R = "length (recvd s)"
  have n: "?R + unat n \<le> length (sent s)" "xs = take (unat n) (drop ?R (sent s))"
    using assms by (simp_all add: fifo_inv_def r_inv_def)
  then have len: "length (recvd s @ xs) = ?R + unat n" by simp
  have "recvd s = take ?R (sent s)" using assms(1) by (simp add: fifo_inv_def)
  then have "recvd s @ xs = take (?R + unat n) (sent s)" using n(2) by (metis take_add)
  moreover have "holds_q (get_end (fifo s) n) k (?R + unat n) (drop (?R + unat n) (sent s))"
    using i n(1) by (intro holds_qI) (simp_all add: get_end_def shape_def)
  moreover have "w_inv k s" using assms(1) by (simp add: fifo_inv_def)
  then have "w_inv k (s\<lparr>fifo := get_end (fifo s) n, rdr := RIdle, recvd := recvd s @ xs\<rparr>)"
    using len by (auto simp: w_inv_def get_end_def split: writer.splits)
  moreover have "r_inv (s\<lparr>fifo := get_end (fifo s) n, rdr := RIdle, recvd := recvd s @ xs\<rparr>)"
    by (simp add: r_inv_def)
  ultimately show ?thesis unfolding fifo_inv_def using len by simp
qed

lemma fifo_step_inv: "fifo_step s s' \<Longrightarrow> fifo_inv k s \<Longrightarrow> fifo_inv k s'"
  by (induction rule: fifo_step.induct)
    (auto intro: w_len_inv w_copy_inv w_end_inv r_len_inv r_copy_inv r_end_inv)

lemma and_pred_0:
  fixes n :: nat
  assumes "0 < n" "n AND (n - 1) = 0"
  shows "\<exists>k. n = 2 ^ k"
  using assms
proof (induction n rule: less_induct)
  case (less n)
  have rec: "n AND (n - 1) = of_bool (odd n \<and> odd (n - 1)) + 2 * ((n div 2) AND ((n - 1) div 2))" by (rule and_rec)
  show ?case
  proof (cases "even n")
    case True
    then obtain m where m: "n = 2 * m" by blast
    then have "(n - 1) div 2 = m - 1" using less.prems(1) by (cases m) auto
    then have "m AND (m - 1) = 0" using rec less.prems(2) m by simp
    then obtain k where "m = 2 ^ k" using less.IH [of m] less.prems(1) m by auto
    then show ?thesis using m by (intro exI [of _ "Suc k"]) simp
  next
    case False
    then obtain m where m: "n = 2 * m + 1" using oddE by blast
    then have "m AND m = 0" using rec less.prems(2) by simp
    then show ?thesis using m by (intro exI [of _ 0]) simp
  qed
qed

lemma power_of_2_exp:
  assumes "is_power_of_2 (ucast (sz :: u32))"
  obtains k where "k \<le> 31" "sz = 2 ^ k"
proof -
  let ?n = "ucast sz :: u64"
  have n: "?n \<noteq> 0" "?n AND (?n - 1) = 0" using assms by (simp_all add: is_power_of_2_def)
  have u: "unat ?n = unat sz" by (simp add: unsigned_ucast_eq take_bit_eq_mod) (use unsigned_less [of sz, where 'a = nat] in simp)
  have "unat (?n - 1) = unat sz - 1" using n(1) u by (simp add: unat_minus_one)
  then have "unat sz AND (unat sz - 1) = 0" using n(2) u by (metis unsigned_and_eq unsigned_0)
  moreover have "unat ?n \<noteq> 0" using n(1) by (simp add: unat_eq_zero)
  then have "0 < unat sz" using u by simp
  ultimately obtain k where k: "unat sz = 2 ^ k" using and_pred_0 by blast
  moreover have "unat sz < 2 ^ 32" using unsigned_less [of sz, where 'a = nat] by simp
  ultimately have "k < 32" using power_less_imp_less_exp [of "2 :: nat" k 32] by simp
  moreover have "sz = 2 ^ k" using k by (metis of_nat_numeral of_nat_power ucast_id of_nat_unat)
  ultimately show ?thesis using that [of k] by simp
qed

lemma kfifo_init_holds:
  assumes "kfifo_init buf sz ok = Some (Inr f)" "length buf = unat sz"
  shows "\<exists>k. holds_q f k 0 []"
proof -
  have f: "is_power_of_2 (ucast sz)" "f = \<lparr>buffer = buf, fsize = sz, fin = 0, fout = 0\<rparr>"
    using assms(1) by (auto simp: kfifo_init_def split: if_splits)
  obtain k where "k \<le> 31" "sz = 2 ^ k" by (rule power_of_2_exp [OF f(1)])
  then show ?thesis using assms(2) unat_pow [of k] by (auto simp: f(2) holds_q_def shape_def)
qed

lemma fls_nat_less: "n < 2 ^ fls_nat n"
proof (induction n rule: fls_nat.induct)
  case (1 n)
  then show ?case by (cases "n = 0") (simp_all add: fls_nat.simps [of n])
qed

lemma fls_nat_le: "n < 2 ^ j \<Longrightarrow> fls_nat n \<le> j"
proof (induction j arbitrary: n)
  case (Suc j)
  then show ?case using Suc.IH [of "n div 2"] by (subst fls_nat.simps) auto
qed (simp add: fls_nat.simps)

lemma is_power_of_2_exp: "k \<le> 31 \<Longrightarrow> is_power_of_2 (ucast (2 ^ k :: u32))"
proof -
  assume k: "k \<le> 31"
  have "unat (ucast (2 ^ k :: u32) :: u64) = 2 ^ k"
    using unat_pow [OF k] pow31 [OF k] by (simp add: unsigned_ucast_eq take_bit_eq_mod)
  then have u: "(ucast (2 ^ k :: u32) :: u64) = 2 ^ k" by (metis of_nat_numeral of_nat_power of_nat_unat ucast_id)
  have "(2 ^ k :: u64) AND (2 ^ k - 1) = take_bit k (2 ^ k)" by (simp add: take_bit_eq_mask mask_eq_exp_minus_1)
  then have "(2 ^ k :: u64) AND (2 ^ k - 1) = 0" by (simp add: take_bit_eq_mod)
  moreover have "(2 ^ k :: u64) \<noteq> 0" using k by simp
  ultimately show ?thesis by (simp add: is_power_of_2_def u)
qed

text \<open>Rounding up: the buffer that \<^verbatim>\<open>kfifo_alloc\<close> returns is empty and has room for what was asked for.\<close>

lemma kfifo_alloc_ok:
  assumes "0 < sz" "sz \<le> 0x80000000" "\<And>n. \<exists>b. kmalloc n = Some b \<and> length b = n"
  shows "\<exists>f. kfifo_alloc sz kmalloc True = Some (Inr f) \<and> kq_ok f \<and> kq_bytes f = [] \<and> unat sz \<le> kq_room f"
proof -
  have "\<exists>sz1. (if \<not> is_power_of_2 (ucast sz) then
      (if 0x80000000 < sz then None else do { n \<leftarrow> roundup_pow_of_two (ucast sz); Some (ucast n) }) else Some sz) = Some sz1
      \<and> is_power_of_2 (ucast sz1) \<and> unat sz \<le> unat sz1"
  proof (cases "is_power_of_2 (ucast sz)")
    case False
    define k where "k = fls_nat (unat sz - 1)"
    have u: "unat (ucast sz :: u64) = unat sz"
      by (simp add: unsigned_ucast_eq take_bit_eq_mod) (use unsigned_less [of sz, where 'a = nat] in simp)
    have s: "0 < unat sz" "unat sz \<le> 2147483648" using assms(1,2) by (simp_all add: word_less_nat_alt word_le_nat_alt)
    have "(ucast sz :: u64) \<noteq> 0"
    proof
      assume "(ucast sz :: u64) = 0"
      then have "unat (ucast sz :: u64) = 0" by (simp only: unsigned_0)
      then show False using u s(1) by simp
    qed
    then have "unat ((ucast sz :: u64) - 1) = unat sz - 1" using u by (simp add: unat_minus_one)
    then have fls: "fls_long ((ucast sz :: u64) - 1) = k" by (simp add: fls_long_def k_def)
    have k: "k \<le> 31" unfolding k_def using s by (intro fls_nat_le) simp
    have "unat (of_nat (2 ^ k) :: u64) = 2 ^ k" using pow31 [OF k] by (simp only: unat_of_nat) simp
    then have "unat (2 ^ k :: u64) = 2 ^ k" by simp
    then have "unat (ucast (2 ^ k :: u64) :: u32) = 2 ^ k"
      using pow31 [OF k] by (simp add: unsigned_ucast_eq take_bit_eq_mod)
    then have c: "(ucast (2 ^ k :: u64) :: u32) = 2 ^ k" using unat_pow [OF k] by (metis word_unat_eq_iff)
    have le: "unat sz \<le> 2 ^ k" using fls_nat_less [of "unat sz - 1"] s(1) by (simp add: k_def)
    have "roundup_pow_of_two (ucast sz) = Some (2 ^ k)"
      using fls k by (simp add: roundup_pow_of_two_def push_bit_eq_mult)
    then have "(if \<not> is_power_of_2 (ucast sz) then
      (if 0x80000000 < sz then None else do { n \<leftarrow> roundup_pow_of_two (ucast sz); Some (ucast n) }) else Some sz) = Some (2 ^ k)"
      using False assms(2) c by (simp add: not_less)
    then show ?thesis using is_power_of_2_exp [OF k] unat_pow [OF k] le by auto
  qed auto
  then obtain sz1 where s: "kfifo_alloc sz kmalloc True = (case kmalloc (unat sz1) of None \<Rightarrow> Some (Inl (- ENOMEM))
      | Some buf \<Rightarrow> kfifo_init buf sz1 True)" "is_power_of_2 (ucast sz1)" "unat sz \<le> unat sz1"
    unfolding kfifo_alloc_def by auto
  obtain b where b: "kmalloc (unat sz1) = Some b" "length b = unat sz1" using assms(3) by blast
  let ?f = "\<lparr>buffer = b, fsize = sz1, fin = 0, fout = 0\<rparr>"
  have i: "kfifo_init b sz1 True = Some (Inr ?f)" using s(2) by (simp add: kfifo_init_def)
  obtain k where h: "holds_q ?f k 0 []" using kfifo_init_holds [OF i b(2)] by blast
  have "kfifo_alloc sz kmalloc True = Some (Inr ?f)" using s(1) b(1) i by simp
  moreover have "kq_ok ?f" "kq_bytes ?f = []" using h holds_q_abs(1) [OF h] by (auto simp: kq_ok_def)
  moreover have "unat sz \<le> kq_room ?f" using s(3) by (simp add: kq_room_def)
  ultimately show ?thesis by blast
qed

text \<open>A size of 0 is neither a power of 2 nor can it be rounded up to one: the shift is by 64.\<close>

lemma kfifo_alloc_0: "kfifo_alloc 0 kmalloc ok = None"
proof -
  have "fls_nat 18446744073709551615 \<ge> 64"
  proof (rule ccontr)
    assume "\<not> ?thesis"
    then have "(2 :: nat) ^ fls_nat 18446744073709551615 \<le> 2 ^ 63" by (intro power_increasing) simp_all
    then show False using fls_nat_less [of 18446744073709551615] by simp
  qed
  then show ?thesis by (simp add: kfifo_alloc_def is_power_of_2_def roundup_pow_of_two_def fls_long_def
        unsigned_minus_1_eq_mask mask_eq_exp_minus_1)
qed

lemma fifo_reach_inv: "fifo_reach s \<Longrightarrow> \<exists>k. fifo_inv k s"
proof (induction rule: fifo_reach.induct)
  case (fifo_init buf sz f)
  then obtain k where "holds_q f k 0 []" using kfifo_init_holds by blast
  then show ?case by (auto simp: fifo_inv_def w_inv_def r_inv_def)
next
  case (fifo_next s s')
  then show ?case using fifo_step_inv by blast
qed

section \<open>Properties\<close>


text \<open>A buffer of 4 bytes whose indices are about to wrap; it holds 1, 2, 3.\<close>

definition demo_fifo :: kfifo where
  "demo_fifo = \<lparr>buffer = [3, 9, 1, 2], fsize = 4, fin = 1, fout = 0xFFFFFFFE\<rparr>"

lemma demo_fifo_holds: "holds_q demo_fifo 2 4294967294 [1, 2, 3]"
  by (auto simp: holds_q_def shape_def demo_fifo_def less_Suc_eq)

lemma demo_fifo_ok: "kq_ok demo_fifo"
  using demo_fifo_holds by (auto simp: kq_ok_def)


text \<open>
  C33: With one writer and one reader the ring buffer needs no lock. However the parts of \<^verbatim>\<open>__kfifo_put\<close> on one
  processor and of \<^verbatim>\<open>__kfifo_get\<close> on another interleave, the bytes received are a prefix of the bytes
  sent, at most the size of the buffer is under way, every copy stays inside the buffer, and when
  both are idle the buffer holds exactly what was sent and not yet received.
\<close>

theorem kfifo_concurrent:
  assumes "fifo_reach s"
  shows "recvd s = take (length (recvd s)) (sent s)
    \<and> length (sent s) \<le> length (recvd s) + unat (fsize (fifo s))
    \<and> (\<forall>data n. wr s = WLen data n \<longrightarrow> put_copy (fifo s) data n \<noteq> None)
    \<and> (\<forall>n. rdr s = RLen n \<longrightarrow> get_copy (fifo s) n \<noteq> None)
    \<and> (wr s = WIdle \<and> rdr s = RIdle \<longrightarrow> kq_bytes (fifo s) = drop (length (recvd s)) (sent s))"
proof -
  obtain k where k: "fifo_inv k s" using fifo_reach_inv [OF assms] by blast
  note i = fifo_inv_facts [OF k]
  have "put_copy (fifo s) data n \<noteq> None" if "wr s = WLen data n" for data n
  proof -
    have n: "unat n \<le> length data" "length (sent s) + unat n \<le> length (recvd s) + 2 ^ k"
      using k that by (simp_all add: fifo_inv_def w_inv_def)
    have "unat n \<le> 2 ^ k" using n(2) i(4) by linarith
    then show ?thesis by (rule put_copy_spec [OF i(1,3) _ n(1)]) simp
  qed
  moreover have "get_copy (fifo s) n \<noteq> None" if "rdr s = RLen n" for n
  proof -
    have "length (recvd s) + unat n \<le> length (sent s)" using k that by (simp add: fifo_inv_def r_inv_def)
    then have "unat n \<le> 2 ^ k" using i(5) by linarith
    then show ?thesis using get_copy_spec [OF i(1,2)] by simp
  qed
  moreover have h: "holds_q (fifo s) k (length (recvd s)) (drop (length (recvd s)) (sent s))" "recvd s = take (length (recvd s)) (sent s)"
    using k by (simp_all add: fifo_inv_def)
  moreover have "length (sent s) \<le> length (recvd s) + unat (fsize (fifo s))" using i(5) holds_q_len(3) [OF h(1)] by simp
  ultimately show ?thesis using holds_q_abs(1) [OF h(1)] by blast
qed

theorem kfifo_concurrent_witness:
  "\<exists>s. fifo_reach s \<and> wr s = WCopied [7] 1 \<and> recvd s = take (length (recvd s)) (sent s)"
proof -
  let ?f = "\<lparr>buffer = [0, 0], fsize = 2, fin = 0, fout = 0\<rparr>"
  let ?s0 = "\<lparr>fifo = ?f, wr = WIdle, rdr = RIdle, sent = [], recvd = []\<rparr>"
  have "kfifo_init [0, 0] 2 True = Some (Inr ?f)" by (simp add: kfifo_init_def is_power_of_2_def)
  then have r0: "fifo_reach ?s0" by (rule fifo_init) simp
  have "put_len ?f 1 = 1" by (simp add: put_len_def min_def)
  then have "fifo_step ?s0 (?s0\<lparr>wr := WLen [7] 1\<rparr>)" using w_len [of ?s0 1 "[7]"] by simp
  then have r1: "fifo_reach (?s0\<lparr>wr := WLen [7] 1\<rparr>)" using r0 fifo_next by blast
  have "put_copy ?f [7] 1 = Some (?f\<lparr>buffer := [7, 0]\<rparr>)" by (simp add: put_copy_def Let_def blit_def min_def)
  then have "fifo_step (?s0\<lparr>wr := WLen [7] 1\<rparr>) (?s0\<lparr>wr := WLen [7] 1, fifo := ?f\<lparr>buffer := [7, 0]\<rparr>, wr := WCopied [7] 1\<rparr>)"
    by (intro w_copy) simp_all
  then have r2: "fifo_reach (?s0\<lparr>wr := WLen [7] 1, fifo := ?f\<lparr>buffer := [7, 0]\<rparr>, wr := WCopied [7] 1\<rparr>)"
    using r1 fifo_next by blast
  show ?thesis using kfifo_concurrent [OF r2] r2 by (intro exI) (auto intro: r2)
qed

end
