(* ===== verification/Rw_Semaphore.thy ===== *)
theory Rw_Semaphore
  imports Prelude
begin

text \<open>Models \<^verbatim>\<open>lib/rwsem-spinlock.c\<close>, the reader-writer semaphore of configurations without an assembly version. Every
  operation runs under \<^verbatim>\<open>sem->wait_lock\<close>, so each is one step; the sleep of \<^verbatim>\<open>__down_read\<close> and \<^verbatim>\<open>__down_write\<close> is the step
  \<open>rw_wake\<close>. A machine of tasks that use the semaphore gives the exclusion and wake-up properties.\<close>

text \<open>A waiter is its task and whether it waits to write (\<^verbatim>\<open>RWSEM_WAITING_FOR_WRITE\<close>). \<open>rw_task\<close> tells whether the field
  \<^verbatim>\<open>task\<close> of a waiter is still set; clearing it grants the semaphore.\<close>

record rw_semaphore =
  activity :: int
  rw_list :: "(nat \<times> bool) list"
  rw_task :: "nat \<Rightarrow> bool"

definition init_rwsem :: rw_semaphore where
  "init_rwsem = \<lparr>activity = 0, rw_list = [], rw_task = (\<lambda>_. False)\<rparr>"

text \<open>The loop over the readers at the front: the waiting tasks, the rest of the list, the number woken.\<close>

fun wake_readers :: "(nat \<Rightarrow> bool) \<Rightarrow> (nat \<times> bool) list \<Rightarrow> int \<Rightarrow> (nat \<Rightarrow> bool) \<times> (nat \<times> bool) list \<times> int" where
  "wake_readers tk [] woken = (tk, [], woken)"
| "wake_readers tk ((t, w) # ws) woken =
     (if w then (tk, (t, w) # ws, woken) else wake_readers (tk(t := False)) ws (woken + 1))"

text \<open>Both functions are called with a list that is not empty; \<^term>\<open>None\<close> otherwise.\<close>

definition rwsem_do_wake :: "rw_semaphore \<Rightarrow> bool \<Rightarrow> rw_semaphore option" where
  "rwsem_do_wake sem wakewrite = (case rw_list sem of
     [] \<Rightarrow> None
   | (t, w) # ws \<Rightarrow>
       let readers = (let (tk, l, woken) = wake_readers (rw_task sem) (rw_list sem) 0
                      in sem\<lparr>activity := activity sem + woken, rw_list := l, rw_task := tk\<rparr>)
       in if \<not> wakewrite then (if w then Some sem else Some readers)
          else if w then Some (sem\<lparr>activity := - 1, rw_list := ws, rw_task := (rw_task sem)(t := False)\<rparr>)
          else Some readers)"

definition rwsem_wake_one_writer :: "rw_semaphore \<Rightarrow> rw_semaphore option" where
  "rwsem_wake_one_writer sem = (case rw_list sem of
     [] \<Rightarrow> None
   | (t, w) # ws \<Rightarrow> Some (sem\<lparr>activity := - 1, rw_list := ws, rw_task := (rw_task sem)(t := False)\<rparr>))"

text \<open>The second result of the down functions: granted at once, or the task sleeps until \<^verbatim>\<open>waiter.task\<close> is cleared.\<close>

definition down_read :: "rw_semaphore \<Rightarrow> nat \<Rightarrow> rw_semaphore \<times> bool" where
  "down_read sem t =
     (if 0 \<le> activity sem \<and> rw_list sem = [] then (sem\<lparr>activity := activity sem + 1\<rparr>, True)
      else (sem\<lparr>rw_list := rw_list sem @ [(t, False)], rw_task := (rw_task sem)(t := True)\<rparr>, False))"

definition down_read_trylock :: "rw_semaphore \<Rightarrow> rw_semaphore \<times> bool" where
  "down_read_trylock sem =
     (if 0 \<le> activity sem \<and> rw_list sem = [] then (sem\<lparr>activity := activity sem + 1\<rparr>, True) else (sem, False))"

definition down_write :: "rw_semaphore \<Rightarrow> nat \<Rightarrow> rw_semaphore \<times> bool" where
  "down_write sem t =
     (if activity sem = 0 \<and> rw_list sem = [] then (sem\<lparr>activity := - 1\<rparr>, True)
      else (sem\<lparr>rw_list := rw_list sem @ [(t, True)], rw_task := (rw_task sem)(t := True)\<rparr>, False))"

definition down_write_trylock :: "rw_semaphore \<Rightarrow> rw_semaphore \<times> bool" where
  "down_write_trylock sem =
     (if activity sem = 0 \<and> rw_list sem = [] then (sem\<lparr>activity := - 1\<rparr>, True) else (sem, False))"

definition up_read :: "rw_semaphore \<Rightarrow> rw_semaphore option" where
  "up_read sem =
     (let sem1 = sem\<lparr>activity := activity sem - 1\<rparr>
      in if activity sem1 = 0 \<and> rw_list sem1 \<noteq> [] then rwsem_wake_one_writer sem1 else Some sem1)"

definition up_write :: "rw_semaphore \<Rightarrow> rw_semaphore option" where
  "up_write sem =
     (let sem1 = sem\<lparr>activity := 0\<rparr> in if rw_list sem1 \<noteq> [] then rwsem_do_wake sem1 True else Some sem1)"

definition downgrade_write :: "rw_semaphore \<Rightarrow> rw_semaphore option" where
  "downgrade_write sem =
     (let sem1 = sem\<lparr>activity := 1\<rparr> in if rw_list sem1 \<noteq> [] then rwsem_do_wake sem1 False else Some sem1)"

subsection \<open>Tasks that use a reader-writer semaphore\<close>

datatype rw_mode = RwNone | RwWait bool | RwHold bool

record rw_sys =
  rws :: rw_semaphore
  rmode :: "nat \<Rightarrow> rw_mode"

inductive rw_step :: "rw_sys \<Rightarrow> rw_sys \<Rightarrow> bool" where
  rw_down_read: "rmode s t = RwNone \<Longrightarrow> down_read (rws s) t = (sem', g) \<Longrightarrow>
    rw_step s \<lparr>rws = sem', rmode = (rmode s)(t := if g then RwHold False else RwWait False)\<rparr>"
| rw_down_write: "rmode s t = RwNone \<Longrightarrow> down_write (rws s) t = (sem', g) \<Longrightarrow>
    rw_step s \<lparr>rws = sem', rmode = (rmode s)(t := if g then RwHold True else RwWait True)\<rparr>"
| rw_try_read: "rmode s t = RwNone \<Longrightarrow> down_read_trylock (rws s) = (sem', g) \<Longrightarrow>
    rw_step s \<lparr>rws = sem', rmode = (rmode s)(t := if g then RwHold False else RwNone)\<rparr>"
| rw_try_write: "rmode s t = RwNone \<Longrightarrow> down_write_trylock (rws s) = (sem', g) \<Longrightarrow>
    rw_step s \<lparr>rws = sem', rmode = (rmode s)(t := if g then RwHold True else RwNone)\<rparr>"
| rw_wake: "rmode s t = RwWait w \<Longrightarrow> \<not> rw_task (rws s) t \<Longrightarrow> rw_step s (s\<lparr>rmode := (rmode s)(t := RwHold w)\<rparr>)"
| rw_up_read: "rmode s t = RwHold False \<Longrightarrow> up_read (rws s) = Some sem' \<Longrightarrow>
    rw_step s \<lparr>rws = sem', rmode = (rmode s)(t := RwNone)\<rparr>"
| rw_up_write: "rmode s t = RwHold True \<Longrightarrow> up_write (rws s) = Some sem' \<Longrightarrow>
    rw_step s \<lparr>rws = sem', rmode = (rmode s)(t := RwNone)\<rparr>"
| rw_downgrade: "rmode s t = RwHold True \<Longrightarrow> downgrade_write (rws s) = Some sem' \<Longrightarrow>
    rw_step s \<lparr>rws = sem', rmode = (rmode s)(t := RwHold False)\<rparr>"

inductive rw_reach :: "rw_sys \<Rightarrow> bool" where
  rw_start: "rw_reach \<lparr>rws = init_rwsem, rmode = (\<lambda>_. RwNone)\<rparr>"
| rw_next: "rw_reach s \<Longrightarrow> rw_step s s' \<Longrightarrow> rw_reach s'"

text \<open>The tasks that have the semaphore for reading or writing, awake or not yet.\<close>

definition has_rw :: "rw_sys \<Rightarrow> bool \<Rightarrow> nat set" where
  "has_rw s w = {t. rmode s t = RwHold w \<or> rmode s t = RwWait w \<and> \<not> rw_task (rws s) t}"

definition rw_waiting :: "rw_sys \<Rightarrow> (nat \<times> bool) set" where
  "rw_waiting s = {(t, w). rmode s t = RwWait w \<and> rw_task (rws s) t}"

definition rws_inv :: "rw_sys \<Rightarrow> bool" where
  "rws_inv s \<longleftrightarrow> finite (has_rw s False) \<and> distinct (map fst (rw_list (rws s))) \<and> set (rw_list (rws s)) = rw_waiting s
     \<and> (if activity (rws s) < 0 then activity (rws s) = - 1 \<and> has_rw s False = {} \<and> (\<exists>t. has_rw s True = {t})
        else has_rw s True = {} \<and> activity (rws s) = int (card (has_rw s False)))
     \<and> (rw_list (rws s) \<noteq> [] \<longrightarrow> activity (rws s) \<noteq> 0)
     \<and> (0 < activity (rws s) \<and> rw_list (rws s) \<noteq> [] \<longrightarrow> snd (hd (rw_list (rws s))))"

subsection \<open>The invariant\<close>

lemma wake_readers_spec:
  "wake_readers tk ws n = (\<lambda>u. tk u \<and> u \<notin> fst ` set (takeWhile (Not \<circ> snd) ws), dropWhile (Not \<circ> snd) ws,
     n + int (length (takeWhile (Not \<circ> snd) ws)))"
proof (induction tk ws n rule: wake_readers.induct)
  case (2 tk t w ws woken)
  show ?case
  proof (cases w)
    case False
    have "(\<lambda>u. (tk(t := False)) u \<and> u \<notin> S) = (\<lambda>u. tk u \<and> u \<notin> insert t S)" for S by auto
    then show ?thesis unfolding wake_readers.simps using 2 [OF False] False by (simp add: fun_upd_def)
  qed simp
qed simp

lemma rws_invD:
  assumes "rws_inv s"
  shows "finite (has_rw s False)" "distinct (map fst (rw_list (rws s)))" "set (rw_list (rws s)) = rw_waiting s"
    "rw_list (rws s) \<noteq> [] \<Longrightarrow> activity (rws s) \<noteq> 0"
    "0 < activity (rws s) \<Longrightarrow> rw_list (rws s) \<noteq> [] \<Longrightarrow> snd (hd (rw_list (rws s)))"
    "activity (rws s) < 0 \<Longrightarrow> activity (rws s) = - 1 \<and> has_rw s False = {} \<and> (\<exists>t. has_rw s True = {t})"
    "0 \<le> activity (rws s) \<Longrightarrow> has_rw s True = {} \<and> activity (rws s) = int (card (has_rw s False))"
  using assms by (auto simp: rws_inv_def split: if_splits)

lemma rws_inv_readers:
  assumes "finite (has_rw s False)" "distinct (map fst (rw_list (rws s)))" "set (rw_list (rws s)) = rw_waiting s"
    and "has_rw s True = {}" "activity (rws s) = int (card (has_rw s False))"
    and "rw_list (rws s) \<noteq> [] \<Longrightarrow> has_rw s False \<noteq> {} \<and> snd (hd (rw_list (rws s)))"
  shows "rws_inv s"
  using assms by (auto simp: rws_inv_def card_eq_0_iff)

lemma rws_inv_writer:
  assumes "distinct (map fst (rw_list (rws s)))" "set (rw_list (rws s)) = rw_waiting s"
    and "has_rw s False = {}" "activity (rws s) = - 1" "has_rw s True = {t}"
  shows "rws_inv s"
  using assms by (auto simp: rws_inv_def)

lemma not_waiting: "rws_inv s \<Longrightarrow> rmode s t \<noteq> RwWait False \<Longrightarrow> rmode s t \<noteq> RwWait True \<Longrightarrow> t \<notin> fst ` set (rw_list (rws s))"
  by (auto simp: rws_invD(3) rw_waiting_def)

lemma rw_queue_inv:
  assumes i: "rws_inv s" and m: "rmode s t = RwNone"
    and a: "activity (rws s) \<noteq> 0" "0 < activity (rws s) \<Longrightarrow> rw_list (rws s) = [] \<Longrightarrow> w"
  shows "rws_inv \<lparr>rws = (rws s)\<lparr>rw_list := rw_list (rws s) @ [(t, w)], rw_task := (rw_task (rws s))(t := True)\<rparr>,
    rmode = (rmode s)(t := RwWait w)\<rparr>" (is "rws_inv ?s")
proof -
  have h: "has_rw ?s v = has_rw s v" for v using m by (auto simp: has_rw_def split: if_splits)
  have w: "rw_waiting ?s = insert (t, w) (rw_waiting s)" using m by (auto simp: rw_waiting_def split: if_splits)
  have n: "t \<notin> fst ` set (rw_list (rws s))" using not_waiting [OF i] m by simp
  show ?thesis using i a n unfolding rws_inv_def h w by (cases "rw_list (rws s) = []") auto
qed

lemma rw_read_inv:
  assumes i: "rws_inv s" and m: "rmode s t = RwNone" and a: "0 \<le> activity (rws s)" "rw_list (rws s) = []"
  shows "rws_inv \<lparr>rws = (rws s)\<lparr>activity := activity (rws s) + 1\<rparr>, rmode = (rmode s)(t := RwHold False)\<rparr>" (is "rws_inv ?s")
proof (rule rws_inv_readers)
  have h: "has_rw ?s False = insert t (has_rw s False)" "has_rw ?s True = has_rw s True" "t \<notin> has_rw s False"
    "rw_waiting ?s = rw_waiting s" using m by (auto simp: has_rw_def rw_waiting_def split: if_splits)
  show "finite (has_rw ?s False)" "has_rw ?s True = {}" "activity (rws ?s) = int (card (has_rw ?s False))"
    "set (rw_list (rws ?s)) = rw_waiting ?s"
    using h rws_invD [OF i] a by auto
qed (use a in simp_all)

lemma rw_write_inv:
  assumes i: "rws_inv s" and m: "rmode s t = RwNone" and a: "activity (rws s) = 0" "rw_list (rws s) = []"
  shows "rws_inv \<lparr>rws = (rws s)\<lparr>activity := - 1\<rparr>, rmode = (rmode s)(t := RwHold True)\<rparr>" (is "rws_inv ?s")
proof (rule rws_inv_writer)
  have h: "has_rw ?s False = has_rw s False" "has_rw ?s True = insert t (has_rw s True)" "rw_waiting ?s = rw_waiting s"
    using m by (auto simp: has_rw_def rw_waiting_def split: if_splits)
  have e: "has_rw s False = {}" "has_rw s True = {}" using rws_invD(1,7) [OF i] a by auto
  show "has_rw ?s False = {}" "has_rw ?s True = {t}" "set (rw_list (rws ?s)) = rw_waiting ?s"
    using h e rws_invD(3) [OF i] by simp_all
qed (use a in simp_all)

lemma rw_wake_inv: "rws_inv s \<Longrightarrow> rmode s t = RwWait w \<Longrightarrow> \<not> rw_task (rws s) t \<Longrightarrow> rws_inv (s\<lparr>rmode := (rmode s)(t := RwHold w)\<rparr>)"
proof -
  assume a: "rws_inv s" "rmode s t = RwWait w" "\<not> rw_task (rws s) t"
  let ?s = "s\<lparr>rmode := (rmode s)(t := RwHold w)\<rparr>"
  have "has_rw ?s v = has_rw s v" "rw_waiting ?s = rw_waiting s" for v using a by (auto simp: has_rw_def rw_waiting_def split: if_splits)
  then show ?thesis using a(1) by (simp add: rws_inv_def)
qed

text \<open>Two ways of handing the semaphore over after its holder \<open>t\<close> changed its mode: to the writer at the
  front, or to all readers at the front.\<close>

lemma rw_hand_writer:
  assumes i: "rws_inv s" and l: "rw_list (rws s) = (u, True) # ws"
    and m: "rmode s t = RwHold v" "has_rw s (\<not> v) = {}" "has_rw s v = {t}"
  shows "rws_inv \<lparr>rws = \<lparr>activity = - 1, rw_list = ws, rw_task = (rw_task (rws s))(u := False)\<rparr>,
    rmode = (rmode s)(t := RwNone)\<rparr>" (is "rws_inv ?s")
proof (rule rws_inv_writer)
  have "(u, True) \<in> rw_waiting s" using rws_invD(3) [OF i] l by auto
  then have u: "rmode s u = RwWait True" "rw_task (rws s) u" "u \<noteq> t" using m(1) by (auto simp: rw_waiting_def)
  have d: "distinct (map fst ws)" "u \<notin> fst ` set ws" using rws_invD(2) [OF i] l by auto
  show "distinct (map fst (rw_list (rws ?s)))" using d by simp
  have "rw_waiting ?s = rw_waiting s - {(u, True)}" using u m(1) by (auto simp: rw_waiting_def split: if_splits)
  moreover have "rw_waiting s = insert (u, True) (set ws)" using rws_invD(3) [OF i] l by simp
  moreover have "(u, True) \<notin> set ws" using d(2) by force
  ultimately show "set (rw_list (rws ?s)) = rw_waiting ?s" by simp
  have e: "has_rw s False - {t} = {}" "has_rw s True - {t} = {}" using m(2,3) by (cases v; simp)+
  have "has_rw ?s False = has_rw s False - {t}" using u by (auto simp: has_rw_def split: if_splits)
  then show "has_rw ?s False = {}" using e by simp
  have "has_rw ?s True = insert u (has_rw s True - {t})" using u by (auto simp: has_rw_def split: if_splits)
  then show "has_rw ?s True = {u}" using e by simp
qed simp

lemma hd_dropWhile_readers: "dropWhile (Not \<circ> snd) ws \<noteq> [] \<Longrightarrow> snd (hd (dropWhile (Not \<circ> snd) ws))"
  using hd_dropWhile [of "Not \<circ> snd" ws] by simp

lemma set_dropWhile_readers:
  assumes "distinct (map fst ws)"
  shows "set (dropWhile (Not \<circ> snd) ws) = {(t, w) \<in> set ws. t \<notin> fst ` set (takeWhile (Not \<circ> snd) ws)}"
    "distinct (map fst (dropWhile (Not \<circ> snd) ws))" "length (takeWhile (Not \<circ> snd) ws) = card (fst ` set (takeWhile (Not \<circ> snd) ws))"
proof -
  let ?t = "takeWhile (Not \<circ> snd) ws" and ?d = "dropWhile (Not \<circ> snd) ws"
  have d: "distinct (map fst (?t @ ?d))" using assms by simp
  then have dj: "fst ` set ?t \<inter> fst ` set ?d = {}" unfolding map_append distinct_append by simp
  have split_set: "fst ` A \<inter> fst ` B = {} \<Longrightarrow> C = A \<union> B \<Longrightarrow> B = {(t, w) \<in> C. t \<notin> fst ` A}" for A B C :: "('a \<times> bool) set"
    by force
  have "set ws = set ?t \<union> set ?d" by (metis set_append takeWhile_dropWhile_id)
  then show "set ?d = {(t, w) \<in> set ws. t \<notin> fst ` set ?t}" by (rule split_set [OF dj])
  show "distinct (map fst ?d)" using d unfolding map_append distinct_append by simp
  have "distinct (map fst ?t)" using d unfolding map_append distinct_append by simp
  then show "length ?t = card (fst ` set ?t)" by (metis distinct_card length_map set_map)
qed

lemma rw_hand_readers:
  assumes i: "rws_inv s" and m: "rmode s t = RwHold True" and h: "has_rw s False = {}" "has_rw s True = {t}"
    and n: "n = (if keep then 1 else 0)" "keep \<or> rw_list (rws s) = [] \<or> \<not> snd (hd (rw_list (rws s)))"
    and w: "wake_readers (rw_task (rws s)) (rw_list (rws s)) n = (tk, l, k)"
  shows "rws_inv \<lparr>rws = \<lparr>activity = k, rw_list = l, rw_task = tk\<rparr>,
    rmode = (rmode s)(t := if keep then RwHold False else RwNone)\<rparr>" (is "rws_inv ?s")
proof (rule rws_inv_readers)
  let ?W = "rw_list (rws s)"
  define R where "R = fst ` set (takeWhile (Not \<circ> snd) ?W)"
  have w': "tk = (\<lambda>u. rw_task (rws s) u \<and> u \<notin> R)" "l = dropWhile (Not \<circ> snd) ?W" "k = n + int (card R)"
    using w set_dropWhile_readers(3) [OF rws_invD(2) [OF i]] by (auto simp: wake_readers_spec R_def)
  note dw = set_dropWhile_readers(1,2) [OF rws_invD(2) [OF i], folded R_def]
  have r: "u \<in> R \<Longrightarrow> rmode s u = RwWait False \<and> rw_task (rws s) u \<and> u \<noteq> t" for u
  proof -
    assume "u \<in> R"
    then have "(u, False) \<in> set ?W" by (auto simp: R_def dest: set_takeWhileD)
    then show ?thesis using rws_invD(3) [OF i] m by (auto simp: rw_waiting_def split: if_splits)
  qed
  have e: "has_rw s False - {t} = {}" "has_rw s True - {t} = {}" using h by auto
  have F: "has_rw ?s False = (if keep then insert t R else R)"
  proof -
    have "has_rw ?s False = (if keep then insert t (has_rw s False \<union> R) else has_rw s False - {t} \<union> R)"
      by (rule set_eqI, cases keep) (use r in \<open>force simp: has_rw_def w'(1) split: if_splits\<close>)+
    then show ?thesis using h e by simp
  qed
  have nt: "t \<notin> R" using r by blast
  have fR: "finite R" by (simp add: R_def)
  show "finite (has_rw ?s False)" using F fR by simp
  show "activity (rws ?s) = int (card (has_rw ?s False))" using F nt fR by (simp add: w'(3) n(1))
  have "has_rw ?s True = has_rw s True - {t}" 
    by (rule set_eqI) (use r in \<open>force simp: has_rw_def w'(1) split: if_splits\<close>)
  then show "has_rw ?s True = {}" using e by simp
  show "distinct (map fst (rw_list (rws ?s)))" using dw(2) by (simp add: w'(2))
  have "rw_waiting ?s = {(u, w) \<in> rw_waiting s. u \<notin> R}" using m by (auto simp: rw_waiting_def w'(1) split: if_splits)
  then show "set (rw_list (rws ?s)) = rw_waiting ?s" using dw(1) rws_invD(3) [OF i] by (simp add: w'(2))
  assume ne: "rw_list (rws ?s) \<noteq> []"
  have "R \<noteq> {}" if "\<not> keep"
  proof -
    from ne have "?W \<noteq> []" by (auto simp: w'(2))
    with n(2) that show ?thesis by (cases ?W) (auto simp: R_def)
  qed
  moreover have "snd (hd (rw_list (rws ?s)))" using ne hd_dropWhile_readers by (simp add: w'(2))
  ultimately show "has_rw ?s False \<noteq> {} \<and> snd (hd (rw_list (rws ?s)))" using F by simp
qed

lemma rw_all_fields [simp]: "sem\<lparr>activity := a, rw_list := l, rw_task := tk\<rparr> = \<lparr>activity = a, rw_list = l, rw_task = tk\<rparr>"
  by simp

lemma rw_sys_id [simp]: "\<lparr>rws = rws s, rmode = rmode s\<rparr> = s"
  by (cases s) simp

lemma reader_holds: "rws_inv s \<Longrightarrow> rmode s t = RwHold False \<Longrightarrow> has_rw s True = {} \<and> t \<in> has_rw s False \<and> 0 < activity (rws s)"
proof -
  assume a: "rws_inv s" "rmode s t = RwHold False"
  then have "t \<in> has_rw s False" by (simp add: has_rw_def)
  then show ?thesis using rws_invD(1,6,7) [OF a(1)] by (cases "activity (rws s) < 0") (auto simp: card_gt_0_iff)
qed

lemma writer_holds: "rws_inv s \<Longrightarrow> rmode s t = RwHold True \<Longrightarrow> has_rw s False = {} \<and> has_rw s True = {t}"
proof -
  assume a: "rws_inv s" "rmode s t = RwHold True"
  then have "t \<in> has_rw s True" by (simp add: has_rw_def)
  then show ?thesis using rws_invD(6,7) [OF a(1)] by (cases "activity (rws s) < 0") auto
qed

lemma rw_up_read_inv:
  assumes i: "rws_inv s" and m: "rmode s t = RwHold False" and r: "up_read (rws s) = Some sem'"
  shows "rws_inv \<lparr>rws = sem', rmode = (rmode s)(t := RwNone)\<rparr>"
proof (cases "activity (rws s) = 1 \<and> rw_list (rws s) \<noteq> []")
  case True
  then obtain u w ws where l: "rw_list (rws s) = (u, w) # ws" by (metis list.exhaust surj_pair)
  have w: "w" using rws_invD(5) [OF i] True l by simp
  have "card (has_rw s False) = 1" using rws_invD(7) [OF i] True by simp
  then have "has_rw s False = {t}" using reader_holds [OF i m] by (metis card_1_singletonE singletonD)
  then have "rws_inv \<lparr>rws = \<lparr>activity = - 1, rw_list = ws, rw_task = (rw_task (rws s))(u := False)\<rparr>, rmode = (rmode s)(t := RwNone)\<rparr>"
    using rw_hand_writer [OF i, of u ws t False] l w m reader_holds [OF i m] by simp
  then show ?thesis using r l True by (auto simp: up_read_def rwsem_wake_one_writer_def)
next
  case False
  let ?s = "\<lparr>rws = (rws s)\<lparr>activity := activity (rws s) - 1\<rparr>, rmode = (rmode s)(t := RwNone)\<rparr>"
  note h = reader_holds [OF i m]
  have e: "has_rw ?s False = has_rw s False - {t}" "has_rw ?s True = has_rw s True" "rw_waiting ?s = rw_waiting s"
    using m by (auto simp: has_rw_def rw_waiting_def split: if_splits)
  have c: "activity (rws s) = int (card (has_rw s False))" using rws_invD(7) [OF i] h by simp
  have c': "activity (rws s) - 1 = int (card (has_rw ?s False))"
    unfolding e using c h rws_invD(1) [OF i] by (simp add: card_Diff_singleton)
  have "rws_inv ?s"
  proof (rule rws_inv_readers)
    assume "rw_list (rws ?s) \<noteq> []"
    then show "has_rw ?s False \<noteq> {} \<and> snd (hd (rw_list (rws ?s)))" using False c' rws_invD(5) [OF i] h by auto
  qed (use e c' h rws_invD(1-3) [OF i] in simp_all)
  then show ?thesis using r False by (auto simp: up_read_def)
qed

lemma rw_wake_all_inv:
  assumes i: "rws_inv s" and m: "rmode s t = RwHold True" and n: "n = (if keep then 1 else 0)"
    and r: "(if rw_list (rws s) \<noteq> [] then rwsem_do_wake ((rws s)\<lparr>activity := n\<rparr>) (\<not> keep) else Some ((rws s)\<lparr>activity := n\<rparr>))
            = Some sem'"
  shows "rws_inv \<lparr>rws = sem', rmode = (rmode s)(t := if keep then RwHold False else RwNone)\<rparr>"
proof -
  note h = writer_holds [OF i m]
  obtain tk l k where w: "wake_readers (rw_task (rws s)) (rw_list (rws s)) n = (tk, l, k)" by (metis prod_cases3)
  note R = rw_hand_readers [OF i m conjunct1 [OF h] conjunct2 [OF h] n _ w]
  have k: "wake_readers (rw_task (rws s)) (rw_list (rws s)) 0 = (tk, l, k - n)" using w by (simp add: wake_readers_spec)
  consider "rw_list (rws s) = []" | u ws where "rw_list (rws s) = (u, False) # ws"
    | u ws where "rw_list (rws s) = (u, True) # ws" by (metis (full_types) list.exhaust surj_pair)
  then show ?thesis
  proof cases
    case 1
    then have "sem' = \<lparr>activity = k, rw_list = l, rw_task = tk\<rparr>" using r w by auto
    then show ?thesis using R 1 by simp
  next
    case (2 u ws)
    then have "sem' = \<lparr>activity = k, rw_list = l, rw_task = tk\<rparr>" using r k by (cases keep) (auto simp: rwsem_do_wake_def Let_def)
    then show ?thesis using R 2 by simp
  next
    case (3 u ws)
    show ?thesis
    proof (cases keep)
      case True
      then have "sem' = \<lparr>activity = k, rw_list = l, rw_task = tk\<rparr>" using r w 3 n by (auto simp: rwsem_do_wake_def)
      then show ?thesis using R True by simp
    next
      case False
      then have "sem' = \<lparr>activity = - 1, rw_list = ws, rw_task = (rw_task (rws s))(u := False)\<rparr>"
        using r 3 by (auto simp: rwsem_do_wake_def)
      then show ?thesis using rw_hand_writer [OF i 3 m] h False by simp
    qed
  qed
qed

lemma rw_step_inv: "rw_step s s' \<Longrightarrow> rws_inv s \<Longrightarrow> rws_inv s'"
proof (induction rule: rw_step.induct)
  case (rw_down_read s t sem' g)
  then show ?case using rw_read_inv [of s t] rw_queue_inv [of s t False] rws_invD(4) [of s]
    by (auto simp: down_read_def split: if_splits)
next
  case (rw_down_write s t sem' g)
  then show ?case using rw_write_inv [of s t] rw_queue_inv [of s t True] rws_invD(4) [of s]
    by (auto simp: down_write_def split: if_splits)
next
  case (rw_try_read s t sem' g)
  then show ?case using rw_read_inv [of s t] by (auto simp: down_read_trylock_def fun_upd_idem split: if_splits)
next
  case (rw_try_write s t sem' g)
  then show ?case using rw_write_inv [of s t] by (auto simp: down_write_trylock_def fun_upd_idem split: if_splits)
next
  case (rw_up_write s t sem')
  then show ?case using rw_wake_all_inv [of s t 0 False sem']
    by (cases "rw_list (rws s) = []") (simp_all add: up_write_def Let_def)
next
  case (rw_downgrade s t sem')
  then show ?case using rw_wake_all_inv [of s t 1 True sem']
    by (cases "rw_list (rws s) = []") (simp_all add: downgrade_write_def Let_def)
qed (simp_all add: rw_wake_inv rw_up_read_inv)

lemma rw_reach_inv: "rw_reach s \<Longrightarrow> rws_inv s"
proof (induction rule: rw_reach.induct)
  case rw_start
  then show ?case by (simp add: rws_inv_def has_rw_def rw_waiting_def init_rwsem_def)
qed (rule rw_step_inv)

text \<open>
  C35: A reader-writer semaphore excludes: in every reachable state a task that has it for writing is the only
  task that has it, and \<^verbatim>\<open>activity\<close> is the number of readers, or -1 for a writer. No wake-up is lost: while tasks
  wait, some task has the semaphore, so one of them will pass it on. \<^verbatim>\<open>__up_read\<close> may wake the first waiter as a
  writer without looking at its flags, because behind readers the first waiter is a writer, and no release ever
  looks at an empty waiting list.
\<close>

theorem rwsem_excludes:
  assumes "rw_reach s"
  shows "(t \<in> has_rw s True \<and> u \<in> has_rw s w \<longrightarrow> t = u \<and> w)
    \<and> activity (rws s) = (if has_rw s True \<noteq> {} then - 1 else int (card (has_rw s False)))
    \<and> (rw_list (rws s) \<noteq> [] \<longrightarrow> has_rw s True \<noteq> {} \<or> has_rw s False \<noteq> {} \<and> snd (hd (rw_list (rws s))))
    \<and> up_read (rws s) \<noteq> None \<and> up_write (rws s) \<noteq> None \<and> downgrade_write (rws s) \<noteq> None"
proof -
  note i = rw_reach_inv [OF assms]
  have "t \<in> has_rw s True \<and> u \<in> has_rw s w \<longrightarrow> t = u \<and> w"
    using rws_invD(6,7) [OF i] by (cases "activity (rws s) < 0"; cases w) auto
  moreover have "activity (rws s) = (if has_rw s True \<noteq> {} then - 1 else int (card (has_rw s False)))"
    using rws_invD(6,7) [OF i] by (cases "activity (rws s) < 0") auto
  moreover have "rw_list (rws s) \<noteq> [] \<longrightarrow> has_rw s True \<noteq> {} \<or> has_rw s False \<noteq> {} \<and> snd (hd (rw_list (rws s)))"
  proof (cases "activity (rws s) < 0")
    case True
    then show ?thesis using rws_invD(6) [OF i] by auto
  next
    case False
    then show ?thesis using rws_invD(4,5,7) [OF i] by (cases "activity (rws s) = 0") auto
  qed
  moreover have "up_read (rws s) \<noteq> None \<and> up_write (rws s) \<noteq> None \<and> downgrade_write (rws s) \<noteq> None"
    by (cases "rw_list (rws s)")
      (auto simp: up_read_def up_write_def downgrade_write_def rwsem_do_wake_def rwsem_wake_one_writer_def Let_def)
  ultimately show ?thesis by blast
qed

text \<open>Task 1 writes, 2 and 3 wait to read and 4 to write; task 1 lets go and both readers have the semaphore.\<close>

theorem rwsem_excludes_witness:
  "\<exists>s. rw_reach s \<and> rw_list (rws s) = [(4, True)] \<and> has_rw s False = {2, 3} \<and> has_rw s True = {} \<and> activity (rws s) = 2"
proof -
  let ?tk = "\<lambda>_. False"
  let ?s0 = "\<lparr>rws = init_rwsem, rmode = (\<lambda>_. RwNone)\<rparr>"
  let ?s1 = "\<lparr>rws = \<lparr>activity = - 1, rw_list = [], rw_task = ?tk\<rparr>, rmode = (\<lambda>_. RwNone)(1 := RwHold True)\<rparr>"
  let ?s2 = "\<lparr>rws = \<lparr>activity = - 1, rw_list = [(2, False)], rw_task = ?tk(2 := True)\<rparr>,
    rmode = (rmode ?s1)(2 := RwWait False)\<rparr>"
  let ?s3 = "\<lparr>rws = \<lparr>activity = - 1, rw_list = [(2, False), (3, False)], rw_task = (rw_task (rws ?s2))(3 := True)\<rparr>,
    rmode = (rmode ?s2)(3 := RwWait False)\<rparr>"
  let ?s4 = "\<lparr>rws = \<lparr>activity = - 1, rw_list = [(2, False), (3, False), (4, True)], rw_task = (rw_task (rws ?s3))(4 := True)\<rparr>,
    rmode = (rmode ?s3)(4 := RwWait True)\<rparr>"
  let ?s5 = "\<lparr>rws = \<lparr>activity = 2, rw_list = [(4, True)], rw_task = (rw_task (rws ?s4))(2 := False, 3 := False)\<rparr>,
    rmode = (rmode ?s4)(1 := RwNone)\<rparr>"
  have "rw_step ?s0 ?s1" using rw_down_write [of ?s0 1 _ True] by (simp add: down_write_def init_rwsem_def)
  then have "rw_reach ?s1" by (rule rw_next [OF rw_start])
  moreover have "rw_step ?s1 ?s2" using rw_down_read [of ?s1 2 _ False] by (simp add: down_read_def)
  ultimately have "rw_reach ?s2" by (rule rw_next)
  moreover have "rw_step ?s2 ?s3" using rw_down_read [of ?s2 3 _ False] by (simp add: down_read_def)
  ultimately have "rw_reach ?s3" by (rule rw_next)
  moreover have "rw_step ?s3 ?s4" using rw_down_write [of ?s3 4 _ False] by (simp add: down_write_def)
  ultimately have "rw_reach ?s4" by (rule rw_next)
  moreover have "rw_step ?s4 ?s5" using rw_up_write [of ?s4 1] by (simp add: up_write_def rwsem_do_wake_def)
  ultimately have r: "rw_reach ?s5" by (rule rw_next)
  have f: "has_rw ?s5 False = {2, 3}" "has_rw ?s5 True = {}" by (auto simp: has_rw_def split: if_splits)
  have "activity (rws ?s5) = 2" using rwsem_excludes [OF r] f by (simp del: rw_sys.select_convs)
  then show ?thesis using r f by (intro exI [of _ ?s5]) simp
qed

end
