(* ===== verification/Sleep_Locks.thy ===== *)
theory Sleep_Locks
  imports Prelude
begin

text \<open>
  The counting semaphore of kernel/semaphore.c. A critical section of the spin lock inside it is one step,
  and a function that sleeps is split where it calls the scheduler. The list of waiters is the list of the
  waiting tasks in order, as \<^theory_text>\<open>Kernel_List\<close> justifies; \<^verbatim>\<open>waiter.up\<close>, which lives on the stack of the waiting
  task, is a map over the tasks.
\<close>

section \<open>Semaphores\<close>

record semaphore =
  s_count :: u32
  s_list :: "nat list"
  s_up :: "nat \<Rightarrow> bool"

text \<open>The signals that are pending for a task, and the four ways to wait. A timeout is in ticks.\<close>

datatype signals = NoSignal | Signal | Fatal

datatype down_kind = Down | Interruptible | Killable | Timeout int

definition MAX_SCHEDULE_TIMEOUT :: int where "MAX_SCHEDULE_TIMEOUT = 9223372036854775807"

definition sema_init :: "u32 \<Rightarrow> semaphore" where
  "sema_init val = \<lparr>s_count = val, s_list = [], s_up = (\<lambda>_. False)\<rparr>"

fun signal_stops :: "down_kind \<Rightarrow> signals \<Rightarrow> bool" where
  "signal_stops Interruptible sig \<longleftrightarrow> sig \<noteq> NoSignal"
| "signal_stops Killable sig \<longleftrightarrow> sig = Fatal"
| "signal_stops _ sig \<longleftrightarrow> False"

fun first_timeout :: "down_kind \<Rightarrow> int" where
  "first_timeout (Timeout j) = j"
| "first_timeout _ = MAX_SCHEDULE_TIMEOUT"

text \<open>The top of the loop of \<^verbatim>\<open>__down_common\<close>: the result, or \<^term>\<open>None\<close> when the task sleeps.\<close>

definition down_loop :: "semaphore \<Rightarrow> nat \<Rightarrow> down_kind \<Rightarrow> signals \<Rightarrow> int \<Rightarrow> semaphore \<times> int option" where
  "down_loop sem t k sig timeout =
     (if signal_stops k sig then (sem\<lparr>s_list := remove1 t (s_list sem)\<rparr>, Some (- EINTR))
      else if timeout \<le> 0 then (sem\<lparr>s_list := remove1 t (s_list sem)\<rparr>, Some (- ETIME))
      else (sem, None))"

definition down_common :: "semaphore \<Rightarrow> nat \<Rightarrow> down_kind \<Rightarrow> signals \<Rightarrow> semaphore \<times> int option" where
  "down_common sem t k sig =
     down_loop (sem\<lparr>s_list := s_list sem @ [t], s_up := (s_up sem)(t := False)\<rparr>) t k sig (first_timeout k)"

text \<open>\<^verbatim>\<open>__down\<close>, \<^verbatim>\<open>__down_interruptible\<close>, \<^verbatim>\<open>__down_killable\<close> and \<^verbatim>\<open>__down_timeout\<close> choose the task state and the timeout; the
  functions that call them, up to the call of the scheduler.\<close>

definition down :: "semaphore \<Rightarrow> nat \<Rightarrow> signals \<Rightarrow> semaphore \<times> int option" where
  "down sem t sig =
     (if 0 < s_count sem then (sem\<lparr>s_count := s_count sem - 1\<rparr>, Some 0) else down_common sem t Down sig)"

definition down_interruptible :: "semaphore \<Rightarrow> nat \<Rightarrow> signals \<Rightarrow> semaphore \<times> int option" where
  "down_interruptible sem t sig =
     (if 0 < s_count sem then (sem\<lparr>s_count := s_count sem - 1\<rparr>, Some 0) else down_common sem t Interruptible sig)"

definition down_killable :: "semaphore \<Rightarrow> nat \<Rightarrow> signals \<Rightarrow> semaphore \<times> int option" where
  "down_killable sem t sig =
     (if 0 < s_count sem then (sem\<lparr>s_count := s_count sem - 1\<rparr>, Some 0) else down_common sem t Killable sig)"

definition down_timeout :: "semaphore \<Rightarrow> nat \<Rightarrow> int \<Rightarrow> signals \<Rightarrow> semaphore \<times> int option" where
  "down_timeout sem t j sig =
     (if 0 < s_count sem then (sem\<lparr>s_count := s_count sem - 1\<rparr>, Some 0) else down_common sem t (Timeout j) sig)"

primrec down_by :: "down_kind \<Rightarrow> semaphore \<Rightarrow> nat \<Rightarrow> signals \<Rightarrow> semaphore \<times> int option" where
  "down_by Down = down"
| "down_by Interruptible = down_interruptible"
| "down_by Killable = down_killable"
| "down_by (Timeout j) = (\<lambda>sem t. down_timeout sem t j)"

lemma down_by_eq: "down_by k sem t sig =
    (if 0 < s_count sem then (sem\<lparr>s_count := s_count sem - 1\<rparr>, Some 0) else down_common sem t k sig)"
  by (cases k) (simp_all add: down_def down_interruptible_def down_killable_def down_timeout_def)

text \<open>After the scheduler has returned, with the ticks that are left.\<close>

definition down_resume :: "semaphore \<Rightarrow> nat \<Rightarrow> down_kind \<Rightarrow> signals \<Rightarrow> int \<Rightarrow> semaphore \<times> int option" where
  "down_resume sem t k sig timeout = (if s_up sem t then (sem, Some 0) else down_loop sem t k sig timeout)"

text \<open>The ticks \<^verbatim>\<open>schedule_timeout\<close> can return.\<close>

fun ticks_left :: "down_kind \<Rightarrow> int \<Rightarrow> bool" where
  "ticks_left (Timeout j) left \<longleftrightarrow> 0 \<le> left \<and> left \<le> max 0 j"
| "ticks_left _ left \<longleftrightarrow> left = MAX_SCHEDULE_TIMEOUT"

text \<open>The difference is stored in an \<^verbatim>\<open>int\<close>.\<close>

definition down_trylock :: "semaphore \<Rightarrow> semaphore \<times> int" where
  "down_trylock sem =
     (let c = sint (s_count sem - 1)
      in (if 0 \<le> c then sem\<lparr>s_count := word_of_int c\<rparr> else sem, if c < 0 then 1 else 0))"

definition up_first :: "semaphore \<Rightarrow> semaphore" where
  "up_first sem = sem\<lparr>s_list := tl (s_list sem), s_up := (s_up sem)(hd (s_list sem) := True)\<rparr>"

definition up :: "semaphore \<Rightarrow> semaphore" where
  "up sem = (if s_list sem = [] then sem\<lparr>s_count := s_count sem + 1\<rparr> else up_first sem)"

subsection \<open>Tasks that use a semaphore\<close>

text \<open>\<open>sleeping\<close> holds the kind of wait of the tasks inside of a down; \<open>ups\<close> and \<open>downs\<close> count the calls that have
  released or acquired the semaphore. A down that fails is no acquisition.\<close>

record sem_sys =
  sem_of :: semaphore
  sleeping :: "nat \<rightharpoonup> down_kind"
  ups :: nat
  downs :: nat

inductive sem_step :: "sem_sys \<Rightarrow> sem_sys \<Rightarrow> bool" where
  sem_down: "sleeping s t = None \<Longrightarrow> down_by k (sem_of s) t sig = (sem', Some r) \<Longrightarrow>
    sem_step s (s\<lparr>sem_of := sem', downs := downs s + (if r = 0 then 1 else 0)\<rparr>)"
| sem_sleep: "sleeping s t = None \<Longrightarrow> down_by k (sem_of s) t sig = (sem', None) \<Longrightarrow>
    sem_step s (s\<lparr>sem_of := sem', sleeping := (sleeping s)(t \<mapsto> k)\<rparr>)"
| sem_wake: "sleeping s t = Some k \<Longrightarrow> ticks_left k timeout \<Longrightarrow> down_resume (sem_of s) t k sig timeout = (sem', Some r) \<Longrightarrow>
    sem_step s (s\<lparr>sem_of := sem', sleeping := (sleeping s)(t := None), downs := downs s + (if r = 0 then 1 else 0)\<rparr>)"
| sem_again: "sleeping s t = Some k \<Longrightarrow> ticks_left k timeout \<Longrightarrow> down_resume (sem_of s) t k sig timeout = (sem', None) \<Longrightarrow>
    sem_step s (s\<lparr>sem_of := sem'\<rparr>)"
| sem_try: "down_trylock (sem_of s) = (sem', r) \<Longrightarrow>
    sem_step s (s\<lparr>sem_of := sem', downs := downs s + (if r = 0 then 1 else 0)\<rparr>)"
| sem_up: "unat (s_count (sem_of s)) < 2147483647 \<Longrightarrow> sem_step s (s\<lparr>sem_of := up (sem_of s), ups := ups s + 1\<rparr>)"

inductive sem_reach :: "u32 \<Rightarrow> sem_sys \<Rightarrow> bool" for val where
  sem_start: "unat val < 2147483648 \<Longrightarrow> sem_reach val \<lparr>sem_of = sema_init val, sleeping = Map.empty, ups = 0, downs = 0\<rparr>"
| sem_next: "sem_reach val s \<Longrightarrow> sem_step s s' \<Longrightarrow> sem_reach val s'"

definition granted :: "sem_sys \<Rightarrow> nat set" where
  "granted s = {t \<in> dom (sleeping s). s_up (sem_of s) t}"

definition sem_inv :: "nat \<Rightarrow> sem_sys \<Rightarrow> bool" where
  "sem_inv n s \<longleftrightarrow> finite (dom (sleeping s)) \<and> distinct (s_list (sem_of s))
     \<and> set (s_list (sem_of s)) = dom (sleeping s) - granted s
     \<and> (s_list (sem_of s) \<noteq> [] \<longrightarrow> s_count (sem_of s) = 0)
     \<and> unat (s_count (sem_of s)) \<le> 2147483648
     \<and> unat (s_count (sem_of s)) + downs s + card (granted s) = n + ups s"

lemma sem_inv_finite: "sem_inv n s \<Longrightarrow> finite (granted s)"
  by (auto simp: sem_inv_def granted_def)

lemma down_cases:
  assumes "down_by k sem t sig = (sem', r)"
  obtains (free) "0 < s_count sem" "sem' = sem\<lparr>s_count := s_count sem - 1\<rparr>" "r = Some 0"
    | (sleep) "s_count sem = 0" "r = None" "sem' = sem\<lparr>s_list := s_list sem @ [t], s_up := (s_up sem)(t := False)\<rparr>"
    | (fail) e where "s_count sem = 0" "r = Some e" "e < 0"
        "sem' = sem\<lparr>s_up := (s_up sem)(t := False), s_list := remove1 t (s_list sem @ [t])\<rparr>"
proof (cases "0 < s_count sem")
  case True
  then show ?thesis using assms by (intro free) (simp_all add: down_by_eq)
next
  case False
  then have 0: "s_count sem = 0" by (simp add: word_gt_0)
  consider "signal_stops k sig" | "\<not> signal_stops k sig" "first_timeout k \<le> 0" | "\<not> signal_stops k sig" "0 < first_timeout k" by linarith
  then show ?thesis
  proof cases
    case 1
    then show ?thesis using assms 0 by (intro fail [of "- EINTR"]) (simp_all add: down_by_eq down_common_def down_loop_def EINTR_def)
  next
    case 2
    then show ?thesis using assms 0 by (intro fail [of "- ETIME"]) (simp_all add: down_by_eq down_common_def down_loop_def ETIME_def)
  next
    case 3
    then show ?thesis using assms 0 by (intro sleep) (simp_all add: down_by_eq down_common_def down_loop_def)
  qed
qed

lemma down_resume_cases:
  assumes "down_resume sem t k sig to = (sem', r)"
  obtains (up) "s_up sem t" "sem' = sem" "r = Some 0"
    | (sleep) "\<not> s_up sem t" "r = None" "sem' = sem"
    | (fail) e where "\<not> s_up sem t" "r = Some e" "e < 0" "sem' = sem\<lparr>s_list := remove1 t (s_list sem)\<rparr>"
proof -
  consider "s_up sem t" | "\<not> s_up sem t" "signal_stops k sig" | "\<not> s_up sem t" "\<not> signal_stops k sig" "to \<le> 0"
    | "\<not> s_up sem t" "\<not> signal_stops k sig" "0 < to" by linarith
  then show ?thesis
  proof cases
    case 1
    then show ?thesis using assms by (intro up) (simp_all add: down_resume_def)
  next
    case 2
    then show ?thesis using assms by (intro fail [of "- EINTR"]) (simp_all add: down_resume_def down_loop_def EINTR_def)
  next
    case 3
    then show ?thesis using assms by (intro fail [of "- ETIME"]) (simp_all add: down_resume_def down_loop_def ETIME_def)
  next
    case 4
    then show ?thesis using assms by (intro sleep) (simp_all add: down_resume_def down_loop_def)
  qed
qed

lemma sint_small:
  fixes w :: u32
  assumes "unat w < 2147483648"
  shows "sint w = int (unat w)" "word_of_int (int (unat w)) = w"
proof -
  show w: "word_of_int (int (unat w)) = w" by simp
  have "sint (word_of_int (int (unat w)) :: u32) = (int (unat w) + 2147483648) mod 4294967296 - 2147483648"
    unfolding int_word_sint by simp
  also have "(int (unat w) + 2147483648) mod 4294967296 - 2147483648 = int (unat w)"
  proof -
    have "int (unat w) < 2147483648" using assms by linarith
    then have "(int (unat w) + 2147483648) mod 4294967296 = int (unat w) + 2147483648"
      by (intro mod_pos_pos_trivial) linarith+
    then show ?thesis by linarith
  qed
  finally show "sint w = int (unat w)" unfolding w .
qed

lemma down_trylock_cases:
  assumes "down_trylock sem = (sem', r)" "unat (s_count sem) \<le> 2147483648"
  obtains (free) "0 < s_count sem" "sem' = sem\<lparr>s_count := s_count sem - 1\<rparr>" "r = 0"
    | (busy) "s_count sem = 0" "sem' = sem" "r = 1"
proof (cases "s_count sem = 0")
  case True
  then show ?thesis using assms(1) by (intro busy) (simp_all add: down_trylock_def)
next
  case False
  define w where "w = s_count sem - 1"
  have "unat w = unat (s_count sem) - 1" using False by (simp add: unat_minus_one w_def)
  moreover have "unat (s_count sem) \<noteq> 0" using False by (simp add: unat_eq_zero)
  ultimately have "unat w < 2147483648" using assms(2) by linarith
  then have "down_trylock sem = (sem\<lparr>s_count := w\<rparr>, 0)"
    using sint_small [of w] by (simp add: down_trylock_def Let_def w_def [symmetric])
  then show ?thesis using assms(1) False by (intro free) (simp_all add: word_gt_0 w_def)
qed

lemma unat_pred: "0 < w \<Longrightarrow> unat (w - 1) = unat w - 1 \<and> 0 < unat w" for w :: u32
  by (simp add: unat_minus_one word_gt_0 unat_gt_0)

lemma sem_invD:
  assumes "sem_inv n s"
  shows "finite (dom (sleeping s))" "distinct (s_list (sem_of s))" "set (s_list (sem_of s)) = dom (sleeping s) - granted s"
    "s_list (sem_of s) \<noteq> [] \<Longrightarrow> s_count (sem_of s) = 0" "unat (s_count (sem_of s)) \<le> 2147483648"
    "unat (s_count (sem_of s)) + downs s + card (granted s) = n + ups s"
  using assms by (simp_all add: sem_inv_def)

lemma sem_down_inv:
  assumes "sem_inv n s" "sleeping s t = None" "down_by k (sem_of s) t sig = (sem', Some r)"
  shows "sem_inv n (s\<lparr>sem_of := sem', downs := downs s + (if r = 0 then 1 else 0)\<rparr>)" (is "sem_inv n ?s")
proof -
  note i = sem_invD [OF assms(1)]
  from assms(3) show ?thesis
  proof (cases rule: down_cases)
    case free
    have g: "granted ?s = granted s" using free by (simp add: granted_def)
    have "s_list (sem_of s) = []" using i(4) free(1) by fastforce
    then show ?thesis using i free unat_pred [OF free(1)] unfolding sem_inv_def g by simp
  next
    case (fail e)
    have t: "t \<notin> dom (sleeping s)" using assms(2) by auto
    then have "t \<notin> set (s_list (sem_of s))" using i(3) by blast
    then have l: "remove1 t (s_list (sem_of s) @ [t]) = s_list (sem_of s)" by (simp add: remove1_append)
    have g: "granted ?s = granted s" using fail t by (auto simp: granted_def)
    show ?thesis using i fail l unfolding sem_inv_def g by simp
  qed simp
qed

lemma sem_sleep_inv:
  assumes "sem_inv n s" "sleeping s t = None" "down_by k (sem_of s) t sig = (sem', None)"
  shows "sem_inv n (s\<lparr>sem_of := sem', sleeping := (sleeping s)(t \<mapsto> k)\<rparr>)" (is "sem_inv n ?s")
proof -
  note i = sem_invD [OF assms(1)]
  from assms(3) show ?thesis
  proof (cases rule: down_cases)
    case sleep
    have t: "t \<notin> dom (sleeping s)" using assms(2) by auto
    have g: "granted ?s = granted s" using sleep t by (auto simp: granted_def)
    have "t \<notin> granted s" using t by (auto simp: granted_def)
    then have "set (s_list (sem_of s) @ [t]) = insert t (dom (sleeping s)) - granted s" using i(3) by auto
    moreover have "distinct (s_list (sem_of s) @ [t])" using i(2,3) t by auto
    ultimately show ?thesis using i(1,5,6) sleep unfolding sem_inv_def g by simp
  qed simp_all
qed

lemma sem_wake_inv:
  assumes "sem_inv n s" "sleeping s t = Some k" "down_resume (sem_of s) t k sig timeout = (sem', Some r)"
  shows "sem_inv n (s\<lparr>sem_of := sem', sleeping := (sleeping s)(t := None), downs := downs s + (if r = 0 then 1 else 0)\<rparr>)"
    (is "sem_inv n ?s")
proof -
  note i = sem_invD [OF assms(1)]
  from assms(3) show ?thesis
  proof (cases rule: down_resume_cases)
    case up
    have g: "granted ?s = granted s - {t}" "t \<in> granted s" using up assms(2) by (auto simp: granted_def)
    then have "card (granted s) = Suc (card (granted s - {t}))" using card.remove [OF sem_inv_finite [OF assms(1)]] by blast
    moreover have "set (s_list (sem_of s)) = dom (sleeping s) - {t} - (granted s - {t})" using g(2) i(3) by blast
    ultimately show ?thesis using i(1,2,4,5,6) up unfolding sem_inv_def g by simp
  next
    case (fail e)
    have g: "granted ?s = granted s" using fail by (auto simp: granted_def)
    have "set (remove1 t (s_list (sem_of s))) = dom (sleeping s) - {t} - granted s" using i(2,3) by auto
    moreover have "remove1 t (s_list (sem_of s)) \<noteq> [] \<longrightarrow> s_count (sem_of s) = 0"
      using i(4) by (cases "s_list (sem_of s)") simp_all
    ultimately show ?thesis using i(1,2,5,6) fail unfolding sem_inv_def g by simp
  qed simp
qed

lemma sem_try_inv:
  assumes "sem_inv n s" "down_trylock (sem_of s) = (sem', r)"
  shows "sem_inv n (s\<lparr>sem_of := sem', downs := downs s + (if r = 0 then 1 else 0)\<rparr>)" (is "sem_inv n ?s")
proof -
  note i = sem_invD [OF assms(1)]
  from assms(2) i(5) show ?thesis
  proof (cases rule: down_trylock_cases)
    case free
    have g: "granted ?s = granted s" using free by (simp add: granted_def)
    have "s_list (sem_of s) = []" using i(4) free(1) by fastforce
    then show ?thesis using i free unat_pred [OF free(1)] unfolding sem_inv_def g by simp
  next
    case busy
    then show ?thesis using assms(1) by simp
  qed
qed

lemma sem_up_inv:
  assumes "sem_inv n s" "unat (s_count (sem_of s)) < 2147483647"
  shows "sem_inv n (s\<lparr>sem_of := up (sem_of s), ups := ups s + 1\<rparr>)" (is "sem_inv n ?s")
proof -
  note i = sem_invD [OF assms(1)]
  show ?thesis
  proof (cases "s_list (sem_of s)")
    case Nil
    have "unat (s_count (sem_of s) + 1) = unat (s_count (sem_of s)) + 1" using assms(2) by (simp add: unat_word_ariths)
    moreover have g: "granted ?s = granted s" using Nil by (simp add: granted_def up_def)
    ultimately show ?thesis using i Nil assms(2) unfolding sem_inv_def g by (simp add: up_def)
  next
    case (Cons t ts)
    have d: "distinct (t # ts)" "insert t (set ts) = dom (sleeping s) - granted s" using i(2,3) Cons by simp_all
    then have t: "t \<in> dom (sleeping s)" "t \<notin> granted s" by blast+
    have g: "granted ?s = insert t (granted s)" using Cons t(1) by (auto simp: granted_def up_def up_first_def)
    have "card (insert t (granted s)) = Suc (card (granted s))" using t(2) sem_inv_finite [OF assms(1)] by simp
    moreover have "set ts = dom (sleeping s) - insert t (granted s)" using d by auto
    moreover have "s_count (sem_of s) = 0" using i(4) Cons by simp
    ultimately show ?thesis using i(1,5,6) Cons d(1) unfolding sem_inv_def g by (simp add: up_def up_first_def)
  qed
qed

lemma sem_step_inv: "sem_step s s' \<Longrightarrow> sem_inv n s \<Longrightarrow> sem_inv n s'"
proof (induction rule: sem_step.induct)
  case (sem_again s t k sig to sem')
  from sem_again.hyps(3) have "sem' = sem_of s" by (cases rule: down_resume_cases) simp_all
  then show ?case using sem_again.prems by simp
qed (blast intro: sem_down_inv sem_sleep_inv sem_wake_inv sem_try_inv sem_up_inv)+

lemma sem_reach_inv: "sem_reach val s \<Longrightarrow> sem_inv (unat val) s"
proof (induction rule: sem_reach.induct)
  case sem_start
  then show ?case by (simp add: sem_inv_def granted_def sema_init_def)
next
  case (sem_next s s')
  then show ?case using sem_step_inv by blast
qed

text \<open>
  C34: A semaphore neither loses nor invents tokens, for every interleaving of its operations with signals and
  timeouts: the count, the successful downs and the tokens handed to waiters that have not run yet add up
  to the initial value and the ups. So a waiter that a signal or a timeout stops has not been given a
  token. Nobody waits while the count is positive, exactly the sleeping tasks without a token are in the
  list, and an up hands its token to the task that has waited longest.
\<close>

theorem semaphore_conserves_tokens:
  assumes "sem_reach val s"
  shows "unat (s_count (sem_of s)) + downs s + card (granted s) = unat val + ups s
    \<and> (s_list (sem_of s) \<noteq> [] \<longrightarrow> s_count (sem_of s) = 0)
    \<and> distinct (s_list (sem_of s)) \<and> set (s_list (sem_of s)) = dom (sleeping s) - granted s
    \<and> (\<forall>t ts. s_list (sem_of s) = t # ts \<longrightarrow>
         s_list (up (sem_of s)) = ts \<and> s_up (up (sem_of s)) t \<and> s_count (up (sem_of s)) = s_count (sem_of s))"
  using sem_invD [OF sem_reach_inv [OF assms]] by (simp add: up_def up_first_def)

theorem semaphore_conserves_tokens_witness:
  "\<exists>s. sem_reach 1 s \<and> s_list (sem_of s) = [8] \<and> downs s = 1 \<and> card (granted s) = 0"
proof -
  let ?s0 = "\<lparr>sem_of = sema_init 1, sleeping = Map.empty, ups = 0, downs = 0\<rparr>"
  let ?a = "(sema_init 1)\<lparr>s_count := 0\<rparr>"
  let ?s1 = "?s0\<lparr>sem_of := ?a, downs := 1\<rparr>"
  let ?s2 = "?s1\<lparr>sem_of := ?a\<lparr>s_list := [8], s_up := (s_up ?a)(8 := False)\<rparr>, sleeping := [8 \<mapsto> Down]\<rparr>"
  have "sem_reach 1 ?s0" by (rule sem_start) simp
  moreover have "down_by Down (sema_init 1) 7 NoSignal = (?a, Some 0)" by (simp add: down_def sema_init_def)
  then have "sem_step ?s0 ?s1" using sem_down [of ?s0 7 Down NoSignal ?a 0] by simp
  moreover have "down_by Down ?a 8 NoSignal = (?a\<lparr>s_list := [8], s_up := (s_up ?a)(8 := False)\<rparr>, None)"
    by (simp add: down_def down_common_def down_loop_def sema_init_def MAX_SCHEDULE_TIMEOUT_def)
  then have "sem_step ?s1 ?s2" using sem_sleep [of ?s1 8 Down NoSignal] by simp
  ultimately have r: "sem_reach 1 ?s2" using sem_next by blast
  have "card (granted ?s2) = 0" using semaphore_conserves_tokens [OF r] by (simp add: sema_init_def)
  then show ?thesis using r by (intro exI [of _ ?s2]) simp
qed

end
