(* ===== verification/Mutex.thy ===== *)
theory Mutex
  imports Sleep_Locks
begin

text \<open>
  The mutex of kernel/mutex.c with the fast paths of arch/x86/include/asm/mutex_64.h. Unlike in a semaphore, the
  counter is changed by atomic operations outside of the spin lock, so every atomic operation is a step of its own
  and the spin lock \<^verbatim>\<open>wait_lock\<close> is part of the state. The owner field, which only guides the optimistic spinning, is
  written in the step of the operation that acquires or releases. The waiting list is the list of the waiting tasks.
\<close>

section \<open>The operations\<close>

record mutex =
  m_count :: int
  m_wait :: "nat list"
  m_owner :: "nat option"

datatype lock_kind = Uninterruptible | KillableLock | InterruptibleLock

definition mutex_init :: mutex where
  "mutex_init = \<lparr>m_count = 1, m_wait = [], m_owner = None\<rparr>"

text \<open>The operations that can acquire return whether they did.\<close>

definition mutex_fastpath_lock :: "mutex \<Rightarrow> nat \<Rightarrow> mutex \<times> bool" where
  "mutex_fastpath_lock m t =
     (let m1 = m\<lparr>m_count := m_count m - 1\<rparr>
      in if m_count m1 < 0 then (m1, False) else (m1\<lparr>m_owner := Some t\<rparr>, True))"

definition mutex_trylock :: "mutex \<Rightarrow> nat \<Rightarrow> mutex \<times> bool" where
  "mutex_trylock m t = (if m_count m = 1 then (m\<lparr>m_count := 0, m_owner := Some t\<rparr>, True) else (m, False))"

text \<open>One round of the optimistic spinning in \<^verbatim>\<open>__mutex_lock_common\<close>.\<close>

definition lock_spin :: "mutex \<Rightarrow> nat \<Rightarrow> mutex \<times> bool" where
  "lock_spin m t = (if m_count m = 1 then (m\<lparr>m_count := 0, m_owner := Some t\<rparr>, True) else (m, False))"

definition lock_add :: "mutex \<Rightarrow> nat \<Rightarrow> mutex" where
  "lock_add m t = m\<lparr>m_wait := m_wait m @ [t]\<rparr>"

definition lock_xchg :: "mutex \<Rightarrow> mutex \<times> bool" where
  "lock_xchg m = (m\<lparr>m_count := - 1\<rparr>, m_count m = 1)"

fun lock_signal :: "lock_kind \<Rightarrow> signals \<Rightarrow> bool" where
  "lock_signal Uninterruptible sig \<longleftrightarrow> False"
| "lock_signal KillableLock sig \<longleftrightarrow> sig = Fatal"
| "lock_signal InterruptibleLock sig \<longleftrightarrow> sig \<noteq> NoSignal"

definition lock_interrupted :: "mutex \<Rightarrow> nat \<Rightarrow> mutex \<times> int" where
  "lock_interrupted m t = (m\<lparr>m_wait := remove1 t (m_wait m)\<rparr>, - EINTR)"

definition lock_done :: "mutex \<Rightarrow> nat \<Rightarrow> mutex" where
  "lock_done m t =
     (let m1 = m\<lparr>m_wait := remove1 t (m_wait m), m_owner := Some t\<rparr>
      in if m_wait m1 = [] then m1\<lparr>m_count := 0\<rparr> else m1)"

text \<open>The second result tells whether the slow path is called.\<close>

definition mutex_fastpath_unlock :: "mutex \<Rightarrow> mutex \<times> bool" where
  "mutex_fastpath_unlock m =
     (let m1 = m\<lparr>m_owner := None, m_count := m_count m + 1\<rparr> in (m1, \<not> 0 < m_count m1))"

text \<open>The slow path releases the mutex and returns the task that it wakes.\<close>

definition mutex_unlock_slowpath :: "mutex \<Rightarrow> mutex \<times> nat option" where
  "mutex_unlock_slowpath m =
     (m\<lparr>m_count := 1\<rparr>, case m_wait m of [] \<Rightarrow> None | t # _ \<Rightarrow> Some t)"

section \<open>Tasks that use a mutex\<close>

text \<open>
  The place of a task: outside; in the slow path before it holds \<^verbatim>\<open>wait_lock\<close>; then with \<^verbatim>\<open>wait_lock\<close> before the first
  exchange, before an exchange of the loop, after an exchange that failed, after one that succeeded; asleep, with a
  flag that tells whether it has been woken; with the mutex; and on the way to the slow path of \<^verbatim>\<open>mutex_unlock\<close>.
\<close>

datatype mpc = MOut | MSlow lock_kind | MAdd lock_kind | MTry lock_kind | MFail lock_kind | MGot lock_kind
  | MSleep lock_kind bool | MHeld | MUnlock

record mutex_sys =
  mtx :: mutex
  mpcs :: "nat \<Rightarrow> mpc"
  wlock :: "nat option"

fun wake :: "mpc \<Rightarrow> mpc" where
  "wake (MSleep k b) = MSleep k True"
| "wake p = p"

definition wake_task :: "nat option \<Rightarrow> (nat \<Rightarrow> mpc) \<Rightarrow> nat \<Rightarrow> mpc" where
  "wake_task w ps = (case w of None \<Rightarrow> ps | Some u \<Rightarrow> ps(u := wake (ps u)))"

inductive mutex_step :: "mutex_sys \<Rightarrow> mutex_sys \<Rightarrow> bool" where
  mx_lock: "mpcs s t = MOut \<Longrightarrow> mutex_fastpath_lock (mtx s) t = (m, ok) \<Longrightarrow>
    mutex_step s (s\<lparr>mtx := m, mpcs := (mpcs s)(t := if ok then MHeld else MSlow k)\<rparr>)"
| mx_trylock: "mpcs s t = MOut \<Longrightarrow> mutex_trylock (mtx s) t = (m, ok) \<Longrightarrow>
    mutex_step s (s\<lparr>mtx := m, mpcs := (mpcs s)(t := if ok then MHeld else MOut)\<rparr>)"
| mx_spin: "mpcs s t = MSlow k \<Longrightarrow> lock_spin (mtx s) t = (m, ok) \<Longrightarrow>
    mutex_step s (s\<lparr>mtx := m, mpcs := (mpcs s)(t := if ok then MHeld else MSlow k)\<rparr>)"
| mx_add: "mpcs s t = MSlow k \<Longrightarrow> wlock s = None \<Longrightarrow>
    mutex_step s (s\<lparr>mtx := lock_add (mtx s) t, mpcs := (mpcs s)(t := MAdd k), wlock := Some t\<rparr>)"
| mx_first: "mpcs s t = MAdd k \<Longrightarrow> lock_xchg (mtx s) = (m, ok) \<Longrightarrow>
    mutex_step s (s\<lparr>mtx := m, mpcs := (mpcs s)(t := if ok then MGot k else MTry k)\<rparr>)"
| mx_again: "mpcs s t = MTry k \<Longrightarrow> lock_xchg (mtx s) = (m, ok) \<Longrightarrow>
    mutex_step s (s\<lparr>mtx := m, mpcs := (mpcs s)(t := if ok then MGot k else MFail k)\<rparr>)"
| mx_signal: "mpcs s t = MFail k \<Longrightarrow> lock_signal k sig \<Longrightarrow>
    mutex_step s (s\<lparr>mtx := fst (lock_interrupted (mtx s) t), mpcs := (mpcs s)(t := MOut), wlock := None\<rparr>)"
| mx_sleep: "mpcs s t = MFail k \<Longrightarrow> \<not> lock_signal k sig \<Longrightarrow>
    mutex_step s (s\<lparr>mpcs := (mpcs s)(t := MSleep k False), wlock := None\<rparr>)"
| mx_wakes: "mpcs s t = MSleep k b \<Longrightarrow> wlock s = None \<Longrightarrow>
    mutex_step s (s\<lparr>mpcs := (mpcs s)(t := MTry k), wlock := Some t\<rparr>)"
| mx_done: "mpcs s t = MGot k \<Longrightarrow>
    mutex_step s (s\<lparr>mtx := lock_done (mtx s) t, mpcs := (mpcs s)(t := MHeld), wlock := None\<rparr>)"
| mx_unlock: "mpcs s t = MHeld \<Longrightarrow> mutex_fastpath_unlock (mtx s) = (m, slow) \<Longrightarrow>
    mutex_step s (s\<lparr>mtx := m, mpcs := (mpcs s)(t := if slow then MUnlock else MOut)\<rparr>)"
| mx_unlock_slow: "mpcs s t = MUnlock \<Longrightarrow> wlock s = None \<Longrightarrow> mutex_unlock_slowpath (mtx s) = (m, w) \<Longrightarrow>
    mutex_step s (s\<lparr>mtx := m, mpcs := wake_task w ((mpcs s)(t := MOut))\<rparr>)"

inductive mutex_reach :: "mutex_sys \<Rightarrow> bool" where
  mx_start: "mutex_reach \<lparr>mtx = mutex_init, mpcs = (\<lambda>_. MOut), wlock = None\<rparr>"
| mx_next: "mutex_reach s \<Longrightarrow> mutex_step s s' \<Longrightarrow> mutex_reach s'"

section \<open>The invariant\<close>

fun owns :: "mpc \<Rightarrow> bool" where
  "owns MHeld \<longleftrightarrow> True" | "owns MUnlock \<longleftrightarrow> True" | "owns (MGot k) \<longleftrightarrow> True" | "owns _ \<longleftrightarrow> False"

fun inside :: "mpc \<Rightarrow> bool" where
  "inside (MAdd k) \<longleftrightarrow> True" | "inside (MTry k) \<longleftrightarrow> True" | "inside (MFail k) \<longleftrightarrow> True" | "inside (MGot k) \<longleftrightarrow> True" | "inside _ \<longleftrightarrow> False"

fun queued :: "mpc \<Rightarrow> bool" where
  "queued (MSleep k b) \<longleftrightarrow> True" | "queued p \<longleftrightarrow> inside p"

fun awake :: "mpc \<Rightarrow> bool" where
  "awake (MAdd k) \<longleftrightarrow> True" | "awake (MTry k) \<longleftrightarrow> True" | "awake (MSleep k b) \<longleftrightarrow> b" | "awake _ \<longleftrightarrow> False"

definition unlocking :: "mutex_sys \<Rightarrow> bool" where
  "unlocking s \<longleftrightarrow> (\<exists>t. mpcs s t = MUnlock)"

definition mutex_inv :: "mutex_sys \<Rightarrow> bool" where
  "mutex_inv s \<longleftrightarrow>
     (\<forall>t u. owns (mpcs s t) \<and> owns (mpcs s u) \<longrightarrow> t = u)
   \<and> m_count (mtx s) \<le> 1 \<and> (m_count (mtx s) = 1 \<longleftrightarrow> (\<forall>t. \<not> owns (mpcs s t)))
   \<and> (\<forall>t. inside (mpcs s t) \<longleftrightarrow> wlock s = Some t)
   \<and> distinct (m_wait (mtx s)) \<and> set (m_wait (mtx s)) = {t. queued (mpcs s t)}
   \<and> (\<forall>t. m_owner (mtx s) = Some t \<longleftrightarrow> mpcs s t = MHeld)
   \<and> (\<forall>t k. mpcs s t = MGot k \<longrightarrow> m_count (mtx s) < 0)
   \<and> (\<forall>t k. mpcs s t = MFail k \<longrightarrow> m_count (mtx s) < 0 \<or> unlocking s)
   \<and> (m_wait (mtx s) \<noteq> [] \<longrightarrow> m_count (mtx s) < 0 \<or> unlocking s \<or> (\<exists>t. awake (mpcs s t)))"

lemma mutex_invD:
  assumes "mutex_inv s"
  shows "owns (mpcs s t) \<Longrightarrow> owns (mpcs s u) \<Longrightarrow> t = u" "m_count (mtx s) \<le> 1"
    "m_count (mtx s) = 1 \<longleftrightarrow> (\<forall>t. \<not> owns (mpcs s t))" "inside (mpcs s t) \<longleftrightarrow> wlock s = Some t"
    "distinct (m_wait (mtx s))" "t \<in> set (m_wait (mtx s)) \<longleftrightarrow> queued (mpcs s t)"
    "m_owner (mtx s) = Some t \<longleftrightarrow> mpcs s t = MHeld" "mpcs s t = MGot k \<Longrightarrow> m_count (mtx s) < 0"
    "mpcs s t = MFail k \<Longrightarrow> m_count (mtx s) < 0 \<or> unlocking s"
    "m_wait (mtx s) \<noteq> [] \<Longrightarrow> m_count (mtx s) < 0 \<or> unlocking s \<or> (\<exists>t. awake (mpcs s t))"
  using assms by (auto simp: mutex_inv_def)

lemma mutex_invI:
  assumes "\<And>t u. owns (mpcs s t) \<Longrightarrow> owns (mpcs s u) \<Longrightarrow> t = u" "m_count (mtx s) \<le> 1"
    "m_count (mtx s) = 1 \<longleftrightarrow> (\<forall>t. \<not> owns (mpcs s t))" "\<And>t. inside (mpcs s t) \<longleftrightarrow> wlock s = Some t"
    "distinct (m_wait (mtx s))" "\<And>t. t \<in> set (m_wait (mtx s)) \<longleftrightarrow> queued (mpcs s t)"
    "\<And>t. m_owner (mtx s) = Some t \<longleftrightarrow> mpcs s t = MHeld" "\<And>t k. mpcs s t = MGot k \<Longrightarrow> m_count (mtx s) < 0"
    "\<And>t k. mpcs s t = MFail k \<Longrightarrow> m_count (mtx s) < 0 \<or> unlocking s"
    "m_wait (mtx s) \<noteq> [] \<Longrightarrow> m_count (mtx s) < 0 \<or> unlocking s \<or> (\<exists>t. awake (mpcs s t))"
  shows "mutex_inv s"
  using assms unfolding mutex_inv_def by blast

text \<open>A free mutex has nobody on the way to release it, and nobody failed to take it a moment ago.\<close>

lemma free_mutex:
  assumes "mutex_inv s" "m_count (mtx s) = 1"
  shows "\<not> owns (mpcs s t)" "\<not> unlocking s" "mpcs s t \<noteq> MFail k" "m_owner (mtx s) = None"
    "m_wait (mtx s) \<noteq> [] \<Longrightarrow> \<exists>t. awake (mpcs s t)"
proof -
  note i = mutex_invD [OF assms(1)]
  show n: "\<not> owns (mpcs s t)" for t using i(3) assms(2) by blast
  show u: "\<not> unlocking s" using n by (auto simp: unlocking_def) (metis owns.simps(2))
  show "mpcs s t \<noteq> MFail k" using i(9) assms(2) u by fastforce
  show "m_owner (mtx s) = None"
  proof (rule ccontr)
    assume "m_owner (mtx s) \<noteq> None"
    then obtain v where "mpcs s v = MHeld" using i(7) by blast
    then show False using n [of v] by simp
  qed
  show "m_wait (mtx s) \<noteq> [] \<Longrightarrow> \<exists>t. awake (mpcs s t)" using i(10) u assms(2) by auto
qed

text \<open>A step of one task \<open>t\<close> from \<open>p\<close> to \<open>q\<close>: what has to hold for the invariant to stay.\<close>

lemma one_task_inv:
  fixes s s' t q
  defines "p \<equiv> mpcs s t" and "c \<equiv> m_count (mtx s)" and "c' \<equiv> m_count (mtx s')"
  assumes i: "mutex_inv s" and pcs: "mpcs s' = (mpcs s)(t := q)"
    and own: "owns q \<Longrightarrow> owns p \<or> c = 1" and cnt: "c' \<le> 1" "c' = 1 \<longleftrightarrow> \<not> owns q \<and> (owns p \<or> c = 1)"
    and wl: "inside q \<longleftrightarrow> wlock s' = Some t" "\<And>u. u \<noteq> t \<Longrightarrow> wlock s' = Some u \<longleftrightarrow> wlock s = Some u"
    and wait: "distinct (m_wait (mtx s'))" "\<And>u. u \<in> set (m_wait (mtx s')) \<longleftrightarrow> (if u = t then queued q else u \<in> set (m_wait (mtx s)))"
    and owner: "m_owner (mtx s') = Some t \<longleftrightarrow> q = MHeld" "\<And>u. u \<noteq> t \<Longrightarrow> m_owner (mtx s') = Some u \<longleftrightarrow> m_owner (mtx s) = Some u"
    and neg: "\<And>k. q = MGot k \<Longrightarrow> c' < 0" "\<not> owns p \<Longrightarrow> c < 0 \<Longrightarrow> wlock s \<noteq> Some t \<Longrightarrow> wlock s \<noteq> None \<Longrightarrow> c' < 0"
      "\<And>k. q = MFail k \<Longrightarrow> c' < 0" "p = MHeld \<Longrightarrow> c < 0 \<Longrightarrow> c' < 0 \<or> q = MUnlock" "p = MUnlock \<Longrightarrow> wlock s = None"
    and last: "m_wait (mtx s') \<noteq> [] \<Longrightarrow> c' < 0 \<or> q = MUnlock \<or> awake q \<or> p \<noteq> MUnlock \<and> unlocking s \<or> (\<exists>u. u \<noteq> t \<and> awake (mpcs s u))"
  shows "mutex_inv s'"
proof (rule mutex_invI)
  note d = mutex_invD [OF i]
  have other: "mpcs s' u = mpcs s u" if "u \<noteq> t" for u using that pcs by simp
  have self: "mpcs s' t = q" using pcs by simp
  have unl: "unlocking s'" if "q = MUnlock \<or> p \<noteq> MUnlock \<and> unlocking s"
    using that other self unfolding unlocking_def p_def by metis
  have excl: "\<not> owns (mpcs s u)" if "u \<noteq> t" "owns p \<or> c = 1" for u
    using that d(1) [of u t] d(3) unfolding p_def c_def by blast
  show "t1 = t2" if "owns (mpcs s' t1)" "owns (mpcs s' t2)" for t1 t2
    using that other self own excl d(1) by (metis (full_types))
  show "m_count (mtx s') \<le> 1" using cnt(1) by (simp add: c'_def)
  show "m_count (mtx s') = 1 \<longleftrightarrow> (\<forall>u. \<not> owns (mpcs s' u))"
    using cnt(2) excl other self d(3) unfolding c'_def c_def p_def by (metis (full_types))
  show "inside (mpcs s' u) \<longleftrightarrow> wlock s' = Some u" for u using wl d(4) [of u] other self by (cases "u = t") auto
  show "distinct (m_wait (mtx s'))" by (rule wait(1))
  show "u \<in> set (m_wait (mtx s')) \<longleftrightarrow> queued (mpcs s' u)" for u using wait(2) d(6) other self by (cases "u = t") auto
  show "m_owner (mtx s') = Some u \<longleftrightarrow> mpcs s' u = MHeld" for u using owner d(7) other self by (cases "u = t") auto
  have wl_other: "wlock s \<noteq> Some t \<and> wlock s \<noteq> None" if "inside (mpcs s u)" "u \<noteq> t" for u
    using d(4) [of u] that by simp
  show "m_count (mtx s') < 0" if g: "mpcs s' u = MGot k" for u k
  proof (cases "u = t")
    case True
    then show ?thesis using g self neg(1) by (simp add: c'_def)
  next
    case False
    then have u: "mpcs s u = MGot k" using g other by simp
    then have "\<not> owns p" using excl [OF False] by auto
    then show ?thesis using neg(2) d(8) [OF u] wl_other [of u] u False by (simp add: c_def c'_def)
  qed
  show "m_count (mtx s') < 0 \<or> unlocking s'" if g: "mpcs s' u = MFail k" for u k
  proof (cases "u = t")
    case True
    then show ?thesis using g self neg(3) by (simp add: c'_def)
  next
    case False
    then have u: "mpcs s u = MFail k" using g other by simp
    then have w: "wlock s \<noteq> Some t \<and> wlock s \<noteq> None" using wl_other [of u] False by simp
    then have np: "p \<noteq> MUnlock" "\<And>k. p \<noteq> MGot k" using neg(5) d(4) [of t] by (auto simp: p_def)
    from d(9) [OF u] show ?thesis
    proof
      assume "m_count (mtx s) < 0"
      then show ?thesis using neg(2,4) w np unl by (cases p) (auto simp: c_def c'_def)
    qed (use unl np in simp)
  qed
  show "m_count (mtx s') < 0 \<or> unlocking s' \<or> (\<exists>u. awake (mpcs s' u))" if "m_wait (mtx s') \<noteq> []"
    using last [OF that] unl other self unfolding c'_def by metis
qed

lemma wake_inv:
  assumes "mutex_inv s" shows "mutex_inv (s\<lparr>mpcs := (mpcs s)(u := wake (mpcs s u))\<rparr>)"
proof -
  have w: "owns (wake p) = owns p" "inside (wake p) = inside p" "queued (wake p) = queued p" "wake p = MHeld \<longleftrightarrow> p = MHeld"
    "wake p = MUnlock \<longleftrightarrow> p = MUnlock" "wake p = MGot k \<longleftrightarrow> p = MGot k" "wake p = MFail k \<longleftrightarrow> p = MFail k" "awake p \<Longrightarrow> awake (wake p)"
    for p k by (cases p; simp)+
  let ?s = "s\<lparr>mpcs := (mpcs s)(u := wake (mpcs s u))\<rparr>"
  have e: "owns (mpcs ?s v) = owns (mpcs s v)" "inside (mpcs ?s v) = inside (mpcs s v)" "queued (mpcs ?s v) = queued (mpcs s v)"
    "mpcs ?s v = MHeld \<longleftrightarrow> mpcs s v = MHeld" "mpcs ?s v = MGot k \<longleftrightarrow> mpcs s v = MGot k" "mpcs ?s v = MFail k \<longleftrightarrow> mpcs s v = MFail k"
    "awake (mpcs s v) \<Longrightarrow> awake (mpcs ?s v)" "mpcs ?s v = MUnlock \<longleftrightarrow> mpcs s v = MUnlock" for v k
    by (auto simp: w)
  have un: "unlocking ?s = unlocking s" unfolding unlocking_def e ..
  note d = mutex_invD [OF assms]
  show ?thesis
  proof (rule mutex_invI, unfold e un)
    show "m_wait (mtx ?s) \<noteq> [] \<Longrightarrow> m_count (mtx ?s) < 0 \<or> unlocking s \<or> (\<exists>t. awake (mpcs ?s t))"
      using d(10) e(7) by (simp del: fun_upd_apply) metis
  qed (use d in auto)
qed

text \<open>The steps. A task that takes the free mutex from outside of the list:\<close>

lemma acquire_inv:
  assumes i: "mutex_inv s" and c: "m_count (mtx s) = 1" and p: "mpcs s t = MOut \<or> (\<exists>k. mpcs s t = MSlow k)"
  shows "mutex_inv (s\<lparr>mtx := (mtx s)\<lparr>m_count := 0, m_owner := Some t\<rparr>, mpcs := (mpcs s)(t := MHeld)\<rparr>)" (is "mutex_inv ?s")
proof (rule one_task_inv [OF i, of ?s t MHeld])
  note d = mutex_invD [OF i] and f = free_mutex [OF i c]
  show "u \<in> set (m_wait (mtx ?s)) \<longleftrightarrow> (if u = t then queued MHeld else u \<in> set (m_wait (mtx s)))" for u
    using d(6) [of t] p by auto
  show "m_wait (mtx ?s) \<noteq> [] \<Longrightarrow> m_count (mtx ?s) < 0 \<or> MHeld = MUnlock \<or> awake MHeld \<or> mpcs s t \<noteq> MUnlock \<and> unlocking s
      \<or> (\<exists>u. u \<noteq> t \<and> awake (mpcs s u))" 
  proof -
    assume "m_wait (mtx ?s) \<noteq> []"
    then obtain u where "awake (mpcs s u)" using f(5) by auto
    moreover from this p have "u \<noteq> t" by auto
    ultimately show ?thesis by blast
  qed
  show "inside MHeld \<longleftrightarrow> wlock ?s = Some t" using d(4) [of t] p by auto
qed (use c p mutex_invD [OF i] free_mutex [OF i c] in auto)

lemma lock_fails_inv:
  assumes i: "mutex_inv s" and c: "m_count (mtx s) \<noteq> 1" and p: "mpcs s t = MOut"
  shows "mutex_inv (s\<lparr>mtx := (mtx s)\<lparr>m_count := m_count (mtx s) - 1\<rparr>, mpcs := (mpcs s)(t := MSlow k)\<rparr>)" (is "mutex_inv ?s")
proof (rule one_task_inv [OF i, of ?s t "MSlow k"])
  note d = mutex_invD [OF i]
  show "u \<in> set (m_wait (mtx ?s)) \<longleftrightarrow> (if u = t then queued (MSlow k) else u \<in> set (m_wait (mtx s)))" for u
    using d(6) [of t] p by auto
  show "inside (MSlow k) \<longleftrightarrow> wlock ?s = Some t" using d(4) [of t] p by auto
  show "m_wait (mtx ?s) \<noteq> [] \<Longrightarrow> m_count (mtx ?s) < 0 \<or> MSlow k = MUnlock \<or> awake (MSlow k) \<or> mpcs s t \<noteq> MUnlock \<and> unlocking s
      \<or> (\<exists>u. u \<noteq> t \<and> awake (mpcs s u))" using d(2) c by auto
qed (use c p mutex_invD [OF i] in auto)

lemma lock_add_inv:
  assumes i: "mutex_inv s" and p: "mpcs s t = MSlow k" and w: "wlock s = None"
  shows "mutex_inv (s\<lparr>mtx := lock_add (mtx s) t, mpcs := (mpcs s)(t := MAdd k), wlock := Some t\<rparr>)" (is "mutex_inv ?s")
proof (rule one_task_inv [OF i, of ?s t "MAdd k"])
  have "t \<notin> set (m_wait (mtx s))" using mutex_invD(6) [OF i] p by simp
  then show "distinct (m_wait (mtx ?s))" using mutex_invD(5) [OF i] by (simp add: lock_add_def)
qed (use p w mutex_invD [OF i] in \<open>auto simp: lock_add_def\<close>)

lemma lock_xchg_inv:
  assumes i: "mutex_inv s" and p: "mpcs s t = MAdd k \<or> mpcs s t = MTry k"
    and q: "q = (if m_count (mtx s) = 1 then MGot k else if again then MTry k else MFail k)"
  shows "mutex_inv (s\<lparr>mtx := (mtx s)\<lparr>m_count := - 1\<rparr>, mpcs := (mpcs s)(t := q)\<rparr>)" (is "mutex_inv ?s")
proof (rule one_task_inv [OF i, of ?s t q])
  note d = mutex_invD [OF i]
  have w: "wlock s = Some t" using d(4) [of t] p by auto
  show "u \<in> set (m_wait (mtx ?s)) \<longleftrightarrow> (if u = t then queued q else u \<in> set (m_wait (mtx s)))" for u
    using d(6) [of t] p q by auto
  show "inside q \<longleftrightarrow> wlock ?s = Some t" using w q by auto
  show "m_owner (mtx ?s) = Some t \<longleftrightarrow> q = MHeld" using d(7) [of t] p q by auto
qed (use p q mutex_invD [OF i] in \<open>auto split: if_splits\<close>)

lemma lock_signal_inv:
  assumes i: "mutex_inv s" and p: "mpcs s t = MFail k"
  shows "mutex_inv (s\<lparr>mtx := fst (lock_interrupted (mtx s) t), mpcs := (mpcs s)(t := MOut), wlock := None\<rparr>)" (is "mutex_inv ?s")
proof (rule one_task_inv [OF i, of ?s t MOut])
  note d = mutex_invD [OF i]
  show "m_wait (mtx ?s) \<noteq> [] \<Longrightarrow> m_count (mtx ?s) < 0 \<or> MOut = MUnlock \<or> awake MOut \<or> mpcs s t \<noteq> MUnlock \<and> unlocking s
      \<or> (\<exists>u. u \<noteq> t \<and> awake (mpcs s u))" using d(9) [OF p] p by (auto simp: lock_interrupted_def)
  show "wlock ?s = Some u \<longleftrightarrow> wlock s = Some u" if "u \<noteq> t" for u using d(4) [of t] that p by simp
qed (use p mutex_invD [OF i] in \<open>auto simp: lock_interrupted_def\<close>)

lemma lock_sleep_inv:
  assumes i: "mutex_inv s" and p: "mpcs s t = MFail k"
  shows "mutex_inv (s\<lparr>mpcs := (mpcs s)(t := MSleep k False), wlock := None\<rparr>)" (is "mutex_inv ?s")
proof (rule one_task_inv [OF i, of ?s t "MSleep k False"])
  note d = mutex_invD [OF i]
  show "m_wait (mtx ?s) \<noteq> [] \<Longrightarrow> m_count (mtx ?s) < 0 \<or> MSleep k False = MUnlock \<or> awake (MSleep k False) \<or> mpcs s t \<noteq> MUnlock \<and> unlocking s
      \<or> (\<exists>u. u \<noteq> t \<and> awake (mpcs s u))" using d(9) [OF p] p by auto
  show "wlock ?s = Some u \<longleftrightarrow> wlock s = Some u" if "u \<noteq> t" for u using d(4) [of t] that p by simp
qed (use p mutex_invD [OF i] in auto)

lemma lock_wakes_inv:
  assumes i: "mutex_inv s" and p: "mpcs s t = MSleep k b" and w: "wlock s = None"
  shows "mutex_inv (s\<lparr>mpcs := (mpcs s)(t := MTry k), wlock := Some t\<rparr>)" (is "mutex_inv ?s")
  by (rule one_task_inv [OF i, of ?s t "MTry k"]) (use p w mutex_invD [OF i] in auto)

lemma lock_done_inv:
  assumes i: "mutex_inv s" and p: "mpcs s t = MGot k"
  shows "mutex_inv (s\<lparr>mtx := lock_done (mtx s) t, mpcs := (mpcs s)(t := MHeld), wlock := None\<rparr>)" (is "mutex_inv ?s")
proof (rule one_task_inv [OF i, of ?s t MHeld])
  note d = mutex_invD [OF i]
  have w: "wlock s = Some t" using d(4) [of t] p by simp
  have l: "m_wait (mtx ?s) = remove1 t (m_wait (mtx s))" by (simp add: lock_done_def Let_def)
  show "u \<in> set (m_wait (mtx ?s)) \<longleftrightarrow> (if u = t then queued MHeld else u \<in> set (m_wait (mtx s)))" for u
    unfolding l using d(5) by simp
  have c: "m_count (mtx s) < 0" using d(8) [OF p] .
  show "m_count (mtx ?s) = 1 \<longleftrightarrow> \<not> owns MHeld \<and> (owns (mpcs s t) \<or> m_count (mtx s) = 1)" using c by (simp add: lock_done_def Let_def)
  show "m_wait (mtx ?s) \<noteq> [] \<Longrightarrow> m_count (mtx ?s) < 0 \<or> MHeld = MUnlock \<or> awake MHeld \<or> mpcs s t \<noteq> MUnlock \<and> unlocking s
      \<or> (\<exists>u. u \<noteq> t \<and> awake (mpcs s u))" using c by (auto simp: lock_done_def Let_def split: if_splits)
  show "wlock ?s = Some u \<longleftrightarrow> wlock s = Some u" if "u \<noteq> t" for u using w that by simp
  have "m_owner (mtx s) \<noteq> Some u" for u using d(1) [of t u] d(7) p by auto
  then show "m_owner (mtx ?s) = Some u \<longleftrightarrow> m_owner (mtx s) = Some u" if "u \<noteq> t" for u using that by (auto simp: lock_done_def Let_def)
qed (use p mutex_invD(2,5) [OF i] in \<open>auto simp: lock_done_def Let_def\<close>)

lemma unlock_inv:
  assumes i: "mutex_inv s" and p: "mpcs s t = MHeld" and u: "mutex_fastpath_unlock (mtx s) = (m, slow)"
  shows "mutex_inv (s\<lparr>mtx := m, mpcs := (mpcs s)(t := if slow then MUnlock else MOut)\<rparr>)" (is "mutex_inv ?s")
proof (rule one_task_inv [OF i, of ?s t "if slow then MUnlock else MOut"])
  note d = mutex_invD [OF i]
  have m: "m = (mtx s)\<lparr>m_owner := None, m_count := m_count (mtx s) + 1\<rparr>" "slow \<longleftrightarrow> \<not> 0 < m_count (mtx s) + 1"
    using u by (auto simp: mutex_fastpath_unlock_def Let_def)
  have c: "m_count (mtx s) \<le> 0" using d(2,3) p by (metis int_one_le_iff_zero_less linorder_not_le order_antisym owns.simps(1))
  show "m_count (mtx ?s) \<le> 1" using m c by simp
  show "m_count (mtx ?s) = 1 \<longleftrightarrow> \<not> owns (if slow then MUnlock else MOut) \<and> (owns (mpcs s t) \<or> m_count (mtx s) = 1)" using m c p by auto
  show "u \<in> set (m_wait (mtx ?s)) \<longleftrightarrow> (if u = t then queued (if slow then MUnlock else MOut) else u \<in> set (m_wait (mtx s)))" for u
    using d(6) [of t] p m by auto
  show "inside (if slow then MUnlock else MOut) \<longleftrightarrow> wlock ?s = Some t" using d(4) [of t] p by auto
  show "distinct (m_wait (mtx ?s))" using d(5) m by simp
  show "m_owner (mtx ?s) = Some u \<longleftrightarrow> m_owner (mtx s) = Some u" if "u \<noteq> t" for u using that d(1) [of t u] d(7) p m by auto
  show "m_wait (mtx ?s) \<noteq> [] \<Longrightarrow> m_count (mtx ?s) < 0 \<or> (if slow then MUnlock else MOut) = MUnlock \<or> awake (if slow then MUnlock else MOut)
     \<or> mpcs s t \<noteq> MUnlock \<and> unlocking s \<or> (\<exists>u. u \<noteq> t \<and> awake (mpcs s u))"
    using d(10) m p by (cases slow) (auto, metis awake.simps)
qed (use p u in \<open>auto simp: mutex_fastpath_unlock_def Let_def split: if_splits\<close>)

lemma unlock_slow_inv:
  assumes i: "mutex_inv s" and p: "mpcs s t = MUnlock" and w: "wlock s = None"
    and u: "mutex_unlock_slowpath (mtx s) = (m, h)"
  shows "mutex_inv (s\<lparr>mtx := m, mpcs := wake_task h ((mpcs s)(t := MOut))\<rparr>)"
proof -
  define s1 where "s1 = s\<lparr>mpcs := wake_task h (mpcs s)\<rparr>"
  have m: "m = (mtx s)\<lparr>m_count := 1\<rparr>" "h = (case m_wait (mtx s) of [] \<Rightarrow> None | t # _ \<Rightarrow> Some t)"
    using u by (auto simp: mutex_unlock_slowpath_def)
  have i1: "mutex_inv s1" using i wake_inv [OF i] by (cases h) (simp_all add: s1_def wake_task_def)
  note d = mutex_invD [OF i] and d1 = mutex_invD [OF i1]
  have ht: "h \<noteq> Some t" using d(6) [of t] p m(2) by (auto split: list.splits)
  have p1: "mpcs s1 t = MUnlock" using p ht by (auto simp: s1_def wake_task_def split: option.splits)
  have hw: "\<exists>u. u \<noteq> t \<and> awake (mpcs s1 u)" if ne: "m_wait (mtx s) \<noteq> []"
  proof -
    obtain x xs where x: "m_wait (mtx s) = x # xs" using ne by (metis list.exhaust)
    then have "queued (mpcs s x)" using d(6) [of x] by simp
    moreover have "\<not> inside (mpcs s x)" using d(4) [of x] w by simp
    ultimately obtain k b where "mpcs s x = MSleep k b" by (cases "mpcs s x") auto
    then have "awake (mpcs s1 x)" using m(2) x by (simp add: s1_def wake_task_def)
    then show ?thesis using p1 by (intro exI [of _ x]) auto
  qed
  have "s\<lparr>mtx := m, mpcs := wake_task h ((mpcs s)(t := MOut))\<rparr> = s1\<lparr>mtx := m, mpcs := (mpcs s1)(t := MOut)\<rparr>"
    using ht by (auto simp: s1_def wake_task_def fun_upd_twist split: option.splits)
  moreover have "mutex_inv (s1\<lparr>mtx := m, mpcs := (mpcs s1)(t := MOut)\<rparr>)" (is "mutex_inv ?s")
  proof (rule one_task_inv [OF i1, of ?s t MOut])
    show "u \<in> set (m_wait (mtx ?s)) \<longleftrightarrow> (if u = t then queued MOut else u \<in> set (m_wait (mtx s1)))" for u
      using d(6) [of t] p m by (auto simp: s1_def)
    show "m_wait (mtx ?s) \<noteq> [] \<Longrightarrow> m_count (mtx ?s) < 0 \<or> MOut = MUnlock \<or> awake MOut \<or> mpcs s1 t \<noteq> MUnlock \<and> unlocking s1
      \<or> (\<exists>u. u \<noteq> t \<and> awake (mpcs s1 u))" using hw m by simp
  qed (use p1 w m d(5) d1 in \<open>auto simp: s1_def\<close>)
  ultimately show ?thesis by simp
qed

lemma mutex_step_inv: "mutex_step s s' \<Longrightarrow> mutex_inv s \<Longrightarrow> mutex_inv s'"
proof (induction rule: mutex_step.induct)
  case (mx_lock s t m ok k)
  then have c: "m_count (mtx s) \<le> 1" using mutex_invD(2) by blast
  show ?case
  proof (cases "m_count (mtx s) = 1")
    case True
    then have "m = (mtx s)\<lparr>m_count := 0, m_owner := Some t\<rparr>" "ok" using mx_lock(2) by (auto simp: mutex_fastpath_lock_def Let_def)
    then show ?thesis using acquire_inv [OF mx_lock(3) True] mx_lock(1) by simp
  next
    case False
    then have "m = (mtx s)\<lparr>m_count := m_count (mtx s) - 1\<rparr>" "\<not> ok" using mx_lock(2) c by (auto simp: mutex_fastpath_lock_def Let_def split: if_splits)
    then show ?thesis using lock_fails_inv [OF mx_lock(3) False mx_lock(1)] by simp
  qed
next
  case (mx_trylock s t m ok)
  then show ?case using acquire_inv [of s t] by (auto simp: mutex_trylock_def fun_upd_idem split: if_splits)
next
  case (mx_spin s t k m ok)
  then show ?case using acquire_inv [of s t] by (auto simp: lock_spin_def fun_upd_idem split: if_splits)
next
  case (mx_first s t k m ok)
  then show ?case using lock_xchg_inv [of s t k "if ok then MGot k else MTry k" True] by (auto simp: lock_xchg_def)
next
  case (mx_again s t k m ok)
  then show ?case using lock_xchg_inv [of s t k "if ok then MGot k else MFail k" False] by (auto simp: lock_xchg_def)
qed (simp_all add: lock_add_inv lock_signal_inv lock_sleep_inv lock_wakes_inv lock_done_inv unlock_inv unlock_slow_inv)

lemma mutex_reach_inv: "mutex_reach s \<Longrightarrow> mutex_inv s"
proof (induction rule: mutex_reach.induct)
  case mx_start
  show ?case by (simp add: mutex_inv_def mutex_init_def unlocking_def)
qed (rule mutex_step_inv)



end
