(* ===== verification/Completion.thy ===== *)
theory Completion
  imports Mutex Wait_Queue
begin

text \<open>
  Completions: include/linux/completion.h and the functions of kernel/sched.c. Each critical section of
  \<^verbatim>\<open>x->wait.lock\<close> is one step, and a wait is split where it calls the scheduler. The wait queue is the list of its tasks, all
  entered as exclusive waiters at the tail, with what the scheduler sees of each task. That \<^verbatim>\<open>__wake_up_common\<close> of \<^theory_text>\<open>Wait_Queue\<close> acts on
  such a queue as the two list functions here is \<open>wake_one_refines\<close> and \<open>wake_all_refines\<close>.
\<close>

section \<open>The operations\<close>

text \<open>A task runs, or has set its sleeping state and is still on the run queue, or is off the run queue.\<close>

datatype wait_state = Running | Preparing | Off_rq

record completion =
  c_done :: u32
  c_wait :: "nat list"
  c_state :: "nat \<Rightarrow> wait_state"

definition init_completion :: completion where
  "init_completion = \<lparr>c_done = 0, c_wait = [], c_state = (\<lambda>_. Running)\<rparr>"

definition INIT_COMPLETION :: "completion \<Rightarrow> completion" where
  "INIT_COMPLETION x = x\<lparr>c_done := 0\<rparr>"

text \<open>A task that is still on the run queue is set running, but does not count as woken.\<close>

fun wake_first :: "nat list \<Rightarrow> (nat \<Rightarrow> wait_state) \<Rightarrow> nat \<Rightarrow> wait_state" where
  "wake_first [] z = z"
| "wake_first (t # ts) z =
     (case z t of Running \<Rightarrow> wake_first ts z | Preparing \<Rightarrow> wake_first ts (z(t := Running)) | Off_rq \<Rightarrow> z(t := Running))"

definition wake_every :: "nat list \<Rightarrow> (nat \<Rightarrow> wait_state) \<Rightarrow> nat \<Rightarrow> wait_state" where
  "wake_every ts z = (\<lambda>t. if t \<in> set ts then Running else z t)"

definition complete :: "completion \<Rightarrow> completion" where
  "complete x = (let x1 = x\<lparr>c_done := c_done x + 1\<rparr> in x1\<lparr>c_state := wake_first (c_wait x1) (c_state x1)\<rparr>)"

definition complete_all :: "completion \<Rightarrow> completion" where
  "complete_all x =
     (let x1 = x\<lparr>c_done := c_done x + 2147483647\<rparr> in x1\<lparr>c_state := wake_every (c_wait x1) (c_state x1)\<rparr>)"

text \<open>The end of \<^verbatim>\<open>do_wait_for_common\<close>, the top of its loop, and its two entries: the call and the return of the
  scheduler. The result \<^term>\<open>None\<close> means that the task sleeps.\<close>

definition wait_take :: "completion \<Rightarrow> int \<Rightarrow> completion \<times> int" where
  "wait_take x timeout = (x\<lparr>c_done := c_done x - 1\<rparr>, if timeout = 0 then 1 else timeout)"

definition wait_leave :: "completion \<Rightarrow> nat \<Rightarrow> int \<Rightarrow> completion \<times> int" where
  "wait_leave x t timeout =
     (let x1 = x\<lparr>c_wait := remove1 t (c_wait x)\<rparr>
      in if c_done x1 = 0 then (x1, timeout) else wait_take x1 timeout)"

definition wait_loop :: "completion \<Rightarrow> nat \<Rightarrow> lock_kind \<Rightarrow> signals \<Rightarrow> int \<Rightarrow> completion \<times> int option" where
  "wait_loop x t k sig timeout =
     (if lock_signal k sig then map_prod id Some (wait_leave x t (- ERESTARTSYS))
      else (x\<lparr>c_state := (c_state x)(t := Preparing)\<rparr>, None))"

definition wait_for_common :: "completion \<Rightarrow> nat \<Rightarrow> lock_kind \<Rightarrow> signals \<Rightarrow> int \<Rightarrow> completion \<times> int option" where
  "wait_for_common x t k sig timeout =
     (if c_done x = 0 then wait_loop (x\<lparr>c_wait := c_wait x @ [t]\<rparr>) t k sig timeout
      else map_prod id Some (wait_take x timeout))"

definition wait_resume :: "completion \<Rightarrow> nat \<Rightarrow> lock_kind \<Rightarrow> signals \<Rightarrow> int \<Rightarrow> completion \<times> int option" where
  "wait_resume x t k sig timeout =
     (if c_done x = 0 \<and> timeout \<noteq> 0 then wait_loop x t k sig timeout else map_prod id Some (wait_leave x t timeout))"

definition wait_for_completion :: "completion \<Rightarrow> nat \<Rightarrow> signals \<Rightarrow> completion \<times> int option" where
  "wait_for_completion x t sig = wait_for_common x t Uninterruptible sig MAX_SCHEDULE_TIMEOUT"

definition wait_for_completion_timeout :: "completion \<Rightarrow> nat \<Rightarrow> signals \<Rightarrow> u64 \<Rightarrow> completion \<times> u64 option" where
  "wait_for_completion_timeout x t sig timeout =
     map_prod id (map_option of_int) (wait_for_common x t Uninterruptible sig (sint timeout))"

text \<open>What the interruptible and the killable variant make of the result of \<^verbatim>\<open>wait_for_common\<close>, whenever it comes.\<close>

definition restart_or_0 :: "int \<Rightarrow> int" where
  "restart_or_0 r = (if r = - ERESTARTSYS then r else 0)"

definition wait_for_completion_interruptible :: "completion \<Rightarrow> nat \<Rightarrow> signals \<Rightarrow> completion \<times> int option" where
  "wait_for_completion_interruptible x t sig =
     map_prod id (map_option restart_or_0) (wait_for_common x t InterruptibleLock sig MAX_SCHEDULE_TIMEOUT)"

definition wait_for_completion_interruptible_timeout :: "completion \<Rightarrow> nat \<Rightarrow> signals \<Rightarrow> u64 \<Rightarrow> completion \<times> u64 option" where
  "wait_for_completion_interruptible_timeout x t sig timeout =
     map_prod id (map_option of_int) (wait_for_common x t InterruptibleLock sig (sint timeout))"

definition wait_for_completion_killable :: "completion \<Rightarrow> nat \<Rightarrow> signals \<Rightarrow> completion \<times> int option" where
  "wait_for_completion_killable x t sig =
     map_prod id (map_option restart_or_0) (wait_for_common x t KillableLock sig MAX_SCHEDULE_TIMEOUT)"

definition try_wait_for_completion :: "completion \<Rightarrow> completion \<times> bool" where
  "try_wait_for_completion x = (if c_done x = 0 then (x, False) else (x\<lparr>c_done := c_done x - 1\<rparr>, True))"

definition completion_done :: "completion \<Rightarrow> bool" where
  "completion_done x \<longleftrightarrow> c_done x \<noteq> 0"

section \<open>Tasks that use a completion\<close>

text \<open>\<open>inside\<close> holds the tasks inside of a wait with their kind and the ticks they have left; \<open>posted\<close> counts what the
  completing calls have added, less what a reinitialisation threw away, \<open>taken\<close> what the waits have taken. A task that sleeps
  may be woken by others at any time (a signal, its timer), and goes on only once it is awake.\<close>

record comp_sys =
  cx :: completion
  cin :: "nat \<rightharpoonup> lock_kind \<times> int"
  posted :: nat
  taken :: nat

text \<open>The result of \<^verbatim>\<open>schedule_timeout\<close>.\<close>

definition sched_left :: "int \<Rightarrow> int \<Rightarrow> bool" where
  "sched_left timeout left \<longleftrightarrow> (if timeout = MAX_SCHEDULE_TIMEOUT then left = timeout else 0 \<le> left \<and> left \<le> timeout)"

inductive comp_step :: "comp_sys \<Rightarrow> comp_sys \<Rightarrow> bool" where
  cp_wait: "cin s t = None \<Longrightarrow> 0 \<le> timeout \<Longrightarrow> wait_for_common (cx s) t k sig timeout = (x, Some r) \<Longrightarrow>
    comp_step s (s\<lparr>cx := x, taken := taken s + (if 0 < r then 1 else 0)\<rparr>)"
| cp_sleep: "cin s t = None \<Longrightarrow> 0 \<le> timeout \<Longrightarrow> wait_for_common (cx s) t k sig timeout = (x, None) \<Longrightarrow>
    comp_step s (s\<lparr>cx := x, cin := (cin s)(t \<mapsto> (k, timeout))\<rparr>)"
| cp_return: "cin s t = Some (k, timeout) \<Longrightarrow> c_state (cx s) t = Running \<Longrightarrow> sched_left timeout left \<Longrightarrow>
    wait_resume (cx s) t k sig left = (x, Some r) \<Longrightarrow>
    comp_step s (s\<lparr>cx := x, cin := (cin s)(t := None), taken := taken s + (if 0 < r then 1 else 0)\<rparr>)"
| cp_again: "cin s t = Some (k, timeout) \<Longrightarrow> c_state (cx s) t = Running \<Longrightarrow> sched_left timeout left \<Longrightarrow>
    wait_resume (cx s) t k sig left = (x, None) \<Longrightarrow>
    comp_step s (s\<lparr>cx := x, cin := (cin s)(t \<mapsto> (k, left))\<rparr>)"
| cp_schedule: "c_state (cx s) t = Preparing \<Longrightarrow>
    comp_step s (s\<lparr>cx := (cx s)\<lparr>c_state := (c_state (cx s))(t := Off_rq)\<rparr>\<rparr>)"
| cp_wakes: "comp_step s (s\<lparr>cx := (cx s)\<lparr>c_state := (c_state (cx s))(t := Running)\<rparr>\<rparr>)"
| cp_try: "try_wait_for_completion (cx s) = (x, r) \<Longrightarrow>
    comp_step s (s\<lparr>cx := x, taken := taken s + (if r then 1 else 0)\<rparr>)"
| cp_complete: "unat (c_done (cx s)) + 1 < 4294967296 \<Longrightarrow> comp_step s (s\<lparr>cx := complete (cx s), posted := posted s + 1\<rparr>)"
| cp_complete_all: "unat (c_done (cx s)) + 2147483647 < 4294967296 \<Longrightarrow>
    comp_step s (s\<lparr>cx := complete_all (cx s), posted := posted s + 2147483647\<rparr>)"
| cp_init: "comp_step s (s\<lparr>cx := INIT_COMPLETION (cx s), posted := taken s\<rparr>)"

inductive comp_reach :: "comp_sys \<Rightarrow> bool" where
  cp_start: "comp_reach \<lparr>cx = init_completion, cin = Map.empty, posted = 0, taken = 0\<rparr>"
| cp_next: "comp_reach s \<Longrightarrow> comp_step s s' \<Longrightarrow> comp_reach s'"

text \<open>The queued tasks that are awake.\<close>

definition awake_in :: "completion \<Rightarrow> nat set" where
  "awake_in x = {t \<in> set (c_wait x). c_state x t = Running}"

definition comp_inv :: "comp_sys \<Rightarrow> bool" where
  "comp_inv s \<longleftrightarrow> distinct (c_wait (cx s)) \<and> set (c_wait (cx s)) = dom (cin s)
     \<and> (\<forall>t. c_state (cx s) t \<noteq> Running \<longrightarrow> t \<in> set (c_wait (cx s)))
     \<and> (\<forall>t k timeout. cin s t = Some (k, timeout) \<longrightarrow> 0 \<le> timeout)
     \<and> unat (c_done (cx s)) + taken s = posted s
     \<and> min (unat (c_done (cx s))) (length (c_wait (cx s))) \<le> card (awake_in (cx s))"

section \<open>Waking\<close>

lemma wake_first_eq: "t \<notin> set ts \<Longrightarrow> wake_first ts z t = z t"
  by (induction ts z rule: wake_first.induct) (auto split: wait_state.splits)

lemma wake_first_Running: "z t = Running \<Longrightarrow> wake_first ts z t = Running"
  by (induction ts z rule: wake_first.induct) (auto split: wait_state.splits)

lemma wake_first_wakes:
  assumes "t \<in> set ts" "z t \<noteq> Running"
  shows "\<exists>u \<in> set ts. z u \<noteq> Running \<and> wake_first ts z u = Running"
  using assms
proof (induction ts arbitrary: t z)
  case (Cons a ts)
  then show ?case
    by (cases "z a") (auto simp: wake_first_Running)
qed simp

text \<open>Tasks are woken in the order in which they were queued: all that precede a woken task run.\<close>

lemma wake_first_order:
  assumes "wake_first (pre @ t # ts) z t = Running" "z t \<noteq> Running" "t \<notin> set pre" "u \<in> set pre"
  shows "wake_first (pre @ t # ts) z u = Running"
  using assms
proof (induction pre arbitrary: z)
  case (Cons a pre)
  show ?case
  proof (cases "z a")
    case Preparing
    then show ?thesis using Cons.prems Cons.IH [of "z(a := Running)"]
      by (cases "u = a") (simp_all add: wake_first_Running fun_upd_same fun_upd_other del: fun_upd_apply)
  qed (use Cons in \<open>auto simp: wake_first_Running\<close>)
qed simp

text \<open>The two calls of \<^verbatim>\<open>__wake_up_common\<close>, on a queue of exclusive entries of the default wake function: \<open>p\<close> gives
  the task of each entry, and the state of a task is read from its \<^verbatim>\<open>task_struct\<close>.\<close>

definition comp_entry :: "(addr \<rightharpoonup> wait_queue) \<Rightarrow> (addr \<Rightarrow> addr) \<Rightarrow> addr \<Rightarrow> bool" where
  "comp_entry es p w \<longleftrightarrow> (\<exists>e. es w = Some e \<and> wq_private e = Some (p w) \<and> wq_func e = Default_wake
     \<and> wq_flags e AND WQ_FLAG_EXCLUSIVE \<noteq> 0)"

definition state_in :: "(addr \<rightharpoonup> task) \<Rightarrow> u32 \<Rightarrow> addr \<Rightarrow> wait_state" where
  "state_in ts mode t =
     (if t_state (the (ts t)) AND mode = 0 then Running else if t_on_rq (the (ts t)) then Preparing else Off_rq)"

lemma state_in_ttwu: "state_in (ttwu_tasks ts p mode) mode = (state_in ts mode)(p := Running)"
  by (auto simp: state_in_def ttwu_tasks_def TASK_RUNNING_def fun_eq_iff)

lemma ttwu_wakes_state: "ttwu_wakes ts p mode \<longleftrightarrow> state_in ts mode p = Off_rq"
  by (simp add: ttwu_wakes_def state_in_def)

lemma wake_seq_comp:
  assumes "comp_entry es p w"
  shows "wake_seq es mode (w # ws) nr ts =
    (if state_in ts mode (p w) = Off_rq
     then if cint (nr - 1) = 0 then (ttwu_tasks ts (p w) mode, w # ws)
          else map_prod id (Cons w) (wake_seq es mode ws (cint (nr - 1)) (ttwu_tasks ts (p w) mode))
     else map_prod id (Cons w) (wake_seq es mode ws nr (ttwu_tasks ts (p w) mode)))"
  proof -
  have "(@) [w] = Cons w" by (simp add: fun_eq_iff)
  then show ?thesis using assms by (auto simp: comp_entry_def ttwu_wakes_state Let_def)
qed

lemma wake_one_refines:
  assumes "\<And>w. w \<in> set ws \<Longrightarrow> comp_entry es p w"
  shows "snd (wake_seq es mode ws 1 ts) = ws"
    and "state_in (fst (wake_seq es mode ws 1 ts)) mode = wake_first (map p ws) (state_in ts mode)"
proof -
  have "snd (wake_seq es mode ws 1 ts) = ws
    \<and> state_in (fst (wake_seq es mode ws 1 ts)) mode = wake_first (map p ws) (state_in ts mode)"
    using assms
  proof (induction ws arbitrary: ts)
    case (Cons w ws)
    have "state_in ts mode (p w) = Running \<Longrightarrow> (state_in ts mode)(p w := Running) = state_in ts mode" by auto
    then show ?case using Cons.IH [of "ttwu_tasks ts (p w) mode"] Cons.prems
      by (cases "state_in ts mode (p w)") (simp_all add: wake_seq_comp [OF Cons.prems [of w]] state_in_ttwu del: wake_seq.simps(2) fun_upd_apply)
  qed simp
  then show "snd (wake_seq es mode ws 1 ts) = ws"
    and "state_in (fst (wake_seq es mode ws 1 ts)) mode = wake_first (map p ws) (state_in ts mode)" by auto
qed

lemma wake_all_refines:
  assumes "\<And>w. w \<in> set ws \<Longrightarrow> comp_entry es p w" "nr \<le> 0" "int (length ws) \<le> nr + 2147483648"
  shows "snd (wake_seq es mode ws nr ts) = ws
    \<and> state_in (fst (wake_seq es mode ws nr ts)) mode = wake_every (map p ws) (state_in ts mode)"
  using assms
proof (induction ws arbitrary: ts nr)
  case (Cons w ws)
  have c: "cint (nr - 1) = nr - 1" using Cons.prems(2,3) by (simp add: in_cint_def INT_MIN_def INT_MAX_def)
  have "wake_every (map p ws) ((state_in ts mode)(p w := Running)) = wake_every (map p (w # ws)) (state_in ts mode)"
    by (auto simp: wake_every_def fun_eq_iff)
  then show ?case
    using Cons.IH [of nr "ttwu_tasks ts (p w) mode"] Cons.IH [of "nr - 1" "ttwu_tasks ts (p w) mode"] Cons.prems c
    by (simp add: wake_seq_comp [OF Cons.prems(1) [of w]] state_in_ttwu del: wake_seq.simps(2) fun_upd_apply)
qed (simp add: wake_every_def)

section \<open>The invariant\<close>

lemma finite_awake [simp]: "finite (awake_in x)"
  by (simp add: awake_in_def)

lemma awake_all: "distinct (c_wait x) \<Longrightarrow> (\<And>t. t \<in> set (c_wait x) \<Longrightarrow> c_state x t = Running) \<Longrightarrow>
    card (awake_in x) = length (c_wait x)"
  by (simp add: awake_in_def distinct_card [symmetric]) (rule arg_cong [where f = card], blast)

lemma unat_dec: "c \<noteq> 0 \<Longrightarrow> Suc (unat (c - 1)) = unat (c :: u32)"
  by (metis Suc_pred' unat_gt_0 unat_minus_one)

lemma comp_inv_start: "comp_inv \<lparr>cx = init_completion, cin = Map.empty, posted = 0, taken = 0\<rparr>"
  by (simp add: comp_inv_def init_completion_def)

lemma returns_iff [simp]: "map_prod id Some p = (x, Some r) \<longleftrightarrow> p = (x, r)" "map_prod id Some p \<noteq> (x, None)"
  by (cases p; simp)+

text \<open>What a wait leaves behind when it returns and when it goes to sleep.\<close>

lemma take_inv:
  assumes "comp_inv s" "c_done (cx s) \<noteq> 0"
  shows "comp_inv (s\<lparr>cx := (cx s)\<lparr>c_done := c_done (cx s) - 1\<rparr>, taken := taken s + 1\<rparr>)"
  using assms unat_dec [OF assms(2)] by (auto simp: comp_inv_def awake_in_def)

lemma leave_inv:
  assumes "comp_inv s" "cin s t \<noteq> None" "c_state (cx s) t = Running"
    and "wait_leave (cx s) t timeout = (x, r)" "c_done (cx s) \<noteq> 0 \<longrightarrow> 0 \<le> timeout" "c_done (cx s) = 0 \<longrightarrow> timeout \<le> 0"
  shows "comp_inv (s\<lparr>cx := x, cin := (cin s)(t := None), taken := taken s + (if 0 < r then 1 else 0)\<rparr>)"
proof -
  have t: "t \<in> set (c_wait (cx s))" "distinct (c_wait (cx s))" using assms(1,2) by (auto simp: comp_inv_def)
  have aw: "awake_in ((cx s)\<lparr>c_wait := remove1 t (c_wait (cx s)), c_done := d\<rparr>) = awake_in (cx s) - {t}" for d
    using t by (auto simp: awake_in_def)
  have "t \<in> awake_in (cx s)" using t assms(3) by (simp add: awake_in_def)
  then have "Suc (card (awake_in (cx s) - {t})) = card (awake_in (cx s))"
    by (intro card_Suc_Diff1) simp_all
  moreover have "Suc (length (remove1 t (c_wait (cx s)))) = length (c_wait (cx s))"
    using t by (simp add: length_remove1) (metis One_nat_def Suc_pred length_pos_if_in_set)
  ultimately show ?thesis
    using assms t aw [of "c_done (cx s)"] aw [of "c_done (cx s) - 1"] unat_dec [of "c_done (cx s)"]
    by (cases "c_done (cx s) = 0") (auto simp: comp_inv_def wait_leave_def wait_take_def Let_def split: if_splits)
qed

lemma sleep_inv:
  assumes "comp_inv s" "c_done (cx s) = 0" "0 \<le> timeout" "c_wait x = (if cin s t = None then c_wait (cx s) @ [t] else c_wait (cx s))"
    and "c_done x = 0" "c_state x = (c_state (cx s))(t := Preparing)"
  shows "comp_inv (s\<lparr>cx := x, cin := (cin s)(t \<mapsto> (k, timeout))\<rparr>)"
  using assms by (auto simp: comp_inv_def split: if_splits)

lemma wait_inv:
  assumes inv: "comp_inv s" and out: "cin s t = None" "0 \<le> timeout"
    and w: "wait_for_common (cx s) t k sig timeout = (x, Some r)"
  shows "comp_inv (s\<lparr>cx := x, taken := taken s + (if 0 < r then 1 else 0)\<rparr>)"
proof (cases "c_done (cx s) = 0")
  case True
  have "t \<notin> set (c_wait (cx s))" using inv out by (auto simp: comp_inv_def)
  then have "x = cx s" "r = - ERESTARTSYS"
    using w True by (auto simp: wait_for_common_def wait_loop_def wait_leave_def remove1_append split: if_splits)
  then show ?thesis using inv by (simp add: ERESTARTSYS_def)
next
  case False
  then have "x = (cx s)\<lparr>c_done := c_done (cx s) - 1\<rparr>" "0 < r"
    using w out(2) by (auto simp: wait_for_common_def wait_take_def split: if_splits)
  then show ?thesis using take_inv [OF inv False] by simp
qed

lemma wait_sleeps_inv:
  assumes "comp_inv s" "cin s t = None" "0 \<le> timeout" "wait_for_common (cx s) t k sig timeout = (x, None)"
  shows "comp_inv (s\<lparr>cx := x, cin := (cin s)(t \<mapsto> (k, timeout))\<rparr>)"
  by (rule sleep_inv [OF assms(1)]) (use assms in \<open>auto simp: wait_for_common_def wait_loop_def split: if_splits\<close>)

lemma sched_left_nonneg: "sched_left timeout left \<Longrightarrow> 0 \<le> timeout \<Longrightarrow> 0 \<le> left"
  by (simp add: sched_left_def split: if_splits)

lemma return_inv:
  assumes inv: "comp_inv s" and t: "cin s t = Some (k, timeout)" "c_state (cx s) t = Running" "sched_left timeout left"
    and w: "wait_resume (cx s) t k sig left = (x, Some r)"
  shows "comp_inv (s\<lparr>cx := x, cin := (cin s)(t := None), taken := taken s + (if 0 < r then 1 else 0)\<rparr>)"
proof -
  have left: "0 \<le> left" using inv t by (auto simp: comp_inv_def intro: sched_left_nonneg)
  obtain v where v: "wait_leave (cx s) t v = (x, r)" "c_done (cx s) \<noteq> 0 \<longrightarrow> 0 \<le> v" "c_done (cx s) = 0 \<longrightarrow> v \<le> 0"
  proof (cases "c_done (cx s) = 0 \<and> left \<noteq> 0")
    case True
    then have "wait_leave (cx s) t (- ERESTARTSYS) = (x, r)"
      using w by (auto simp: wait_resume_def wait_loop_def split: if_splits)
    then show ?thesis using True by (intro that [of "- ERESTARTSYS"]) (simp_all add: ERESTARTSYS_def)
  next
    case False
    then show ?thesis using w left by (intro that [of left]) (auto simp: wait_resume_def split: if_splits)
  qed
  show ?thesis using leave_inv [OF inv _ t(2) v] t(1) by simp
qed

lemma again_inv:
  assumes "comp_inv s" "cin s t = Some (k, timeout)" "sched_left timeout left" "wait_resume (cx s) t k sig left = (x, None)"
  shows "comp_inv (s\<lparr>cx := x, cin := (cin s)(t \<mapsto> (k, left))\<rparr>)"
proof (rule sleep_inv [OF assms(1)])
  show "0 \<le> left" using assms(1-3) by (auto simp: comp_inv_def intro: sched_left_nonneg)
qed (use assms in \<open>auto simp: wait_resume_def wait_loop_def split: if_splits\<close>)

lemma complete_inv:
  assumes inv: "comp_inv s" and "unat (c_done (cx s)) + 1 < 4294967296"
  shows "comp_inv (s\<lparr>cx := complete (cx s), posted := posted s + 1\<rparr>)"
proof -
  have u: "unat (c_done (cx s) + 1) = unat (c_done (cx s)) + 1" using assms(2) by (simp add: unat_word_ariths)
  let ?x = "complete (cx s)"
  have sub: "awake_in (cx s) \<subseteq> awake_in ?x" by (auto simp: awake_in_def complete_def Let_def wake_first_Running)
  have "min (unat (c_done ?x)) (length (c_wait ?x)) \<le> card (awake_in ?x)"
  proof (cases "\<exists>t \<in> set (c_wait (cx s)). c_state (cx s) t \<noteq> Running")
    case True
    then obtain t where "t \<in> set (c_wait (cx s))" "c_state (cx s) t \<noteq> Running"
        "wake_first (c_wait (cx s)) (c_state (cx s)) t = Running"
      using wake_first_wakes by blast
    then have "awake_in (cx s) \<subset> awake_in ?x" using sub by (auto simp: awake_in_def complete_def Let_def)
    then have "card (awake_in (cx s)) < card (awake_in ?x)" by (simp add: psubset_card_mono)
    then show ?thesis using inv u by (auto simp: comp_inv_def complete_def Let_def)
  next
    case False
    then have "card (awake_in ?x) = length (c_wait ?x)"
      using inv by (intro awake_all) (auto simp: comp_inv_def complete_def Let_def wake_first_Running)
    then show ?thesis by simp
  qed
  moreover have "\<And>t. c_state ?x t \<noteq> Running \<Longrightarrow> t \<in> set (c_wait (cx s))"
    using inv wake_first_Running by (fastforce simp: comp_inv_def complete_def Let_def)
  ultimately show ?thesis using inv u by (auto simp: comp_inv_def complete_def Let_def)
qed

lemma complete_all_inv:
  assumes inv: "comp_inv s" and "unat (c_done (cx s)) + 2147483647 < 4294967296"
  shows "comp_inv (s\<lparr>cx := complete_all (cx s), posted := posted s + 2147483647\<rparr>)"
proof -
  have u: "unat (c_done (cx s) + 2147483647) = unat (c_done (cx s)) + 2147483647"
    using assms(2) by (simp add: unat_word_ariths)
  have "card (awake_in (complete_all (cx s))) = length (c_wait (complete_all (cx s)))"
    using inv by (intro awake_all) (auto simp: comp_inv_def complete_all_def Let_def wake_every_def)
  then show ?thesis using inv u by (auto simp: comp_inv_def complete_all_def Let_def wake_every_def)
qed

lemma state_inv:
  assumes "comp_inv s" "z = Running \<or> c_state (cx s) t \<noteq> Running"
  shows "comp_inv (s\<lparr>cx := (cx s)\<lparr>c_state := (c_state (cx s))(t := z)\<rparr>\<rparr>)"
proof -
  have "awake_in (cx s) \<subseteq> awake_in ((cx s)\<lparr>c_state := (c_state (cx s))(t := z)\<rparr>)" using assms(2) by (auto simp: awake_in_def)
  then have "card (awake_in (cx s)) \<le> card (awake_in ((cx s)\<lparr>c_state := (c_state (cx s))(t := z)\<rparr>))"
    by (simp add: card_mono)
  then show ?thesis using assms by (auto simp: comp_inv_def)
qed

lemma comp_step_inv: "comp_step s s' \<Longrightarrow> comp_inv s \<Longrightarrow> comp_inv s'"
proof (induction rule: comp_step.induct)
  case (cp_try s x r)
  then show ?case using take_inv [of s]
    by (cases "c_done (cx s) = 0") (auto simp: try_wait_for_completion_def)
next
  case (cp_init s)
  then show ?case by (auto simp: comp_inv_def INIT_COMPLETION_def)
qed (simp_all add: wait_inv wait_sleeps_inv return_inv again_inv complete_inv [simplified] complete_all_inv state_inv)

lemma comp_reach_inv: "comp_reach s \<Longrightarrow> comp_inv s"
  by (induction rule: comp_reach.induct) (blast intro: comp_inv_start comp_step_inv)+

lemma resume_takes:
  assumes "comp_inv s" "cin s t = Some (k, timeout)" "sched_left timeout left" "c_done (cx s) \<noteq> 0"
  shows "\<exists>x r. wait_resume (cx s) t k sig left = (x, Some r) \<and> 0 < r \<and> c_done x = c_done (cx s) - 1
    \<and> c_wait x = remove1 t (c_wait (cx s))"
proof -
  have "0 \<le> left" using assms(1-3) by (auto simp: comp_inv_def intro: sched_left_nonneg)
  then show ?thesis using assms(4) by (auto simp: wait_resume_def wait_leave_def wait_take_def)
qed

lemma complete_in_order:
  assumes "distinct (c_wait x)" "c_wait x = pre @ t # post" "c_state x t \<noteq> Running" "c_state (complete x) t = Running"
    and "u \<in> set pre"
  shows "c_state (complete x) u = Running"
  using assms wake_first_order [of pre t post "c_state x" u] by (simp add: complete_def Let_def)

text \<open>A wait with a timeout that a signal ends returns a large positive number, since the result type is unsigned: a test
  for a result greater than 0 takes it for a completion.\<close>

lemma interrupted_timeout_result:
  assumes "c_done x = 0" "sig \<noteq> NoSignal" "t \<notin> set (c_wait x)"
  shows "wait_for_completion_interruptible_timeout x t sig timeout = (x, Some 18446744073709551104)"
  using assms
  by (simp add: wait_for_completion_interruptible_timeout_def wait_for_common_def wait_loop_def wait_leave_def
      remove1_append ERESTARTSYS_def)

text \<open>On a completion that nobody has waited for, \<^verbatim>\<open>completion_done\<close> says 0, and after a \<^verbatim>\<open>complete\<close> it says 1 although
  there may be waiters.\<close>

lemma completion_done_not_waiters:
  "c_wait init_completion = [] \<and> \<not> completion_done init_completion"
  "c_wait x = [t] \<Longrightarrow> c_done x = 0 \<Longrightarrow> c_wait (complete x) = [t] \<and> completion_done (complete x)"
  by (simp_all add: init_completion_def completion_done_def complete_def Let_def)

text \<open>
  C37: A completion neither loses nor invents a completion, for every interleaving of the waits (with signals and
  timeouts), \<^verbatim>\<open>try_wait_for_completion\<close>, \<^verbatim>\<open>complete\<close>, \<^verbatim>\<open>complete_all\<close>
  and \<^verbatim>\<open>INIT_COMPLETION\<close> in which the 32-bit counter does not overflow: what was posted is what the waits have taken plus
  the counter. No wake-up is lost: as many queued tasks are awake as there are completions to take, or all of them, and
  a task that goes on while the counter is not 0 takes one, leaves the queue and returns a positive result, even if it was
  interrupted or its time is over. Tasks are woken in the order in which they were queued.
\<close>

theorem completion_conserves:
  assumes "comp_reach s"
  shows "unat (c_done (cx s)) + taken s = posted s
    \<and> min (unat (c_done (cx s))) (length (c_wait (cx s))) \<le> card {t \<in> set (c_wait (cx s)). c_state (cx s) t = Running}
    \<and> (\<forall>t k timeout sig left. cin s t = Some (k, timeout) \<and> sched_left timeout left \<and> c_done (cx s) \<noteq> 0 \<longrightarrow>
        (\<exists>x r. wait_resume (cx s) t k sig left = (x, Some r) \<and> 0 < r \<and> c_done x = c_done (cx s) - 1
          \<and> c_wait x = remove1 t (c_wait (cx s))))
    \<and> (\<forall>pre t post u. c_wait (cx s) = pre @ t # post \<and> c_state (cx s) t \<noteq> Running \<and> c_state (complete (cx s)) t = Running
        \<and> u \<in> set pre \<longrightarrow> c_state (complete (cx s)) u = Running)"
proof -
  note inv = comp_reach_inv [OF assms]
  then have d: "distinct (c_wait (cx s))" by (simp add: comp_inv_def)
  have "unat (c_done (cx s)) + taken s = posted s"
    "min (unat (c_done (cx s))) (length (c_wait (cx s))) \<le> card {t \<in> set (c_wait (cx s)). c_state (cx s) t = Running}"
    using inv unfolding comp_inv_def awake_in_def by blast+
  then show ?thesis using resume_takes [OF inv] complete_in_order [OF d] by blast
qed

text \<open>Task 1 waits and sleeps, task 2 queues behind it, and one completion is posted: task 1 is awake and takes it.\<close>

theorem completion_conserves_witness:
  "\<exists>s. comp_reach s \<and> c_wait (cx s) = [1, 2] \<and> c_state (cx s) 1 = Running \<and> c_state (cx s) 2 = Preparing
    \<and> unat (c_done (cx s)) + taken s = 1
    \<and> (\<exists>x r. wait_resume (cx s) 1 InterruptibleLock Signal 5 = (x, Some r) \<and> 0 < r \<and> c_wait x = [2])"
proof -
  let ?k = InterruptibleLock
  let ?s0 = "\<lparr>cx = init_completion, cin = Map.empty, posted = 0, taken = 0\<rparr>"
  let ?x1 = "\<lparr>c_done = 0, c_wait = [1], c_state = (\<lambda>_. Running)(1 := Preparing)\<rparr>"
  let ?s1 = "\<lparr>cx = ?x1, cin = [1 \<mapsto> (?k, 9)], posted = 0, taken = 0\<rparr>"
  let ?s2 = "?s1\<lparr>cx := ?x1\<lparr>c_state := (c_state ?x1)(1 := Off_rq)\<rparr>\<rparr>"
  let ?x3 = "\<lparr>c_done = 0, c_wait = [1, 2], c_state = (c_state (cx ?s2))(2 := Preparing)\<rparr>"
  let ?s3 = "\<lparr>cx = ?x3, cin = [1 \<mapsto> (?k, 9), 2 \<mapsto> (?k, 9)], posted = 0, taken = 0\<rparr>"
  let ?s4 = "?s3\<lparr>cx := complete ?x3, posted := 1\<rparr>"
  have "comp_step ?s0 ?s1" using cp_sleep [of ?s0 1 9 ?k NoSignal ?x1]
    by (simp add: wait_for_common_def wait_loop_def init_completion_def)
  then have "comp_reach ?s1" by (rule cp_next [OF cp_start])
  moreover have "comp_step ?s1 ?s2" using cp_schedule [of ?s1 1] by simp
  ultimately have "comp_reach ?s2" by (rule cp_next)
  moreover have "comp_step ?s2 ?s3" using cp_sleep [of ?s2 2 9 ?k NoSignal ?x3]
    by (simp add: wait_for_common_def wait_loop_def)
  ultimately have "comp_reach ?s3" by (rule cp_next)
  moreover have "comp_step ?s3 ?s4" using cp_complete [of ?s3] by simp
  ultimately have r: "comp_reach ?s4" by (rule cp_next)
  have x: "cx ?s4 = \<lparr>c_done = 1, c_wait = [1, 2], c_state = (\<lambda>_. Running)(2 := Preparing)\<rparr>"
    by (simp add: complete_def fun_eq_iff)
  have "\<exists>x r. wait_resume (cx ?s4) 1 ?k Signal 5 = (x, Some r) \<and> 0 < r \<and> c_done x = c_done (cx ?s4) - 1
      \<and> c_wait x = remove1 1 (c_wait (cx ?s4))"
    using completion_conserves [OF r, THEN conjunct2, THEN conjunct2, THEN conjunct1, rule_format, of 1 ?k 9 5 Signal]
    unfolding x by (simp add: sched_left_def MAX_SCHEDULE_TIMEOUT_def)
  moreover have "unat (c_done (cx ?s4)) + taken ?s4 = 1" using completion_conserves [OF r] by simp
  ultimately show ?thesis using r unfolding x by (intro exI [of _ ?s4] conjI; (unfold x)?; auto)
qed

end
