(* ===== verification/Heap_Sort.thy ===== *)
theory Heap_Sort
  imports String_Lib
begin

text \<open>
  The heap sort of lib/sort.c on byte memory. The elements are blocks of \<open>sz\<close> bytes, the counters are byte offsets
  of type \<^verbatim>\<open>int\<close>, and the comparison function is an argument that sees the bytes of two elements. Comparisons that mix
  \<^verbatim>\<open>int\<close> and \<^verbatim>\<open>size_t\<close> are done modulo 2^64 as the language prescribes. \<^term>\<open>None\<close> is an access outside of
  mapped memory or a loop that does not end. The correctness proof goes through the same algorithm on a list.
\<close>

section \<open>The algorithm on memory\<close>

type_synonym cmp_func = "u8 list \<Rightarrow> u8 list \<Rightarrow> int"

definition load :: "mem \<Rightarrow> nat \<Rightarrow> nat \<Rightarrow> u8 list option" where
  "load m p k = (if \<forall>q \<in> set [p..<p + k]. m q \<noteq> None then Some (map (\<lambda>q. the (m q)) [p..<p + k]) else None)"

fun store :: "mem \<Rightarrow> nat \<Rightarrow> u8 list \<Rightarrow> mem option" where
  "store m p [] = Some m"
| "store m p (v # vs) = do { m1 \<leftarrow> st m p v; store m1 (p + 1) vs }"

definition u32_swap :: "mem \<Rightarrow> nat \<Rightarrow> nat \<Rightarrow> mem option" where
  "u32_swap m a b = do {
     t \<leftarrow> load m a 4;
     u \<leftarrow> load m b 4;
     m1 \<leftarrow> store m a u;
     store m1 b t }"

fun generic_swap :: "mem \<Rightarrow> nat \<Rightarrow> nat \<Rightarrow> nat \<Rightarrow> mem option" where
  "generic_swap m a b sz = do {
     t \<leftarrow> m a;
     u \<leftarrow> m b;
     m1 \<leftarrow> st m a u;
     m2 \<leftarrow> st m1 b t;
     if sz - 1 > 0 then generic_swap m2 (a + 1) (b + 1) (sz - 1) else Some m2 }"

declare generic_swap.simps [simp del]

definition swap_func :: "mem \<Rightarrow> nat \<Rightarrow> nat \<Rightarrow> nat \<Rightarrow> mem option" where
  "swap_func m a b sz = (if sz = 4 then u32_swap m a b else generic_swap m a b sz)"

text \<open>The conversion of an \<^verbatim>\<open>int\<close> to \<^verbatim>\<open>size_t\<close>.\<close>

definition usize :: "int \<Rightarrow> int" where
  "usize x = x mod 18446744073709551616"

text \<open>The inner loop, which occurs twice: sift the element at offset \<open>r\<close> down in the first \<open>n\<close> bytes.\<close>

partial_function (option) sift_mem :: "cmp_func \<Rightarrow> nat \<Rightarrow> nat \<Rightarrow> int \<Rightarrow> int \<Rightarrow> mem \<Rightarrow> mem option" where
  "sift_mem cmp base sz n r m =
     (if usize (cint (r * 2) + int sz) < usize n then
        let c0 = cint (cint (r * 2) + int sz) in
        Option.bind (load m (base + nat c0) sz) (\<lambda>x.
        Option.bind (if usize c0 < usize (n - int sz) then load m (base + nat c0 + sz) sz else Some x) (\<lambda>y.
        let c = (if usize c0 < usize (n - int sz) \<and> cmp x y < 0 then cint (c0 + int sz) else c0) in
        Option.bind (load m (base + nat r) sz) (\<lambda>p.
        Option.bind (load m (base + nat c) sz) (\<lambda>q.
        if cmp p q \<ge> 0 then Some m
        else Option.bind (swap_func m (base + nat r) (base + nat c) sz) (\<lambda>m1. sift_mem cmp base sz n c m1)))))
      else Some m)"

partial_function (option) heapify_mem :: "cmp_func \<Rightarrow> nat \<Rightarrow> nat \<Rightarrow> int \<Rightarrow> int \<Rightarrow> mem \<Rightarrow> mem option" where
  "heapify_mem cmp base sz n i m =
     (if 0 \<le> i then Option.bind (sift_mem cmp base sz n i m) (heapify_mem cmp base sz n (cint (i - int sz)))
      else Some m)"

partial_function (option) sort_loop_mem :: "cmp_func \<Rightarrow> nat \<Rightarrow> nat \<Rightarrow> int \<Rightarrow> mem \<Rightarrow> mem option" where
  "sort_loop_mem cmp base sz i m =
     (if 0 < i then
        Option.bind (swap_func m base (base + nat i) sz) (\<lambda>m1.
        Option.bind (sift_mem cmp base sz i 0 m1) (sort_loop_mem cmp base sz (cint (i - int sz))))
      else Some m)"

definition sort_mem :: "cmp_func \<Rightarrow> nat \<Rightarrow> nat \<Rightarrow> nat \<Rightarrow> mem \<Rightarrow> mem option" where
  "sort_mem cmp base num sz m =
     (let i = cint ((int (num div 2) - 1) * int sz); n = cint (int num * int sz)
      in Option.bind (heapify_mem cmp base sz n i m) (sort_loop_mem cmp base sz (cint (n - int sz))))"

section \<open>The algorithm on a list\<close>

definition swap :: "'a list \<Rightarrow> nat \<Rightarrow> nat \<Rightarrow> 'a list" where
  "swap a i j = a[i := a ! j, j := a ! i]"

definition larger_child :: "('a \<Rightarrow> 'a \<Rightarrow> int) \<Rightarrow> 'a list \<Rightarrow> nat \<Rightarrow> nat \<Rightarrow> nat" where
  "larger_child cmp a n r = (if 2 * r + 2 < n \<and> cmp (a ! (2 * r + 1)) (a ! (2 * r + 2)) < 0 then 2 * r + 2 else 2 * r + 1)"

lemma larger_child_bounds: "Suc (2 * r) < n \<Longrightarrow> r < larger_child cmp a n r" "Suc (2 * r) < n \<Longrightarrow> larger_child cmp a n r < n"
  by (auto simp: larger_child_def)

function sift :: "('a \<Rightarrow> 'a \<Rightarrow> int) \<Rightarrow> nat \<Rightarrow> nat \<Rightarrow> 'a list \<Rightarrow> 'a list" where
  "sift cmp n r a =
     (if 2 * r + 1 < n then
        let c = larger_child cmp a n r
        in if cmp (a ! r) (a ! c) \<ge> 0 then a else sift cmp n c (swap a r c)
      else a)"
  by pat_completeness auto
termination by (relation "measure (\<lambda>(_, n, r, _). n - r)") (auto simp: diff_less_mono2 larger_child_bounds)

declare sift.simps [simp del]

primrec heapify :: "('a \<Rightarrow> 'a \<Rightarrow> int) \<Rightarrow> nat \<Rightarrow> nat \<Rightarrow> 'a list \<Rightarrow> 'a list" where
  "heapify cmp n 0 a = a"
| "heapify cmp n (Suc i) a = heapify cmp n i (sift cmp n i a)"

primrec sort_loop :: "('a \<Rightarrow> 'a \<Rightarrow> int) \<Rightarrow> nat \<Rightarrow> 'a list \<Rightarrow> 'a list" where
  "sort_loop cmp 0 a = a"
| "sort_loop cmp (Suc i) a = sort_loop cmp i (sift cmp (Suc i) 0 (swap a 0 (Suc i)))"

definition heap_sort :: "('a \<Rightarrow> 'a \<Rightarrow> int) \<Rightarrow> 'a list \<Rightarrow> 'a list" where
  "heap_sort cmp a = sort_loop cmp (length a - 1) (heapify cmp (length a) (length a div 2) a)"

lemma swap_length [simp]: "length (swap a i j) = length a"
  by (simp add: swap_def)

lemma swap_nth: "i < length a \<Longrightarrow> j < length a \<Longrightarrow> swap a i j ! k = (if k = j then a ! i else if k = i then a ! j else a ! k)"
  by (auto simp: swap_def nth_list_update)

lemma swap_mset: "i < length a \<Longrightarrow> j < length a \<Longrightarrow> mset (swap a i j) = mset a"
  by (cases "i = j") (simp_all add: swap_def mset_swap)

text \<open>Sifting permutes the first \<open>n\<close> elements.\<close>

lemma sift_keeps:
  assumes "r < n" "n \<le> length a"
  shows "length (sift cmp n r a) = length a \<and> mset (sift cmp n r a) = mset a
    \<and> (\<forall>k. n \<le> k \<longrightarrow> sift cmp n r a ! k = a ! k)"
  using assms
proof (induction cmp n r a rule: sift.induct)
  case (1 cmp n r a)
  let ?c = "larger_child cmp a n r"
  show ?case
  proof (cases "2 * r + 1 < n \<and> cmp (a ! r) (a ! ?c) < 0")
    case True
    then have c: "r < ?c" "?c < n" using larger_child_bounds by auto
    have "sift cmp n r a = sift cmp n ?c (swap a r ?c)" using True by (subst sift.simps) (simp add: Let_def)
    moreover have "length (sift cmp n ?c (swap a r ?c)) = length (swap a r ?c) \<and> mset (sift cmp n ?c (swap a r ?c)) = mset (swap a r ?c)
        \<and> (\<forall>k. n \<le> k \<longrightarrow> sift cmp n ?c (swap a r ?c) ! k = swap a r ?c ! k)"
      using 1 True c by (simp add: Let_def)
    ultimately show ?thesis using c 1(2,3) by (simp add: swap_mset swap_nth)
  next
    case False
    then have "sift cmp n r a = a" by (subst sift.simps) (auto simp: Let_def)
    then show ?thesis by simp
  qed
qed

lemma sift_low:
  assumes "r < n" "n \<le> length a" "j < n"
  shows "\<exists>j' < n. sift cmp n r a ! j = a ! j'"
proof -
  let ?b = "sift cmp n r a"
  note k = sift_keeps [OF assms(1,2), of cmp]
  have "mset (take n ?b) + mset (drop n ?b) = mset (take n a) + mset (drop n a)"
    using k by (simp flip: mset_append)
  moreover have "drop n ?b = drop n a" using k assms(2) by (intro nth_equalityI) auto
  ultimately have "set (take n ?b) = set (take n a)" by (metis add_right_cancel set_mset_mset)
  moreover have "?b ! j \<in> set (take n ?b)" using k assms(2,3) by (auto simp: in_set_conv_nth intro!: exI [of _ j])
  ultimately show ?thesis using assms(2) by (auto simp: in_set_conv_nth)
qed

subsection \<open>What the sort needs of the comparison\<close>

locale comparison =
  fixes cmp :: "'a \<Rightarrow> 'a \<Rightarrow> int"
  assumes cmp_swap: "cmp x y \<le> 0 \<longleftrightarrow> 0 \<le> cmp y x"
    and cmp_trans: "cmp x y \<le> 0 \<Longrightarrow> cmp y z \<le> 0 \<Longrightarrow> cmp x z \<le> 0"
begin

lemma cmp_refl: "cmp x x \<le> 0"
  using cmp_swap [of x x] by linarith

lemma cmp_ge: "0 \<le> cmp x y \<Longrightarrow> cmp y x \<le> 0"
  using cmp_swap by blast

lemma cmp_less: "cmp x y < 0 \<Longrightarrow> cmp x y \<le> 0"
  by simp

text \<open>\<open>kid i c\<close>: the position \<open>c\<close> is below \<open>i\<close>. The heap order holds from \<open>lo\<close> on, except below \<open>r\<close>.\<close>

definition kid :: "nat \<Rightarrow> nat \<Rightarrow> bool" where
  "kid i c \<longleftrightarrow> c = 2 * i + 1 \<or> c = 2 * i + 2"

definition heap_but :: "'a list \<Rightarrow> nat \<Rightarrow> nat \<Rightarrow> nat option \<Rightarrow> bool" where
  "heap_but a n lo r \<longleftrightarrow> (\<forall>i c. lo \<le> i \<and> Some i \<noteq> r \<and> kid i c \<and> c < n \<longrightarrow> cmp (a ! c) (a ! i) \<le> 0)"

lemma heap_butD: "heap_but a n lo r \<Longrightarrow> lo \<le> i \<Longrightarrow> Some i \<noteq> r \<Longrightarrow> kid i c \<Longrightarrow> c < n \<Longrightarrow> cmp (a ! c) (a ! i) \<le> 0"
  by (auto simp: heap_but_def)

lemma larger_child_max:
  assumes "2 * r + 1 < n" "kid r c" "c < n"
  shows "cmp (a ! c) (a ! larger_child cmp a n r) \<le> 0" "kid r (larger_child cmp a n r)"
  using assms cmp_refl cmp_ge by (auto simp: larger_child_def kid_def)

lemma sift_heap:
  assumes "heap_but a n lo (Some r)" "lo \<le> r" "r < n" "n \<le> length a"
    and "\<And>i c. lo \<le> i \<Longrightarrow> kid i r \<Longrightarrow> kid r c \<Longrightarrow> c < n \<Longrightarrow> cmp (a ! c) (a ! i) \<le> 0"
  shows "heap_but (sift cmp n r a) n lo None"
  using assms
proof (induction "n - r" arbitrary: r a rule: less_induct)
  case less
  let ?c = "larger_child cmp a n r"
  show ?case
  proof (cases "2 * r + 1 < n \<and> cmp (a ! r) (a ! ?c) < 0")
    case True
    then have c: "r < ?c" "?c < n" using larger_child_bounds by auto
    let ?b = "swap a r ?c"
    have b: "?b ! k = (if k = ?c then a ! r else if k = r then a ! ?c else a ! k)" for k
      using c less.prems(3,4) by (intro swap_nth) simp_all
    have kid_r: "kid r ?c" using larger_child_max(2) [of r n "2 * r + 1"] True by (simp add: kid_def)
    have "heap_but ?b n lo (Some ?c)"
      unfolding heap_but_def
    proof (intro allI impI, elim conjE)
      fix i d assume d: "lo \<le> i" "Some i \<noteq> Some ?c" "kid i d" "d < n"
      show "cmp (?b ! d) (?b ! i) \<le> 0"
      proof (cases "i = r")
        case True
        then show ?thesis using b d kid_r larger_child_max(1) [of r n d a] \<open>2 * r + 1 < n \<and> cmp (a ! r) (a ! ?c) < 0\<close>
          by (auto simp: kid_def)
      next
        case False
        then have "d \<noteq> ?c" using d(3) kid_r by (auto simp: kid_def)
        then show ?thesis
          using b d False less.prems(5) [OF d(1) _ kid_r c(2)] heap_butD [OF less.prems(1) d(1) _ d(3,4)] by auto
      qed
    qed
    moreover have "cmp (?b ! d) (?b ! i) \<le> 0" if "lo \<le> i" "kid i ?c" "kid ?c d" "d < n" for i d
    proof -
      have "i = r" using that(2) kid_r by (auto simp: kid_def)
      moreover have "d \<noteq> ?c" "d \<noteq> r" using that(3) c by (auto simp: kid_def)
      ultimately show ?thesis using b heap_butD [OF less.prems(1) _ _ that(3,4)] c less.prems(2) by simp
    qed
    ultimately have "heap_but (sift cmp n ?c ?b) n lo None"
      using less.hyps [of ?c ?b] c less.prems(2-4) by simp
    moreover have "sift cmp n r a = sift cmp n ?c ?b" using True by (subst sift.simps) (simp add: Let_def)
    ultimately show ?thesis by simp
  next
    case False
    then have e: "sift cmp n r a = a" by (subst sift.simps) (auto simp: Let_def)
    have "cmp (a ! d) (a ! r) \<le> 0" if "kid r d" "d < n" for d
    proof -
      have l: "2 * r + 1 < n" using that by (auto simp: kid_def)
      then have "cmp (a ! ?c) (a ! r) \<le> 0" using False cmp_ge by auto
      then show ?thesis using cmp_trans larger_child_max(1) [OF l that] by blast
    qed
    then show ?thesis using less.prems(1) unfolding e heap_but_def by auto
  qed
qed

lemma heapify_heap:
  assumes "heap_but a n i None" "i < n \<or> i = 0" "n \<le> length a"
  shows "heap_but (heapify cmp n i a) n 0 None \<and> length (heapify cmp n i a) = length a \<and> mset (heapify cmp n i a) = mset a"
  using assms
proof (induction i arbitrary: a)
  case (Suc i)
  have "heap_but a n i (Some i)" using Suc.prems(1) by (auto simp: heap_but_def)
  then have "heap_but (sift cmp n i a) n i None" using Suc.prems by (intro sift_heap) (auto simp: kid_def)
  then show ?case using Suc sift_keeps [of i n a cmp] by simp
qed simp

lemma heap_max:
  assumes "heap_but a n 0 None" "j < n"
  shows "cmp (a ! j) (a ! 0) \<le> 0"
  using assms(2)
proof (induction j rule: less_induct)
  case (less j)
  show ?case
  proof (cases "j = 0")
    case False
    let ?i = "(j - 1) div 2"
    have "kid ?i j" "?i < j" using False by (auto simp: kid_def)
    then show ?thesis using cmp_trans [of "a ! j" "a ! ?i"] less heap_butD [OF assms(1), of ?i j] by simp
  qed (simp add: cmp_refl)
qed

lemma heap_but_mono: "heap_but a n 0 None \<Longrightarrow> i \<le> n \<Longrightarrow> heap_but a i 0 None"
  by (auto simp: heap_but_def)

lemma sort_loop_sorted:
  assumes "heap_but a (Suc i) 0 None" "i < length a" "\<And>j k. i \<le> j \<Longrightarrow> j < k \<Longrightarrow> k < length a \<Longrightarrow> cmp (a ! j) (a ! k) \<le> 0"
    and "\<And>j k. j \<le> i \<Longrightarrow> i < k \<Longrightarrow> k < length a \<Longrightarrow> cmp (a ! j) (a ! k) \<le> 0"
  shows "sorted_wrt (\<lambda>x y. cmp x y \<le> 0) (sort_loop cmp i a) \<and> mset (sort_loop cmp i a) = mset a"
  using assms
proof (induction i arbitrary: a)
  case 0
  then show ?case by (simp add: sorted_wrt_iff_nth_less)
next
  case (Suc i)
  let ?b = "swap a 0 (Suc i)" and ?n = "Suc i"
  let ?c = "sift cmp ?n 0 ?b"
  have b: "?b ! k = (if k = Suc i then a ! 0 else if k = 0 then a ! Suc i else a ! k)" for k
    using Suc.prems(2) by (intro swap_nth) auto
  have len: "Suc i < length a" by (rule Suc.prems(2))
  have k: "length ?c = length a" "mset ?c = mset a" "\<And>k. ?n \<le> k \<Longrightarrow> ?c ! k = ?b ! k"
    using sift_keeps [of 0 ?n ?b cmp] len swap_mset [OF order.strict_trans [OF zero_less_Suc len] len] by auto
  have low: "\<exists>j' \<le> Suc i. ?c ! j = a ! j'" if "j \<le> i" for j
  proof -
    obtain j' where "j' < ?n" "?c ! j = ?b ! j'" using sift_low [of 0 ?n ?b j cmp] len \<open>j \<le> i\<close> by auto
    then show ?thesis using b by (metis less_or_eq_imp_le zero_le order_refl)
  qed
  have top: "?c ! Suc i = a ! 0" "\<And>k. Suc i < k \<Longrightarrow> ?c ! k = a ! k" using k(3) b by auto
  have below: "cmp (?c ! j) (?c ! k) \<le> 0" if jk: "j \<le> i" "i < k" "k < length ?c" for j k
  proof -
    obtain j' where j': "j' \<le> Suc i" "?c ! j = a ! j'" using low [OF jk(1)] by blast
    show ?thesis
    proof (cases "k = Suc i")
      case True
      then show ?thesis using j' top heap_max [OF Suc.prems(1), of j'] by simp
    next
      case False
      then show ?thesis using j' top Suc.prems(4) [OF j'(1), of k] jk k(1) by simp
    qed
  qed
  have "heap_but ?b ?n 0 (Some 0)"
    unfolding heap_but_def
  proof (intro allI impI, elim conjE)
    fix j c assume j: "Some j \<noteq> Some 0" "kid j c" "c < ?n"
    then have "j < ?n" "j \<noteq> 0" "c \<noteq> 0" by (auto simp: kid_def)
    then show "cmp (?b ! c) (?b ! j) \<le> 0" using b j heap_butD [OF Suc.prems(1), of j c] by simp
  qed
  then have heap: "heap_but ?c ?n 0 None" using len by (intro sift_heap) (auto simp: kid_def)
  have "sorted_wrt (\<lambda>x y. cmp x y \<le> 0) (sort_loop cmp i ?c) \<and> mset (sort_loop cmp i ?c) = mset ?c"
  proof (rule Suc.IH [OF heap])
    show "i < length ?c" using k(1) len by simp
    show "cmp (?c ! j) (?c ! l) \<le> 0" if "i \<le> j" "j < l" "l < length ?c" for j l
    proof (cases "j = i")
      case True
      then show ?thesis using below [of i l] that by simp
    next
      case False
      show ?thesis
      proof (cases "j = Suc i")
        case True
        then show ?thesis using top that k(1) Suc.prems(4) [of 0 l] by simp
      next
        case False
        then show ?thesis using top that k(1) \<open>j \<noteq> i\<close> Suc.prems(3) [of j l] by simp
      qed
    qed
  qed (rule below)
  then show ?case using k(2) by simp
qed

lemma heap_sort_sorts: "sorted_wrt (\<lambda>x y. cmp x y \<le> 0) (heap_sort cmp a) \<and> mset (heap_sort cmp a) = mset a"
proof (cases "a = []")
  case False
  have "heap_but a (length a) (length a div 2) None" by (auto simp: heap_but_def kid_def)
  then have h: "heap_but (heapify cmp (length a) (length a div 2) a) (length a) 0 None"
    "length (heapify cmp (length a) (length a div 2) a) = length a" "mset (heapify cmp (length a) (length a div 2) a) = mset a"
    using heapify_heap [of a "length a" "length a div 2"] False by auto
  show ?thesis
    unfolding heap_sort_def using sort_loop_sorted [of "heapify cmp (length a) (length a div 2) a" "length a - 1"] h False by simp
qed (simp add: heap_sort_def)

end

section \<open>The memory holds the list\<close>

definition mapped :: "mem \<Rightarrow> nat \<Rightarrow> nat \<Rightarrow> bool" where
  "mapped m p k \<longleftrightarrow> (\<forall>q. p \<le> q \<and> q < p + k \<longrightarrow> m q \<noteq> None)"

definition chunk :: "mem \<Rightarrow> nat \<Rightarrow> nat \<Rightarrow> u8 list" where
  "chunk m p k = map (\<lambda>q. the (m q)) [p..<p + k]"

definition elems :: "mem \<Rightarrow> nat \<Rightarrow> nat \<Rightarrow> nat \<Rightarrow> u8 list list" where
  "elems m base k n = map (\<lambda>j. chunk m (base + j * k) k) [0..<n]"

definition exchange :: "mem \<Rightarrow> nat \<Rightarrow> nat \<Rightarrow> nat \<Rightarrow> mem" where
  "exchange m a b k = (\<lambda>q. if a \<le> q \<and> q < a + k then m (b + (q - a)) else if b \<le> q \<and> q < b + k then m (a + (q - b)) else m q)"

lemma load_mapped: "mapped m p k \<Longrightarrow> load m p k = Some (chunk m p k)"
  by (auto simp: load_def mapped_def chunk_def)

lemma chunk_cong: "(\<And>q. q < k \<Longrightarrow> m (p + q) = m' (p' + q)) \<Longrightarrow> chunk m p k = chunk m' p' k"
  by (auto simp: chunk_def intro!: nth_equalityI)

lemma elems_nth [simp]: "j < n \<Longrightarrow> elems m base k n ! j = chunk m (base + j * k) k" "length (elems m base k n) = n"
  by (simp_all add: elems_def)

lemma store_mapped:
  "mapped m p (length vs) \<Longrightarrow> store m p vs = Some (\<lambda>q. if p \<le> q \<and> q < p + length vs then Some (vs ! (q - p)) else m q)"
proof (induction vs arbitrary: m p)
  case (Cons v vs)
  have "mapped (m(p \<mapsto> v)) (p + 1) (length vs)" using Cons.prems by (auto simp: mapped_def)
  moreover have "m p \<noteq> None" using Cons.prems by (simp add: mapped_def)
  ultimately have "store m p (v # vs) = Some (\<lambda>q. if p + 1 \<le> q \<and> q < p + 1 + length vs then Some (vs ! (q - (p + 1))) else (m(p \<mapsto> v)) q)"
    using Cons.IH [of "m(p \<mapsto> v)" "p + 1"] by (auto simp: st_def simp del: fun_upd_apply)
  moreover have "(\<lambda>q. if p + 1 \<le> q \<and> q < p + 1 + length vs then Some (vs ! (q - (p + 1))) else (m(p \<mapsto> v)) q) =
      (\<lambda>q. if p \<le> q \<and> q < p + length (v # vs) then Some ((v # vs) ! (q - p)) else m q)"
    by (auto simp: fun_eq_iff nth_Cons')
  ultimately show ?case by simp
qed (auto simp: fun_eq_iff)

lemma u32_swap_spec:
  assumes "mapped m a 4" "mapped m b 4" "a + 4 \<le> b \<or> b + 4 \<le> a"
  shows "u32_swap m a b = Some (exchange m a b 4)"
proof -
  have l: "length (chunk m p 4) = 4" for p by (simp add: chunk_def)
  let ?m1 = "\<lambda>q. if a \<le> q \<and> q < a + 4 then Some (chunk m b 4 ! (q - a)) else m q"
  have s1: "store m a (chunk m b 4) = Some ?m1" using store_mapped [of m a "chunk m b 4"] assms(1) by (simp add: l)
  have "mapped ?m1 b 4" using assms(2) by (auto simp: mapped_def)
  then have s2: "store ?m1 b (chunk m a 4) = Some (\<lambda>q. if b \<le> q \<and> q < b + 4 then Some (chunk m a 4 ! (q - b)) else ?m1 q)"
    using store_mapped [of ?m1 b "chunk m a 4"] by (simp add: l)
  have n: "Some (chunk m p 4 ! j) = m (p + j)" if "mapped m p 4" "j < 4" for p j using that by (auto simp: chunk_def mapped_def)
  have "(\<lambda>q. if b \<le> q \<and> q < b + 4 then Some (chunk m a 4 ! (q - b)) else ?m1 q) = exchange m a b 4"
    using assms(3) by (auto simp: exchange_def fun_eq_iff n [OF assms(1)] n [OF assms(2)])
  then show ?thesis using s1 s2 by (simp add: u32_swap_def load_mapped assms)
qed

lemma exchange_step:
  assumes d: "a + Suc k \<le> b \<or> b + Suc k \<le> a" and xy: "m a = Some x" "m b = Some y"
  shows "exchange (m(a \<mapsto> y, b \<mapsto> x)) (a + 1) (b + 1) k = exchange m a b (Suc k)" (is "exchange ?m _ _ _ = _")
proof
  fix q
  have ab: "a \<noteq> b" "\<not> (b \<le> a \<and> a < b + Suc k)" "\<not> (a \<le> b \<and> b < a + Suc k)" using d by linarith+
  consider "q = a" | "q = b" | "a < q" "q < a + Suc k" | "b < q" "q < b + Suc k" "\<not> (a \<le> q \<and> q < a + Suc k)"
    | "\<not> (a \<le> q \<and> q < a + Suc k)" "\<not> (b \<le> q \<and> q < b + Suc k)" by linarith
  then show "exchange ?m (a + 1) (b + 1) k q = exchange m a b (Suc k) q"
  proof cases
    case 1
    have "\<not> (b + 1 \<le> a \<and> a < b + 1 + k)" using ab by linarith
    then show ?thesis using 1 ab(1) xy by (auto simp: exchange_def)
  next
    case 2
    have "\<not> (a + 1 \<le> b \<and> b < a + 1 + k)" using ab by linarith
    then show ?thesis using 2 ab xy by (auto simp: exchange_def)
  next
    case 3
    then have "b + 1 + (q - (a + 1)) = b + (q - a)" "b + (q - a) \<noteq> a" "b + (q - a) \<noteq> b" using d by linarith+
    then show ?thesis using 3 by (simp add: exchange_def)
  next
    case 4
    then have "a + 1 + (q - (b + 1)) = a + (q - b)" "a + (q - b) \<noteq> a" "a + (q - b) \<noteq> b" using d by linarith+
    moreover have "\<not> (a + 1 \<le> q \<and> q < a + 1 + k)" using 4(3) by linarith
    ultimately show ?thesis using 4 by (auto simp: exchange_def)
  next
    case 5
    then have "q \<noteq> a" "q \<noteq> b" "\<not> (a + 1 \<le> q \<and> q < a + 1 + k)" "\<not> (b + 1 \<le> q \<and> q < b + 1 + k)" by linarith+
    then have "exchange ?m (a + 1) (b + 1) k q = m q" unfolding exchange_def by (simp only: if_False fun_upd_apply)
    moreover have "exchange m a b (Suc k) q = m q" using 5 unfolding exchange_def by (simp only: if_False)
    ultimately show ?thesis by simp
  qed
qed

lemma generic_swap_spec:
  assumes "0 < k" "mapped m a k" "mapped m b k" "a + k \<le> b \<or> b + k \<le> a"
  shows "generic_swap m a b k = Some (exchange m a b k)"
  using assms
proof (induction k arbitrary: m a b)
  case (Suc k)
  have "m a \<noteq> None" "m b \<noteq> None" using Suc.prems(2,3) by (simp_all add: mapped_def)
  then obtain x y where xy: "m a = Some x" "m b = Some y" by blast
  let ?m = "m(a \<mapsto> y, b \<mapsto> x)"
  have step: "generic_swap m a b (Suc k) = (if 0 < k then generic_swap ?m (a + 1) (b + 1) k else Some ?m)"
    using xy by (subst generic_swap.simps) (simp add: st_def)
  have ex: "exchange ?m (a + 1) (b + 1) k = exchange m a b (Suc k)" by (rule exchange_step [OF Suc.prems(4) xy])
  show ?case
  proof (cases "k = 0")
    case True
    then show ?thesis using step xy by (auto simp: exchange_def fun_eq_iff)
  next
    case False
    have "mapped ?m (a + 1) k" "mapped ?m (b + 1) k" using Suc.prems(2,3) by (auto simp: mapped_def)
    then have "generic_swap ?m (a + 1) (b + 1) k = Some (exchange ?m (a + 1) (b + 1) k)"
      using False Suc.prems(4) by (intro Suc.IH) linarith+
    then show ?thesis using False step ex by simp
  qed
qed simp

lemma swap_func_spec:
  assumes "0 < k" "mapped m a k" "mapped m b k" "a + k \<le> b \<or> b + k \<le> a"
  shows "swap_func m a b k = Some (exchange m a b k)"
  using generic_swap_spec [OF assms] u32_swap_spec [of m a b] assms by (cases "k = 4") (simp_all add: swap_func_def)

lemma blocks_apart: "i \<noteq> j \<Longrightarrow> i * k + k \<le> j * k \<or> j * k + k \<le> i * (k :: nat)"
  by (metis add.commute linorder_neqE_nat mult_Suc mult_le_mono1 Suc_leI)

lemma block_in: "j < n \<Longrightarrow> j * k + k \<le> n * (k :: nat)"
  by (metis add.commute mult_Suc mult_le_mono1 Suc_leI)

text \<open>\<open>sim\<close>: the memory holds the list, and differs from \<open>m0\<close> in the array only.\<close>

definition sim :: "mem \<Rightarrow> nat \<Rightarrow> nat \<Rightarrow> mem \<Rightarrow> u8 list list \<Rightarrow> bool" where
  "sim m0 base k m a \<longleftrightarrow> elems m base k (length a) = a \<and> mapped m base (length a * k)
     \<and> (\<forall>q. q < base \<or> base + length a * k \<le> q \<longrightarrow> m q = m0 q)"

lemma sim_mapped: "sim m0 base k m a \<Longrightarrow> j < length a \<Longrightarrow> mapped m (base + j * k) k"
  using block_in [of j "length a" k] by (auto simp: sim_def mapped_def)

lemma sim_load: "sim m0 base k m a \<Longrightarrow> j < length a \<Longrightarrow> load m (base + j * k) k = Some (a ! j)"
  using load_mapped [OF sim_mapped] elems_nth(1) [of j "length a" m base k] by (simp add: sim_def)

lemma sim_swap:
  assumes s: "sim m0 base k m a" and k: "0 < k" and ij: "i < length a" "j < length a" "i \<noteq> j"
  shows "\<exists>m'. swap_func m (base + i * k) (base + j * k) k = Some m' \<and> sim m0 base k m' (swap a i j)"
proof -
  let ?m = "exchange m (base + i * k) (base + j * k) k"
  have ap: "base + i * k + k \<le> base + j * k \<or> base + j * k + k \<le> base + i * k" using blocks_apart [OF ij(3), of k] by linarith
  have sw: "swap_func m (base + i * k) (base + j * k) k = Some ?m"
    using swap_func_spec [OF k sim_mapped [OF s ij(1)] sim_mapped [OF s ij(2)] ap] .
  have in_i: "i * k + k \<le> length a * k" and in_j: "j * k + k \<le> length a * k" using block_in ij by blast+
  have nth: "chunk ?m (base + l * k) k = swap a i j ! l" if l: "l < length a" for l
  proof -
    have a: "a ! h = chunk m (base + h * k) k" if "h < length a" for h
      using s elems_nth(1) [OF that, of m base k] by (simp add: sim_def)
    show ?thesis
    proof (cases "l = i \<or> l = j")
      case True
      then show ?thesis using ij a ap by (auto simp: swap_nth exchange_def intro!: chunk_cong)
    next
      case False
      then have "l * k + k \<le> i * k \<or> i * k + k \<le> l * k" "l * k + k \<le> j * k \<or> j * k + k \<le> l * k" using blocks_apart by blast+
      then show ?thesis using ij a [OF l] False by (auto simp: swap_nth exchange_def intro!: chunk_cong)
    qed
  qed
  have "elems ?m base k (length a) = swap a i j" by (rule nth_equalityI) (simp_all add: nth)
  moreover have "mapped ?m base (length a * k)"
    unfolding mapped_def
  proof (intro allI impI, elim conjE)
    fix q assume q: "base \<le> q" "q < base + length a * k"
    have m: "m p \<noteq> None" if "base \<le> p" "p < base + length a * k" for p using s that by (simp add: sim_def mapped_def)
    consider "base + i * k \<le> q" "q < base + i * k + k" | "base + j * k \<le> q" "q < base + j * k + k" "\<not> (base + i * k \<le> q \<and> q < base + i * k + k)"
      | "\<not> (base + i * k \<le> q \<and> q < base + i * k + k)" "\<not> (base + j * k \<le> q \<and> q < base + j * k + k)" by linarith
    then show "?m q \<noteq> None"
    proof cases
      case 1
      then have "?m q = m (base + j * k + (q - (base + i * k)))" unfolding exchange_def by (simp only: simp_thms if_True)
      moreover have "base + j * k + (q - (base + i * k)) < base + length a * k" using 1 in_j by linarith
      ultimately show ?thesis using m by (metis le_add1 add.assoc)
    next
      case 2
      then have "?m q = m (base + i * k + (q - (base + j * k)))" unfolding exchange_def by (simp only: simp_thms if_True if_False)
      moreover have "base + i * k + (q - (base + j * k)) < base + length a * k" using 2 in_i by linarith
      ultimately show ?thesis using m by (metis le_add1 add.assoc)
    next
      case 3
      then have "?m q = m q" unfolding exchange_def by (simp only: simp_thms if_False)
      then show ?thesis using m [OF q] by simp
    qed
  qed
  moreover have "?m q = m0 q" if "q < base \<or> base + length a * k \<le> q" for q
    using s in_i in_j that by (auto simp: sim_def exchange_def)
  ultimately show ?thesis using sw by (auto simp: sim_def)
qed

text \<open>The offsets of the code are the indices of the list times the size, as long as the array has at most
  \<^verbatim>\<open>INT_MAX\<close> bytes: no test is spoiled by a wrap-around.\<close>

lemma usize_id: "0 \<le> x \<Longrightarrow> x \<le> INT_MAX \<Longrightarrow> usize x = x"
  by (simp add: usize_def INT_MAX_def)

lemma cint_offset: "0 \<le> x \<Longrightarrow> x \<le> INT_MAX \<Longrightarrow> cint x = x"
  by (simp add: in_cint_def INT_MIN_def)

lemma cint_back: "0 \<le> x \<Longrightarrow> x \<le> INT_MAX \<Longrightarrow> 0 \<le> y \<Longrightarrow> y \<le> INT_MAX \<Longrightarrow> cint (x - y) = x - y"
  by (intro cint_id) (simp add: in_cint_def INT_MIN_def INT_MAX_def)

lemma wrapped_offset:
  assumes "INT_MAX < x * 2" "x + k \<le> INT_MAX" "0 < k"
  shows "INT_MAX < usize (cint (x * 2) + k)"
proof -
  have "(x * 2 + 2147483648) mod 4294967296 = (x * 2 + 2147483648 - 4294967296) mod 4294967296"
    by (rule minus_mod_self2 [symmetric])
  also have "\<dots> = x * 2 - 2147483648" using assms by (subst mod_pos_pos_trivial) (auto simp: INT_MAX_def)
  finally have c: "cint (x * 2) = x * 2 - 4294967296" by (simp add: cint_def)
  have "usize (cint (x * 2) + k) = (x * 2 - 4294967296 + k + 18446744073709551616) mod 18446744073709551616"
    unfolding usize_def c by (rule mod_add_self2 [symmetric])
  also have "\<dots> = x * 2 - 4294967296 + k + 18446744073709551616"
    using assms by (intro mod_pos_pos_trivial) (auto simp: INT_MAX_def)
  finally show ?thesis using assms by (simp add: INT_MAX_def)
qed

lemma child_test:
  assumes k: "0 < k" and r: "r < l" and n: "n \<le> l" and l: "int (l * k) \<le> INT_MAX"
  shows "usize (cint (int (r * k) * 2) + int k) < usize (int (n * k)) \<longleftrightarrow> 2 * r + 1 < n"
    and "2 * r + 1 < n \<Longrightarrow> cint (cint (int (r * k) * 2) + int k) = int ((2 * r + 1) * k)"
proof -
  have nk: "int (n * k) \<le> INT_MAX" using l mult_le_mono1 [OF n, of k] by linarith
  have rk: "int (r * k) + int k \<le> INT_MAX" using l block_in [OF r, of k] by linarith
  have un: "usize (int (n * k)) = int (n * k)" using nk by (intro usize_id) simp_all
  have iff: "int ((2 * r + 1) * k) < int (n * k) \<longleftrightarrow> 2 * r + 1 < n" using k by (simp only: of_nat_less_iff mult_less_cancel2 simp_thms)
  have e: "int (r * k) * 2 + int k = int ((2 * r + 1) * k)" by (simp add: algebra_simps)
  show 1: "usize (cint (int (r * k) * 2) + int k) < usize (int (n * k)) \<longleftrightarrow> 2 * r + 1 < n"
  proof (cases "int (r * k) * 2 \<le> INT_MAX")
    case True
    then have c: "cint (int (r * k) * 2) = int (r * k) * 2" by (intro cint_offset) simp_all
    have "usize (int ((2 * r + 1) * k)) = int ((2 * r + 1) * k)"
      unfolding e [symmetric] usize_def using True rk by (intro mod_pos_pos_trivial) (auto simp: INT_MAX_def)
    then show ?thesis unfolding c e un iff [symmetric] by simp
  next
    case False
    then have "INT_MAX < usize (cint (int (r * k) * 2) + int k)" using rk k by (intro wrapped_offset) simp_all
    moreover have "\<not> int ((2 * r + 1) * k) < int (n * k)" using False nk e by linarith
    ultimately show ?thesis using un nk iff by linarith
  qed
  show "cint (cint (int (r * k) * 2) + int k) = int ((2 * r + 1) * k)" if "2 * r + 1 < n"
    unfolding cint_add e using that iff nk by (intro cint_offset) linarith+
qed

lemma sibling_test:
  assumes "0 < k" "2 * r + 1 < n" "int (n * k) \<le> INT_MAX"
  shows "usize (int ((2 * r + 1) * k)) < usize (int (n * k) - int k) \<longleftrightarrow> 2 * r + 2 < n"
    and "2 * r + 2 < n \<Longrightarrow> cint (int ((2 * r + 1) * k) + int k) = int ((2 * r + 2) * k)"
proof -
  have le: "(2 * r + 1) * k + k \<le> n * k" using block_in [OF assms(2)] .
  have e: "int ((2 * r + 1) * k) + int k = int ((2 * r + 2) * k)" by (simp add: algebra_simps)
  have i: "int ((2 * r + 2) * k) < int (n * k) \<longleftrightarrow> 2 * r + 2 < n" using assms(1) by (simp only: of_nat_less_iff mult_less_cancel2 simp_thms)
  have "usize (int ((2 * r + 1) * k)) = int ((2 * r + 1) * k)" "usize (int (n * k) - int k) = int (n * k) - int k"
    using le assms(3) by (intro usize_id; linarith)+
  then show "usize (int ((2 * r + 1) * k)) < usize (int (n * k) - int k) \<longleftrightarrow> 2 * r + 2 < n" using e i by linarith
  show "cint (int ((2 * r + 1) * k) + int k) = int ((2 * r + 2) * k)" if "2 * r + 2 < n"
    unfolding e using that i assms(3) by (intro cint_offset) linarith+
qed

text \<open>One round of the loop, with a left child.\<close>

lemma sift_mem_step:
  assumes sim: "sim m0 base k m a" and k: "0 < k" and r: "r < length a" and n: "n \<le> length a"
    and l: "int (length a * k) \<le> INT_MAX" and child: "2 * r + 1 < n"
  shows "sift_mem cmp base k (int (n * k)) (int (r * k)) m =
    (if cmp (a ! r) (a ! larger_child cmp a n r) \<ge> 0 then Some m
     else Option.bind (swap_func m (base + r * k) (base + larger_child cmp a n r * k) k)
       (\<lambda>m1. sift_mem cmp base k (int (n * k)) (int (larger_child cmp a n r * k)) m1))"
proof -
  let ?c = "larger_child cmp a n r"
  note ct = child_test [OF k r n l]
  have nk: "int (n * k) \<le> INT_MAX" using l mult_le_mono1 [OF n, of k] by linarith
  note st = sibling_test [OF k child nk]
  have c: "r < ?c" "?c < n" using larger_child_bounds [of r n] child by auto
  have ld: "load m (base + j * k) k = Some (a ! j)" if "j < length a" for j using sim_load [OF sim that] .
  have x: "load m (base + nat (int ((2 * r + 1) * k))) k = Some (a ! (2 * r + 1))"
    using ld [of "2 * r + 1"] child n by (simp only: nat_int)
  have y: "load m (base + nat (int ((2 * r + 1) * k)) + k) k = Some (a ! (2 * r + 2))" if "2 * r + 2 < n"
  proof -
    have "base + nat (int ((2 * r + 1) * k)) + k = base + (2 * r + 2) * k" by (simp only: nat_int) (simp add: algebra_simps)
    then show ?thesis using ld [of "2 * r + 2"] that n by (simp only: nat_int)
  qed
  have rc: "load m (base + nat (int (r * k))) k = Some (a ! r)" "load m (base + nat (int (?c * k))) k = Some (a ! ?c)"
    using ld [of r] ld [of ?c] r n c by (simp_all only: nat_int)
  show ?thesis
  proof (cases "2 * r + 2 < n")
    case sib: True
    have "(if cmp (a ! (2 * r + 1)) (a ! (2 * r + 2)) < 0 then int ((2 * r + 2) * k) else int ((2 * r + 1) * k)) = int (?c * k)"
      using sib by (cases "cmp (a ! (2 * r + 1)) (a ! (2 * r + 2)) < 0") (simp_all only: larger_child_def if_True if_False simp_thms)
    then show ?thesis
      by (subst sift_mem.simps)
        (simp only: ct(1) ct(2) [OF child] child st(1) st(2) [OF sib] sib if_True x [unfolded nat_int] y [OF sib, unfolded nat_int] rc [unfolded nat_int] Let_def bind.bind_lunit simp_thms nat_int)
  next
    case False
    then have "?c = 2 * r + 1" by (simp add: larger_child_def)
    then show ?thesis using rc [unfolded nat_int]
      by (subst sift_mem.simps)
        (simp only: ct(1) ct(2) [OF child] child st(1) False if_True if_False x [unfolded nat_int] Let_def bind.bind_lunit simp_thms nat_int)
  qed
qed

lemma sift_mem_sim:
  assumes "sim m0 base k m a" "0 < k" "r < length a" "n \<le> length a" "int (length a * k) \<le> INT_MAX"
  shows "\<exists>m'. sift_mem cmp base k (int (n * k)) (int (r * k)) m = Some m' \<and> sim m0 base k m' (sift cmp n r a)"
  using assms
proof (induction "n - r" arbitrary: r a m rule: less_induct)
  case less
  note ct = child_test [OF less.prems(2-5)]
  show ?case
  proof (cases "2 * r + 1 < n")
    case False
    then show ?thesis using ct(1) less.prems(1) by (subst sift_mem.simps, subst sift.simps) auto
  next
    case True
    let ?c = "larger_child cmp a n r"
    have c: "r < ?c" "?c < n" using larger_child_bounds [of r n] True by auto
    note eq = sift_mem_step [OF less.prems True, of cmp]
    show ?thesis
    proof (cases "cmp (a ! r) (a ! ?c) \<ge> 0")
      case ge: True
      then have "sift cmp n r a = a" using True by (subst sift.simps) (simp add: Let_def)
      then show ?thesis using eq ge less.prems(1) by simp
    next
      case lt: False
      obtain m1 where m1: "swap_func m (base + r * k) (base + ?c * k) k = Some m1" "sim m0 base k m1 (swap a r ?c)"
        using sim_swap [OF less.prems(1,2), of r ?c] less.prems(3,4) c by auto
      have "sift cmp n r a = sift cmp n ?c (swap a r ?c)" using True lt by (subst sift.simps) (simp add: Let_def)
      moreover have "\<exists>m'. sift_mem cmp base k (int (n * k)) (int (?c * k)) m1 = Some m' \<and> sim m0 base k m' (sift cmp n ?c (swap a r ?c))"
        using less.hyps [OF _ m1(2) less.prems(2)] c less.prems(4,5) by simp
      ultimately show ?thesis using eq lt m1(1) by simp
    qed
  qed
qed

lemma heapify_mem_sim:
  assumes "sim m0 base k m a" "0 < k" "i \<le> length a" "int (length a * k) \<le> INT_MAX" "int k \<le> INT_MAX"
  shows "\<exists>m'. heapify_mem cmp base k (int (length a * k)) ((int i - 1) * int k) m = Some m' \<and> sim m0 base k m' (heapify cmp (length a) i a)"
  using assms
proof (induction i arbitrary: a m)
  case 0
  then show ?case by (subst heapify_mem.simps) auto
next
  case (Suc i)
  have e: "(int (Suc i) - 1) * int k = int (i * k)" by simp
  have "int (i * k) + int k \<le> INT_MAX" using block_in [of i "length a" k] Suc.prems(3,4) by linarith
  then have c: "cint (int (i * k) - int k) = (int i - 1) * int k"
    using Suc.prems(5) by (subst cint_back) (simp_all add: algebra_simps)
  obtain m1 where m1: "sift_mem cmp base k (int (length a * k)) (int (i * k)) m = Some m1" "sim m0 base k m1 (sift cmp (length a) i a)"
    using sift_mem_sim [OF Suc.prems(1,2) _ order_refl Suc.prems(4), of i] Suc.prems(3) by auto
  have len: "length (sift cmp (length a) i a) = length a" using sift_keeps [of i "length a" a cmp] Suc.prems(3) by simp
  have "heapify_mem cmp base k (int (length a * k)) ((int (Suc i) - 1) * int k) m =
      heapify_mem cmp base k (int (length a * k)) ((int i - 1) * int k) m1"
    unfolding e by (subst heapify_mem.simps) (simp only: of_nat_0_le_iff if_True m1(1) bind.bind_lunit c)
  then show ?case using Suc.IH [OF m1(2)] Suc.prems len by simp
qed

lemma sort_loop_mem_sim:
  assumes "sim m0 base k m a" "0 < k" "i < length a" "int (length a * k) \<le> INT_MAX"
  shows "\<exists>m'. sort_loop_mem cmp base k (int (i * k)) m = Some m' \<and> sim m0 base k m' (sort_loop cmp i a)"
  using assms
proof (induction i arbitrary: a m)
  case 0
  then show ?case by (subst sort_loop_mem.simps) auto
next
  case (Suc i)
  let ?b = "swap a 0 (Suc i)"
  have ne: "a \<noteq> []" using Suc.prems(3) by auto
  have "int (Suc i * k) \<le> INT_MAX" using mult_le_mono1 [of "Suc i" "length a" k] Suc.prems(3,4) by linarith
  then have c: "cint (int (Suc i * k) - int k) = int (i * k)" using cint_offset [of "int (i * k)"] by simp
  have pos: "0 < int (Suc i * k)" using Suc.prems(2) by (simp only: of_nat_0_less_iff nat_0_less_mult_iff zero_less_Suc simp_thms)
  obtain m1 where m1: "swap_func m base (base + Suc i * k) k = Some m1" "sim m0 base k m1 ?b"
    using sim_swap [OF Suc.prems(1,2) order.strict_trans [OF zero_less_Suc Suc.prems(3)] Suc.prems(3)] by auto
  obtain m2 where m2: "sift_mem cmp base k (int (Suc i * k)) 0 m1 = Some m2" "sim m0 base k m2 (sift cmp (Suc i) 0 ?b)"
    using sift_mem_sim [OF m1(2) Suc.prems(2), of 0 "Suc i" cmp] Suc.prems(3,4) ne by auto
  have len: "length (sift cmp (Suc i) 0 ?b) = length a" using sift_keeps [of 0 "Suc i" ?b cmp] Suc.prems(3) by simp
  have "sort_loop_mem cmp base k (int (Suc i * k)) m = sort_loop_mem cmp base k (int (i * k)) m2"
    using m2(1) by (subst sort_loop_mem.simps) (simp only: pos if_True nat_int m1(1) bind.bind_lunit c mult_0 of_nat_0)
  then show ?case using Suc.IH [OF m2(2) Suc.prems(2)] Suc.prems(3,4) len by simp
qed

lemma sort_mem_sim:
  assumes "sim m0 base k m a" "0 < k" "int (length a * k) \<le> INT_MAX" "int k \<le> INT_MAX"
  shows "\<exists>m'. sort_mem cmp base (length a) k m = Some m' \<and> sim m0 base k m' (heap_sort cmp a)"
proof -
  have h: "int (length a div 2 * k) \<le> INT_MAX" using assms(3) mult_le_mono1 [of "length a div 2" "length a" k] by linarith
  have i: "cint ((int (length a div 2) - 1) * int k) = (int (length a div 2) - 1) * int k"
    using cint_back [OF _ h _ assms(4)] by (simp add: algebra_simps)
  have n: "cint (int (length a) * int k) = int (length a * k)" using cint_offset [of "int (length a * k)"] assms(3) by simp
  obtain m1 where m1: "heapify_mem cmp base k (int (length a * k)) ((int (length a div 2) - 1) * int k) m = Some m1"
    "sim m0 base k m1 (heapify cmp (length a) (length a div 2) a)"
    using heapify_mem_sim [OF assms(1,2) _ assms(3,4), of "length a div 2" cmp] by auto
  have eq: "sort_mem cmp base (length a) k m = sort_loop_mem cmp base k (cint (int (length a * k) - int k)) m1"
    unfolding sort_mem_def Let_def i n m1(1) by (simp only: bind.bind_lunit)
  show ?thesis
  proof (cases "a = []")
    case True
    then have "cint (int (length a * k) - int k) = - int k" using assms(4) by (simp add: in_cint_def INT_MIN_def INT_MAX_def)
    then show ?thesis using eq m1(2) True by (subst (asm) sort_loop_mem.simps) (simp add: heap_sort_def)
  next
    case False
    then obtain l where l: "length a = Suc l" by (cases a) auto
    have hl: "length (heapify cmp n j b) = length b" if "j \<le> n" "n \<le> length b" for n j and b :: "u8 list list"
      using that
    proof (induction j arbitrary: b)
      case (Suc j)
      then show ?case using sift_keeps [of j n b cmp] by simp
    qed simp
    have len: "length (heapify cmp (length a) (length a div 2) a) = length a" by (rule hl) simp_all
    have "cint (int (length a * k) - int k) = int (l * k)" using assms(3) l cint_offset [of "int (l * k)"] by simp
    then show ?thesis using sort_loop_mem_sim [OF m1(2) assms(2), of l cmp] assms(3) len l eq by (simp add: heap_sort_def algebra_simps)
  qed
qed

text \<open>
  C38: \<^verbatim>\<open>sort\<close> sorts. For any comparison function that orders the elements (reversing the arguments reverses the sign, and the
  order is transitive), any element size and any number of elements with at most \<^verbatim>\<open>INT_MAX\<close> bytes in all, the
  call returns, the elements in memory are then in ascending order and are a permutation of the
  elements before, and no byte outside of the array has changed. The pre-scaled \<^verbatim>\<open>int\<close> counters do no harm: even
  where \<^verbatim>\<open>r * 2\<close> overflows, the mixed comparison with the unsigned size ends the loop as it should.
\<close>

theorem sort_sorts:
  assumes "\<forall>x y. (cmp x y \<le> 0) = (0 \<le> cmp y x)" "\<forall>x y z. cmp x y \<le> 0 \<longrightarrow> cmp y z \<le> 0 \<longrightarrow> cmp x z \<le> 0"
    and "0 < k" "int k \<le> INT_MAX" "int (num * k) \<le> INT_MAX" "mapped m base (num * k)"
  shows "\<exists>m'. sort_mem cmp base num k m = Some m' \<and> sorted_wrt (\<lambda>x y. cmp x y \<le> 0) (elems m' base k num)
    \<and> mset (elems m' base k num) = mset (elems m base k num) \<and> (\<forall>q. q < base \<or> base + num * k \<le> q \<longrightarrow> m' q = m q)"
proof -
  let ?a = "elems m base k num"
  have "sim m base k m ?a" using assms(6) by (simp add: sim_def)
  then obtain m' where m': "sort_mem cmp base num k m = Some m'" "sim m base k m' (heap_sort cmp ?a)"
    using sort_mem_sim [of m base k m ?a cmp] assms(3-5) by auto
  have s: "sorted_wrt (\<lambda>x y. cmp x y \<le> 0) (heap_sort cmp ?a)" "mset (heap_sort cmp ?a) = mset ?a"
    using comparison.heap_sort_sorts [of cmp ?a] assms(1,2) by (simp_all add: comparison_def)
  have "length (heap_sort cmp ?a) = num" using mset_eq_length [OF s(2)] by simp
  then show ?thesis using m' s by (auto simp: sim_def)
qed

theorem sort_sorts_witness:
  "\<exists>m'. sort_mem (\<lambda>x y. uint (hd x) - uint (hd y)) 10 3 1 [10 \<mapsto> 3, 11 \<mapsto> 1, 12 \<mapsto> 2, 13 \<mapsto> 0] = Some m'
    \<and> sorted_wrt (\<lambda>x y. uint (hd x) - uint (hd y) \<le> 0) (elems m' 10 1 3) \<and> mset (elems m' 10 1 3) = {#[1], [2], [3]#} \<and> m' 13 = Some 0"
proof -
  let ?m = "[10 \<mapsto> 3, 11 \<mapsto> 1, 12 \<mapsto> 2, 13 \<mapsto> 0] :: mem"
  have "mapped ?m 10 (3 * 1)" by (auto simp: mapped_def)
  moreover have "mset (elems ?m 10 1 3) = {#[1], [2], [3]#}"
    by (simp add: elems_def chunk_def upt_rec [of _ 3] numeral_3_eq_3 add_mset_commute)
  ultimately show ?thesis
    using sort_sorts [of "\<lambda>x y. uint (hd x) - uint (hd y)" 1 3 ?m 10] by (auto simp: INT_MAX_def)
qed

end
