(* ===== verification/Extable.thy ===== *)
theory Extable
  imports Heap_Sort
begin

unbundle bit_operations_syntax

text \<open>
  The exception tables, by which a fault in a copy from or to user memory is repaired: lib/extable.c sorts a table,
  arch/x86/mm/extable.c searches it and resumes at the fix-up, kernel/extable.c and kernel/module.c choose the table.
  A table lies in the byte memory of \<^theory_text>\<open>String_Lib\<close>; an entry is 16 bytes, the two little-endian words \<^verbatim>\<open>insn\<close> and
  \<^verbatim>\<open>fixup\<close>. Addresses of entries are integers, because \<^verbatim>\<open>last\<close> may point below the table.
\<close>

section \<open>Entries and sorting\<close>

definition le_word :: "u8 list \<Rightarrow> u64" where
  "le_word bs = foldr (\<lambda>b w. w * 256 + ucast b) bs 0"

definition insn :: "u8 list \<Rightarrow> u64" where
  "insn e = le_word (take 8 e)"

definition fixup :: "u8 list \<Rightarrow> u64" where
  "fixup e = le_word (take 8 (drop 8 e))"

definition cmp_ex :: cmp_func where
  "cmp_ex x y = (if insn x > insn y then 1 else if insn x < insn y then - 1 else 0)"

definition sort_extable :: "nat \<Rightarrow> nat \<Rightarrow> mem \<Rightarrow> mem option" where
  "sort_extable start finish m = sort_mem cmp_ex start ((finish - start) div 16) 16 m"

interpretation ex: comparison cmp_ex
  by unfold_locales (auto simp: cmp_ex_def split: if_splits)

section \<open>Searching\<close>

text \<open>\<^term>\<open>Some None\<close> is the null pointer.\<close>

function search_loop :: "mem \<Rightarrow> u64 \<Rightarrow> int \<Rightarrow> int \<Rightarrow> int option option" where
  "search_loop m val first lst =
     (if first \<le> lst then
        let mid = (lst - first) div 16 div 2 * 16 + first
        in Option.bind (load m (nat mid) 16) (\<lambda>e.
             let diff = sint (insn e - val)
             in if diff = 0 then Some (Some mid)
                else if diff < 0 then search_loop m val (mid + 16) lst
                else search_loop m val first (mid - 16))
      else Some None)"
  by pat_completeness auto
termination by (relation "measure (\<lambda>(_, _, first, lst). nat (lst - first + 16))") auto

declare search_loop.simps [simp del]

definition search_extable :: "mem \<Rightarrow> int \<Rightarrow> int \<Rightarrow> u64 \<Rightarrow> int option option" where
  "search_extable m first lst val =
     search_loop m (if drop_bit 32 val = 0 then val OR push_bit 32 0xffffffff else val) first lst"

text \<open>The tables of the modules: address and number of entries.\<close>

fun search_module_extables :: "mem \<Rightarrow> (int \<times> nat) list \<Rightarrow> u64 \<Rightarrow> int option option" where
  "search_module_extables m [] addr = Some None"
| "search_module_extables m ((extable, num) # mods) addr =
     (if num = 0 then search_module_extables m mods addr
      else Option.bind (search_extable m extable (extable + int num * 16 - 16) addr) (\<lambda>e.
        case e of Some p \<Rightarrow> Some (Some p) | None \<Rightarrow> search_module_extables m mods addr))"

definition search_exception_tables :: "mem \<Rightarrow> nat \<Rightarrow> nat \<Rightarrow> (int \<times> nat) list \<Rightarrow> u64 \<Rightarrow> int option option" where
  "search_exception_tables m start stop mods addr =
     Option.bind (search_extable m (int start) (int stop - 16) addr) (\<lambda>e.
       case e of Some p \<Rightarrow> Some (Some p) | None \<Rightarrow> search_module_extables m mods addr)"

text \<open>\<^verbatim>\<open>regs->ip\<close> and \<^verbatim>\<open>uaccess_err\<close> of the current thread; the result is whether the fault was repaired.\<close>

record fault =
  ip :: u64
  uaccess_err :: int

definition fixup_exception :: "mem \<Rightarrow> nat \<Rightarrow> nat \<Rightarrow> (int \<times> nat) list \<Rightarrow> fault \<Rightarrow> (fault \<times> int) option" where
  "fixup_exception m start stop mods f =
     Option.bind (search_exception_tables m start stop mods (ip f)) (\<lambda>r. case r of
       Some p \<Rightarrow> Option.bind (load m (nat p) 16) (\<lambda>e.
         if fixup e < 16 then Some (f\<lparr>uaccess_err := - EFAULT, ip := ip f + fixup e\<rparr>, 1)
         else Some (f\<lparr>ip := fixup e\<rparr>, 1))
     | None \<Rightarrow> Some (f, 0))"

section \<open>Module tables without the entries of the initialisation code\<close>

record module =
  extable :: nat
  num_exentries :: nat
  module_init :: nat
  init_size :: nat

definition within_module_init :: "u64 \<Rightarrow> module \<Rightarrow> bool" where
  "within_module_init addr mo \<longleftrightarrow> module_init mo \<le> unat addr \<and> unat addr < module_init mo + init_size mo"

function trim_begin :: "mem \<Rightarrow> module \<Rightarrow> module option" where
  "trim_begin m mo =
     (if num_exentries mo = 0 then Some mo
      else Option.bind (load m (extable mo) 16) (\<lambda>e.
        if within_module_init (insn e) mo
        then trim_begin m (mo\<lparr>extable := extable mo + 16, num_exentries := num_exentries mo - 1\<rparr>)
        else Some mo))"
  by pat_completeness auto
termination by (relation "measure (\<lambda>(_, mo). num_exentries mo)") auto

function trim_end :: "mem \<Rightarrow> module \<Rightarrow> module option" where
  "trim_end m mo =
     (if num_exentries mo = 0 then Some mo
      else Option.bind (load m (extable mo + (num_exentries mo - 1) * 16) 16) (\<lambda>e.
        if within_module_init (insn e) mo then trim_end m (mo\<lparr>num_exentries := num_exentries mo - 1\<rparr>) else Some mo))"
  by pat_completeness auto
termination by (relation "measure (\<lambda>(_, mo). num_exentries mo)") auto

declare trim_begin.simps [simp del] trim_end.simps [simp del]

definition trim_init_extable :: "mem \<Rightarrow> module \<Rightarrow> module option" where
  "trim_init_extable m mo = Option.bind (trim_begin m mo) (trim_end m)"

section \<open>The search finds what is there\<close>

text \<open>Addresses of kernel code have the top bit set; the difference of two of them has the sign of the comparison.\<close>

definition kernel_address :: "u64 \<Rightarrow> bool" where
  "kernel_address v \<longleftrightarrow> 9223372036854775808 \<le> uint v"

lemma sint_diff:
  assumes "kernel_address v" "kernel_address w"
  shows "sint (v - w) < 0 \<longleftrightarrow> v < w"
proof -
  have b: "9223372036854775808 \<le> uint v" "9223372036854775808 \<le> uint w" "uint v < 18446744073709551616" "uint w < 18446744073709551616"
    using assms uint_lt2p [of v] uint_lt2p [of w] by (simp_all add: kernel_address_def)
  have "sint (v - w) = sint (word_of_int (uint v - uint w) :: u64)" by simp
  also have "\<dots> = uint v - uint w" using b by (subst int_word_sint) (simp add: mod_pos_pos_trivial)
  finally show ?thesis by (simp add: word_less_def)
qed

lemma elems_load: "mapped m base (n * 16) \<Longrightarrow> j < n \<Longrightarrow> load m (base + j * 16) 16 = Some (elems m base 16 n ! j)"
  using sim_load [of m base 16 m "elems m base 16 n" j] by (simp add: sim_def)

lemma search_loop_step:
  fixes m base n
  defines "es \<equiv> elems m base 16 n"
  assumes mp: "mapped m base (n * 16)" and "lo < hi" "hi \<le> n" and k: "k = lo + (hi - lo - 1) div 2"
  shows "search_loop m v (int base + int lo * 16) (int base + int hi * 16 - 16) =
    (let d = sint (insn (es ! k) - v) in
     if d = 0 then Some (Some (int (base + k * 16)))
     else if d < 0 then search_loop m v (int base + int (Suc k) * 16) (int base + int hi * 16 - 16)
     else search_loop m v (int base + int lo * 16) (int base + int k * 16 - 16))"
proof -
  have "int base + int hi * 16 - 16 - (int base + int lo * 16) = int (hi - lo - 1) * 16" using \<open>lo < hi\<close> by simp
  then have mid: "(int base + int hi * 16 - 16 - (int base + int lo * 16)) div 16 div 2 * 16 + (int base + int lo * 16) = int (base + k * 16)"
    by (simp add: k zdiv_int)
  have le: "int base + int lo * 16 \<le> int base + int hi * 16 - 16" using \<open>lo < hi\<close> by simp
  have "k < n" using \<open>lo < hi\<close> \<open>hi \<le> n\<close> by (auto simp: k)
  then have ld: "load m (base + k * 16) 16 = Some (es ! k)" using elems_load [OF mp] by (simp add: es_def)
  have e: "int (base + k * 16) + 16 = int base + int (Suc k) * 16" "int (base + k * 16) - 16 = int base + int k * 16 - 16" by simp_all
  show ?thesis by (subst search_loop.simps) (simp only: le mid ld Let_def if_True nat_int bind.bind_lunit e)
qed

text \<open>In a sorted table the sign of the difference tells on which side of an entry the address is.\<close>

lemma search_side:
  assumes srt: "sorted_wrt (\<lambda>x y. cmp_ex x y \<le> 0) es" and ker: "\<forall>e \<in> set es. kernel_address (insn e)"
    and k: "k < length es" and j: "j < length es" "insn (es ! j) = v"
  shows "sint (insn (es ! k) - v) < 0 \<Longrightarrow> k < j" "0 < sint (insn (es ! k) - v) \<Longrightarrow> j < k"
proof -
  have ord: "insn (es ! a) \<le> insn (es ! b)" if "a \<le> b" "b < length es" for a b
    using sorted_wrt_nth_less [OF srt, of a b] that by (cases "a = b") (auto simp: cmp_ex_def split: if_splits)
  have "kernel_address (insn (es ! k))" "kernel_address v" using ker k j by (simp, metis nth_mem)
  note d = sint_diff [OF this]
  show "k < j" if "sint (insn (es ! k) - v) < 0" using ord [of j k] k j that d by (cases "k < j") simp_all
  show "j < k" if "0 < sint (insn (es ! k) - v)"
  proof (rule ccontr)
    assume "\<not> j < k"
    then have "insn (es ! k) \<le> v" using ord [of k j] j by simp
    moreover have "insn (es ! k) \<noteq> v" using that by auto
    ultimately show False using that d by (simp add: le_less)
  qed
qed

lemma search_loop_spec:
  fixes m base n
  defines "es \<equiv> elems m base 16 n"
  assumes mp: "mapped m base (n * 16)" and srt: "sorted_wrt (\<lambda>x y. cmp_ex x y \<le> 0) es" and ker: "\<forall>e \<in> set es. kernel_address (insn e)"
    and "lo \<le> hi" "hi \<le> n" "\<forall>j < n. insn (es ! j) = v \<longrightarrow> lo \<le> j \<and> j < hi"
  shows "\<exists>r. search_loop m v (int base + int lo * 16) (int base + int hi * 16 - 16) = Some r \<and>
    (case r of None \<Rightarrow> \<forall>j < n. insn (es ! j) \<noteq> v | Some p \<Rightarrow> \<exists>j < n. p = int (base + j * 16) \<and> insn (es ! j) = v)"
  using assms(5-7)
proof (induction "hi - lo" arbitrary: lo hi rule: less_induct)
  case less
  show ?case
  proof (cases "lo = hi")
    case True
    then show ?thesis using less.prems(3) by (subst search_loop.simps) auto
  next
    case False
    define k where "k = lo + (hi - lo - 1) div 2"
    have k: "lo \<le> k" "k < hi" "k < n" using False less.prems(1,2) by (auto simp: k_def)
    have len: "length es = n" by (simp add: es_def)
    let ?d = "sint (insn (es ! k) - v)"
    have eq: "search_loop m v (int base + int lo * 16) (int base + int hi * 16 - 16) =
      (if ?d = 0 then Some (Some (int (base + k * 16)))
       else if ?d < 0 then search_loop m v (int base + int (Suc k) * 16) (int base + int hi * 16 - 16)
       else search_loop m v (int base + int lo * 16) (int base + int k * 16 - 16))"
      using search_loop_step [OF mp _ less.prems(2) k_def] False less.prems(1) by (simp only: Let_def es_def le_neq_implies_less)
    note side = search_side [OF srt ker, of k, unfolded len, OF k(3)]
    consider "?d = 0" | "?d < 0" | "0 < ?d" by linarith
    then show ?thesis
    proof cases
      case 1
      then have "insn (es ! k) = v" by (simp add: signed_eq_0_iff)
      then show ?thesis using eq 1 k(3) by auto
    next
      case 2
      then have "Suc k \<le> j" if "j < n" "insn (es ! j) = v" for j using side(1) [OF that] by simp
      then show ?thesis using less.hyps [of hi "Suc k"] k less.prems eq 2 by auto
    next
      case 3
      then have "j < k" if "j < n" "insn (es ! j) = v" for j using side(2) [OF that] by simp
      then show ?thesis using less.hyps [of k lo] k less.prems eq 3 by auto
    qed
  qed
qed

text \<open>On the address the code searches for, after the work-around for a processor fault.\<close>

definition searched :: "u64 \<Rightarrow> u64" where
  "searched v = (if drop_bit 32 v = 0 then v OR push_bit 32 0xffffffff else v)"

lemma search_extable_spec:
  assumes "mapped m base (n * 16)" "sorted_wrt (\<lambda>x y. cmp_ex x y \<le> 0) (elems m base 16 n)"
    "\<forall>e \<in> set (elems m base 16 n). kernel_address (insn e)"
  shows "\<exists>r. search_extable m (int base) (int (base + n * 16) - 16) v = Some r \<and>
    (case r of None \<Rightarrow> \<forall>e \<in> set (elems m base 16 n). insn e \<noteq> searched v
     | Some p \<Rightarrow> \<exists>j < n. p = int (base + j * 16) \<and> insn (elems m base 16 n ! j) = searched v)"
proof -
  let ?es = "elems m base 16 n"
  have "search_extable m (int base) (int (base + n * 16) - 16) v = search_loop m (searched v) (int base + int 0 * 16) (int base + int n * 16 - 16)"
    by (simp add: search_extable_def searched_def)
  moreover obtain r where r: "search_loop m (searched v) (int base + int 0 * 16) (int base + int n * 16 - 16) = Some r"
    "case r of None \<Rightarrow> \<forall>j < n. insn (?es ! j) \<noteq> searched v | Some p \<Rightarrow> \<exists>j < n. p = int (base + j * 16) \<and> insn (?es ! j) = searched v"
    using search_loop_spec [OF assms, of 0 n "searched v"] by blast
  moreover have "(\<forall>e \<in> set ?es. insn e \<noteq> searched v) \<longleftrightarrow> (\<forall>j < n. insn (?es ! j) \<noteq> searched v)"
    by (metis elems_nth(2) in_set_conv_nth)
  ultimately show ?thesis by (cases r) auto
qed

lemma trim_begin_spec:
  assumes "mapped m base ((a + n) * 16)" "mo = \<lparr>extable = base + a * 16, num_exentries = n, module_init = i, init_size = z\<rparr>"
  shows "\<exists>b \<le> n. trim_begin m mo = Some (mo\<lparr>extable := base + (a + b) * 16, num_exentries := n - b\<rparr>)
    \<and> (\<forall>j < b. within_module_init (insn (elems m base 16 (a + n) ! (a + j))) mo)
    \<and> (b < n \<longrightarrow> \<not> within_module_init (insn (elems m base 16 (a + n) ! (a + b))) mo)"
  using assms
proof (induction n arbitrary: a mo)
  case 0
  then show ?case by (subst trim_begin.simps) simp
next
  case (Suc n)
  let ?e = "elems m base 16 (a + Suc n)"
  have ld: "load m (base + a * 16) 16 = Some (?e ! a)" using elems_load [OF Suc.prems(1), of a] by simp
  show ?case
  proof (cases "within_module_init (insn (?e ! a)) mo")
    case True
    let ?mo = "mo\<lparr>extable := base + Suc a * 16, num_exentries := n\<rparr>"
    have w: "within_module_init x ?mo = within_module_init x mo" for x by (simp add: within_module_init_def)
    have "trim_begin m mo = trim_begin m ?mo" using True ld Suc.prems(2) by (subst trim_begin.simps) (simp add: algebra_simps)
    moreover obtain b where b: "b \<le> n" "trim_begin m ?mo = Some (?mo\<lparr>extable := base + (Suc a + b) * 16, num_exentries := n - b\<rparr>)"
      "\<forall>j < b. within_module_init (insn (?e ! (Suc a + j))) mo" "b < n \<longrightarrow> \<not> within_module_init (insn (?e ! (Suc a + b))) mo"
      using Suc.IH [of "Suc a" ?mo] Suc.prems w by auto
    moreover have "within_module_init (insn (?e ! (a + j))) mo" if "j < Suc b" for j
      using that b(3) True by (cases j) auto
    ultimately show ?thesis using b(4) by (intro exI [of _ "Suc b"]) auto
  next
    case False
    then have "trim_begin m mo = Some mo" using ld Suc.prems(2) by (subst trim_begin.simps) simp
    then show ?thesis using False Suc.prems(2) by (intro exI [of _ 0]) auto
  qed
qed

lemma trim_end_spec:
  assumes "mapped m base (n * 16)" "mo = \<lparr>extable = base, num_exentries = n, module_init = i, init_size = z\<rparr>"
  shows "\<exists>b \<le> n. trim_end m mo = Some (mo\<lparr>num_exentries := b\<rparr>)
    \<and> (\<forall>j. b \<le> j \<and> j < n \<longrightarrow> within_module_init (insn (elems m base 16 n ! j)) mo)
    \<and> (0 < b \<longrightarrow> \<not> within_module_init (insn (elems m base 16 n ! (b - 1))) mo)"
  using assms
proof (induction n arbitrary: mo)
  case 0
  then show ?case by (subst trim_end.simps) simp
next
  case (Suc n)
  let ?e = "elems m base 16 (Suc n)" and ?mo = "mo\<lparr>num_exentries := n\<rparr>"
  have ld: "load m (base + n * 16) 16 = Some (?e ! n)" using elems_load [OF Suc.prems(1), of n] by simp
  have e: "elems m base 16 n ! j = ?e ! j" if "j < n" for j using that by simp
  show ?case
  proof (cases "within_module_init (insn (?e ! n)) mo")
    case True
    have w: "within_module_init x ?mo = within_module_init x mo" for x by (simp add: within_module_init_def)
    have "mapped m base (n * 16)" using Suc.prems(1) by (simp add: mapped_def)
    from Suc.IH [OF this, of ?mo, unfolded w] have ih: "\<exists>b \<le> n. trim_end m ?mo = Some (?mo\<lparr>num_exentries := b\<rparr>)
        \<and> (\<forall>j. b \<le> j \<and> j < n \<longrightarrow> within_module_init (insn (elems m base 16 n ! j)) mo)
        \<and> (0 < b \<longrightarrow> \<not> within_module_init (insn (elems m base 16 n ! (b - 1))) mo)" using Suc.prems(2) by simp
    have "trim_end m mo = trim_end m ?mo" using True ld Suc.prems(2) by (subst trim_end.simps) simp
    moreover obtain b where b: "b \<le> n" "trim_end m ?mo = Some (?mo\<lparr>num_exentries := b\<rparr>)"
      "\<forall>j. b \<le> j \<and> j < n \<longrightarrow> within_module_init (insn (elems m base 16 n ! j)) mo"
      "0 < b \<longrightarrow> \<not> within_module_init (insn (elems m base 16 n ! (b - 1))) mo"
      using ih by blast
    moreover have "within_module_init (insn (?e ! j)) mo" if "b \<le> j" "j < Suc n" for j
      using that b(3) True e by (cases "j = n") auto
    moreover have "0 < b \<longrightarrow> \<not> within_module_init (insn (?e ! (b - 1))) mo" using b(1,4) e by (cases b) auto
    ultimately show ?thesis by (intro exI [of _ b]) auto
  next
    case False
    then have "trim_end m mo = Some mo" using ld Suc.prems(2) by (subst trim_end.simps) simp
    then show ?thesis using False Suc.prems(2) by (intro exI [of _ "Suc n"]) auto
  qed
qed

text \<open>Trimming removes entries of the initialisation code only, and if those all lie on one side of the other
  entries of a sorted table, as the comment in the code says, it removes them all.\<close>

lemma trim_init_extable_spec:
  assumes mp: "mapped m base (n * 16)" and mo: "mo = \<lparr>extable = base, num_exentries = n, module_init = i, init_size = z\<rparr>"
  defines "init \<equiv> \<lambda>j. within_module_init (insn (elems m base 16 n ! j)) mo"
  shows "\<exists>b c. b \<le> c \<and> c \<le> n \<and> trim_init_extable m mo = Some (mo\<lparr>extable := base + b * 16, num_exentries := c - b\<rparr>)
    \<and> (\<forall>j < n. j < b \<or> c \<le> j \<longrightarrow> init j) \<and> (b < c \<longrightarrow> \<not> init b \<and> \<not> init (c - 1))"
proof -
  obtain b where b: "b \<le> n" "trim_begin m mo = Some (mo\<lparr>extable := base + b * 16, num_exentries := n - b\<rparr>)"
    "\<forall>j < b. init j" "b < n \<longrightarrow> \<not> init b"
    using trim_begin_spec [of m base 0 n mo i z] mp mo by (auto simp: init_def simp del: elems_nth(1))
  let ?mo = "mo\<lparr>extable := base + b * 16, num_exentries := n - b\<rparr>" and ?es = "elems m (base + b * 16) 16 (n - b)"
  have mp': "mapped m (base + b * 16) ((n - b) * 16)" using mp b(1) by (simp add: mapped_def diff_mult_distrib)
  have w: "within_module_init x ?mo = within_module_init x mo" for x by (simp add: within_module_init_def)
  have nth: "within_module_init (insn (?es ! j)) mo = init (b + j)" if "j < n - b" for j
    using that b(1) by (simp add: init_def algebra_simps)
  obtain c where c: "c \<le> n - b" "trim_end m ?mo = Some (?mo\<lparr>num_exentries := c\<rparr>)"
    "\<forall>j. c \<le> j \<and> j < n - b \<longrightarrow> within_module_init (insn (?es ! j)) mo" "0 < c \<longrightarrow> \<not> within_module_init (insn (?es ! (c - 1))) mo"
    using trim_end_spec [OF mp', of ?mo i z, unfolded w] mo by (auto simp del: elems_nth(1))
  have "init j" if "j < n" "j < b \<or> b + c \<le> j" for j
  proof (cases "j < b")
    case False
    then show ?thesis using that c(3) nth [of "j - b"] by (auto dest: spec [of _ "j - b"])
  qed (use b(3) in simp)
  moreover have "\<not> init b \<and> \<not> init (b + c - 1)" if "0 < c" using that b(4) c(1,4) nth [of "c - 1"] by simp
  ultimately show ?thesis using b(1,2) c(1,2)
    by (intro exI [of _ b] exI [of _ "b + c"]) (simp add: trim_init_extable_def)
qed


text \<open>A table of two entries, in the wrong order: the second one skips four bytes.\<close>

definition demo_entries :: "u8 list list" where
  "demo_entries = [[0x10, 0, 0, 0x81, 0xff, 0xff, 0xff, 0xff, 0, 1, 0, 0x81, 0xff, 0xff, 0xff, 0xff],
     [0, 0, 0, 0x81, 0xff, 0xff, 0xff, 0xff, 4, 0, 0, 0, 0, 0, 0, 0]]"

definition demo_table :: mem where
  "demo_table q = (if q < 32 then Some (concat demo_entries ! q) else None)"

lemma demo_table_facts:
  "mapped demo_table 0 (2 * 16)" "elems demo_table 0 16 2 = demo_entries"
  "map insn demo_entries = [0xffffffff81000010, 0xffffffff81000000]" "map fixup demo_entries = [0xffffffff81000100, 4]"
  by (simp add: mapped_def demo_table_def) code_simp+


end
