(* ===== verification/Rbtree.thy ===== *)
theory Rbtree
  imports Prelude
begin

unbundle bit_operations_syntax

text \<open>
  The red-black trees of lib/rbtree.c and include/linux/rbtree.h: the nodes with their packed word of parent address and
  colour, and every operation. A tree is a partial map from addresses to nodes and the pointer of its
  \<^verbatim>\<open>struct rb_root\<close>; the null pointer is 0. The loops are partial functions, since on a damaged tree they may
  run forever. The operations that the code writes twice, with left and right exchanged, are mirror images of each other, which
  \<open>Rbtree_Heap\<close> uses.
\<close>

section \<open>Nodes\<close>

record rb_node =
  rb_parent_color :: u64
  rb_right :: u64
  rb_left :: u64

definition RB_RED :: u64 where "RB_RED = 0"
definition RB_BLACK :: u64 where "RB_BLACK = 1"

definition rb_parent :: "rb_node \<Rightarrow> u64" where
  "rb_parent n = rb_parent_color n AND NOT 3"

definition rb_color :: "rb_node \<Rightarrow> u64" where
  "rb_color n = rb_parent_color n AND 1"

definition rb_is_red :: "rb_node \<Rightarrow> bool" where
  "rb_is_red n \<longleftrightarrow> rb_color n = 0"

definition rb_set_red :: "rb_node \<Rightarrow> rb_node" where
  "rb_set_red n = n\<lparr>rb_parent_color := rb_parent_color n AND NOT 1\<rparr>"

definition rb_set_black :: "rb_node \<Rightarrow> rb_node" where
  "rb_set_black n = n\<lparr>rb_parent_color := rb_parent_color n OR 1\<rparr>"

definition rb_set_parent :: "u64 \<Rightarrow> rb_node \<Rightarrow> rb_node" where
  "rb_set_parent p n = n\<lparr>rb_parent_color := (rb_parent_color n AND 3) OR p\<rparr>"

definition rb_set_color :: "u64 \<Rightarrow> rb_node \<Rightarrow> rb_node" where
  "rb_set_color c n = n\<lparr>rb_parent_color := (rb_parent_color n AND NOT 1) OR c\<rparr>"

abbreviation set_left :: "u64 \<Rightarrow> rb_node \<Rightarrow> rb_node" where
  "set_left x n \<equiv> n\<lparr>rb_left := x\<rparr>"

abbreviation set_right :: "u64 \<Rightarrow> rb_node \<Rightarrow> rb_node" where
  "set_right x n \<equiv> n\<lparr>rb_right := x\<rparr>"

section \<open>Memory\<close>

record rb_state =
  rb_nodes :: "u64 \<rightharpoonup> rb_node"
  rb_top :: u64

definition rbn :: "rb_state \<Rightarrow> u64 \<Rightarrow> rb_node option" where
  "rbn s a = (if a = 0 then None else rb_nodes s a)"

definition upd_rb :: "rb_state \<Rightarrow> u64 \<Rightarrow> (rb_node \<Rightarrow> rb_node) \<Rightarrow> rb_state option" where
  "upd_rb s a f = map_option (\<lambda>n. s\<lparr>rb_nodes := (rb_nodes s)(a \<mapsto> f n)\<rparr>) (rbn s a)"

text \<open>The test \<^verbatim>\<open>p && rb_is_red(p)\<close>; its negation is \<^verbatim>\<open>!p || rb_is_black(p)\<close>.\<close>

definition red_at :: "rb_state \<Rightarrow> u64 \<Rightarrow> bool option" where
  "red_at s p = (if p = 0 then Some False else map_option rb_is_red (rbn s p))"

text \<open>The statement that puts \<open>new\<close> in the place of the child \<open>old\<close> of \<open>parent\<close>, or at the root: the test asks for the left
  child first, or for the right one.\<close>

definition relink_left :: "rb_state \<Rightarrow> u64 \<Rightarrow> u64 \<Rightarrow> u64 \<Rightarrow> rb_state option" where
  "relink_left s parent old new =
     (if parent \<noteq> 0 then do {
        pn \<leftarrow> rbn s parent;
        if old = rb_left pn then upd_rb s parent (set_left new) else upd_rb s parent (set_right new) }
      else Some (s\<lparr>rb_top := new\<rparr>))"

definition relink_right :: "rb_state \<Rightarrow> u64 \<Rightarrow> u64 \<Rightarrow> u64 \<Rightarrow> rb_state option" where
  "relink_right s parent old new =
     (if parent \<noteq> 0 then do {
        pn \<leftarrow> rbn s parent;
        if old = rb_right pn then upd_rb s parent (set_right new) else upd_rb s parent (set_left new) }
      else Some (s\<lparr>rb_top := new\<rparr>))"

text \<open>\<^verbatim>\<open>if (child) rb_set_parent(child, parent)\<close>.\<close>

definition adopt :: "rb_state \<Rightarrow> u64 \<Rightarrow> u64 \<Rightarrow> rb_state option" where
  "adopt s child parent = (if child \<noteq> 0 then upd_rb s child (rb_set_parent parent) else Some s)"

section \<open>Rotations\<close>

definition rb_rotate_left :: "rb_state \<Rightarrow> u64 \<Rightarrow> rb_state option" where
  "rb_rotate_left s node = do {
     n \<leftarrow> rbn s node;
     let right = rb_right n;
     let parent = rb_parent n;
     rn \<leftarrow> rbn s right;
     s1 \<leftarrow> upd_rb s node (set_right (rb_left rn));
     rn1 \<leftarrow> rbn s1 right;
     s2 \<leftarrow> (if rb_left rn \<noteq> 0 then upd_rb s1 (rb_left rn1) (rb_set_parent node) else Some s1);
     s3 \<leftarrow> upd_rb s2 right (set_left node);
     s4 \<leftarrow> upd_rb s3 right (rb_set_parent parent);
     s5 \<leftarrow> relink_left s4 parent node right;
     upd_rb s5 node (rb_set_parent right) }"

definition rb_rotate_right :: "rb_state \<Rightarrow> u64 \<Rightarrow> rb_state option" where
  "rb_rotate_right s node = do {
     n \<leftarrow> rbn s node;
     let left = rb_left n;
     let parent = rb_parent n;
     ln \<leftarrow> rbn s left;
     s1 \<leftarrow> upd_rb s node (set_left (rb_right ln));
     ln1 \<leftarrow> rbn s1 left;
     s2 \<leftarrow> (if rb_right ln \<noteq> 0 then upd_rb s1 (rb_right ln1) (rb_set_parent node) else Some s1);
     s3 \<leftarrow> upd_rb s2 left (set_right node);
     s4 \<leftarrow> upd_rb s3 left (rb_set_parent parent);
     s5 \<leftarrow> relink_right s4 parent node left;
     upd_rb s5 node (rb_set_parent left) }"

section \<open>Insertion\<close>

datatype rb_link = Link_root | Link_left u64 | Link_right u64

text \<open>The pointer to a pointer that the caller of \<^verbatim>\<open>rb_link_node\<close> passes, and the accesses through it.\<close>

fun store_link :: "rb_state \<Rightarrow> rb_link \<Rightarrow> u64 \<Rightarrow> rb_state option" where
  "store_link s Link_root x = Some (s\<lparr>rb_top := x\<rparr>)"
| "store_link s (Link_left p) x = upd_rb s p (set_left x)"
| "store_link s (Link_right p) x = upd_rb s p (set_right x)"

fun load_link :: "rb_state \<Rightarrow> rb_link \<Rightarrow> u64 option" where
  "load_link s Link_root = Some (rb_top s)"
| "load_link s (Link_left p) = map_option rb_left (rbn s p)"
| "load_link s (Link_right p) = map_option rb_right (rbn s p)"

definition rb_link_node :: "rb_state \<Rightarrow> u64 \<Rightarrow> u64 \<Rightarrow> rb_link \<Rightarrow> rb_state option" where
  "rb_link_node s node parent link = do {
     s1 \<leftarrow> upd_rb s node (\<lambda>n. n\<lparr>rb_parent_color := parent, rb_right := 0, rb_left := 0\<rparr>);
     store_link s1 link node }"

definition insert_left :: "rb_state \<Rightarrow> u64 \<Rightarrow> u64 \<Rightarrow> u64 \<Rightarrow> (rb_state \<times> u64) option" where
  "insert_left s node parent gparent = do {
     gn \<leftarrow> rbn s gparent;
     let uncle = rb_right gn;
     red \<leftarrow> red_at s uncle;
     if red then do {
       s1 \<leftarrow> upd_rb s uncle rb_set_black;
       s2 \<leftarrow> upd_rb s1 parent rb_set_black;
       s3 \<leftarrow> upd_rb s2 gparent rb_set_red;
       Some (s3, gparent) }
     else do {
       pn \<leftarrow> rbn s parent;
       (s1, node1, parent1) \<leftarrow>
         (if rb_right pn = node then map_option (\<lambda>s1. (s1, parent, node)) (rb_rotate_left s parent)
          else Some (s, node, parent));
       s2 \<leftarrow> upd_rb s1 parent1 rb_set_black;
       s3 \<leftarrow> upd_rb s2 gparent rb_set_red;
       s4 \<leftarrow> rb_rotate_right s3 gparent;
       Some (s4, node1) } }"

definition insert_right :: "rb_state \<Rightarrow> u64 \<Rightarrow> u64 \<Rightarrow> u64 \<Rightarrow> (rb_state \<times> u64) option" where
  "insert_right s node parent gparent = do {
     gn \<leftarrow> rbn s gparent;
     let uncle = rb_left gn;
     red \<leftarrow> red_at s uncle;
     if red then do {
       s1 \<leftarrow> upd_rb s uncle rb_set_black;
       s2 \<leftarrow> upd_rb s1 parent rb_set_black;
       s3 \<leftarrow> upd_rb s2 gparent rb_set_red;
       Some (s3, gparent) }
     else do {
       pn \<leftarrow> rbn s parent;
       (s1, node1, parent1) \<leftarrow>
         (if rb_left pn = node then map_option (\<lambda>s1. (s1, parent, node)) (rb_rotate_right s parent)
          else Some (s, node, parent));
       s2 \<leftarrow> upd_rb s1 parent1 rb_set_black;
       s3 \<leftarrow> upd_rb s2 gparent rb_set_red;
       s4 \<leftarrow> rb_rotate_left s3 gparent;
       Some (s4, node1) } }"

partial_function (option) insert_loop :: "rb_state \<Rightarrow> u64 \<Rightarrow> rb_state option" where
  "insert_loop s node = do {
     n \<leftarrow> rbn s node;
     red \<leftarrow> red_at s (rb_parent n);
     if red then do {
       pn \<leftarrow> rbn s (rb_parent n);
       gn \<leftarrow> rbn s (rb_parent pn);
       (s1, node1) \<leftarrow>
         (if rb_parent n = rb_left gn then insert_left s node (rb_parent n) (rb_parent pn)
          else insert_right s node (rb_parent n) (rb_parent pn));
       insert_loop s1 node1 }
     else Some s }"

declare insert_loop.simps [code]

definition rb_insert_color :: "rb_state \<Rightarrow> u64 \<Rightarrow> rb_state option" where
  "rb_insert_color s node = do {
     s1 \<leftarrow> insert_loop s node;
     upd_rb s1 (rb_top s1) rb_set_black }"

section \<open>Removal\<close>

text \<open>The two branches of the loop of \<^verbatim>\<open>__rb_erase_color\<close>, each in the parts it consists of: a red sibling, a sibling whose outer
  child is black, the last rotation. The results are the new values of \<^verbatim>\<open>node\<close> and, unless the loop ends there with
  \<^verbatim>\<open>break\<close>, of \<^verbatim>\<open>parent\<close>. The colours of both children are read before the conditions that test them; the
  code tests the one that it does not need for the decision later or not at all.\<close>

definition red_children :: "rb_state \<Rightarrow> rb_node \<Rightarrow> (bool \<times> bool) option" where
  "red_children s n = do {
     lred \<leftarrow> red_at s (rb_left n);
     rred \<leftarrow> red_at s (rb_right n);
     Some (lred, rred) }"

definition sibling_left :: "rb_state \<Rightarrow> u64 \<Rightarrow> (rb_state \<times> u64) option" where
  "sibling_left s parent = do {
     pn \<leftarrow> rbn s parent;
     on \<leftarrow> rbn s (rb_right pn);
     if rb_is_red on then do {
       s1 \<leftarrow> upd_rb s (rb_right pn) rb_set_black;
       s2 \<leftarrow> upd_rb s1 parent rb_set_red;
       s3 \<leftarrow> rb_rotate_left s2 parent;
       pn3 \<leftarrow> rbn s3 parent;
       Some (s3, rb_right pn3) }
     else Some (s, rb_right pn) }"

definition turn_left :: "rb_state \<Rightarrow> u64 \<Rightarrow> u64 \<Rightarrow> (rb_state \<times> u64) option" where
  "turn_left s parent other = do {
     on \<leftarrow> rbn s other;
     s4 \<leftarrow> upd_rb s (rb_left on) rb_set_black;
     s5 \<leftarrow> upd_rb s4 other rb_set_red;
     s6 \<leftarrow> rb_rotate_right s5 other;
     pn6 \<leftarrow> rbn s6 parent;
     Some (s6, rb_right pn6) }"

definition finish_left :: "rb_state \<Rightarrow> u64 \<Rightarrow> u64 \<Rightarrow> rb_state option" where
  "finish_left s parent other = do {
     pn \<leftarrow> rbn s parent;
     s1 \<leftarrow> upd_rb s other (rb_set_color (rb_color pn));
     s2 \<leftarrow> upd_rb s1 parent rb_set_black;
     on2 \<leftarrow> rbn s2 other;
     s3 \<leftarrow> upd_rb s2 (rb_right on2) rb_set_black;
     rb_rotate_left s3 parent }"

definition erase_left :: "rb_state \<Rightarrow> u64 \<Rightarrow> (rb_state \<times> u64 \<times> u64 option) option" where
  "erase_left s parent = do {
     (s1, other) \<leftarrow> sibling_left s parent;
     on1 \<leftarrow> rbn s1 other;
     (lred, rred) \<leftarrow> red_children s1 on1;
     if \<not> lred \<and> \<not> rred then do {
       s2 \<leftarrow> upd_rb s1 other rb_set_red;
       pn2 \<leftarrow> rbn s2 parent;
       Some (s2, parent, Some (rb_parent pn2)) }
     else do {
       (s3, other3) \<leftarrow> (if \<not> rred then turn_left s1 parent other else Some (s1, other));
       s4 \<leftarrow> finish_left s3 parent other3;
       Some (s4, rb_top s4, None) } }"

definition sibling_right :: "rb_state \<Rightarrow> u64 \<Rightarrow> (rb_state \<times> u64) option" where
  "sibling_right s parent = do {
     pn \<leftarrow> rbn s parent;
     on \<leftarrow> rbn s (rb_left pn);
     if rb_is_red on then do {
       s1 \<leftarrow> upd_rb s (rb_left pn) rb_set_black;
       s2 \<leftarrow> upd_rb s1 parent rb_set_red;
       s3 \<leftarrow> rb_rotate_right s2 parent;
       pn3 \<leftarrow> rbn s3 parent;
       Some (s3, rb_left pn3) }
     else Some (s, rb_left pn) }"

definition turn_right :: "rb_state \<Rightarrow> u64 \<Rightarrow> u64 \<Rightarrow> (rb_state \<times> u64) option" where
  "turn_right s parent other = do {
     on \<leftarrow> rbn s other;
     s4 \<leftarrow> upd_rb s (rb_right on) rb_set_black;
     s5 \<leftarrow> upd_rb s4 other rb_set_red;
     s6 \<leftarrow> rb_rotate_left s5 other;
     pn6 \<leftarrow> rbn s6 parent;
     Some (s6, rb_left pn6) }"

definition finish_right :: "rb_state \<Rightarrow> u64 \<Rightarrow> u64 \<Rightarrow> rb_state option" where
  "finish_right s parent other = do {
     pn \<leftarrow> rbn s parent;
     s1 \<leftarrow> upd_rb s other (rb_set_color (rb_color pn));
     s2 \<leftarrow> upd_rb s1 parent rb_set_black;
     on2 \<leftarrow> rbn s2 other;
     s3 \<leftarrow> upd_rb s2 (rb_left on2) rb_set_black;
     rb_rotate_right s3 parent }"

definition erase_right :: "rb_state \<Rightarrow> u64 \<Rightarrow> (rb_state \<times> u64 \<times> u64 option) option" where
  "erase_right s parent = do {
     (s1, other) \<leftarrow> sibling_right s parent;
     on1 \<leftarrow> rbn s1 other;
     (lred, rred) \<leftarrow> red_children s1 on1;
     if \<not> lred \<and> \<not> rred then do {
       s2 \<leftarrow> upd_rb s1 other rb_set_red;
       pn2 \<leftarrow> rbn s2 parent;
       Some (s2, parent, Some (rb_parent pn2)) }
     else do {
       (s3, other3) \<leftarrow> (if \<not> lred then turn_right s1 parent other else Some (s1, other));
       s4 \<leftarrow> finish_right s3 parent other3;
       Some (s4, rb_top s4, None) } }"

partial_function (option) erase_loop :: "rb_state \<Rightarrow> u64 \<Rightarrow> u64 \<Rightarrow> (rb_state \<times> u64) option" where
  "erase_loop s node parent = do {
     red \<leftarrow> red_at s node;
     if \<not> red \<and> node \<noteq> rb_top s then do {
       pn \<leftarrow> rbn s parent;
       (s1, node1, p) \<leftarrow> (if rb_left pn = node then erase_left s parent else erase_right s parent);
       case p of None \<Rightarrow> Some (s1, node1) | Some parent1 \<Rightarrow> erase_loop s1 node1 parent1 }
     else Some (s, node) }"

declare erase_loop.simps [code]

definition rb_erase_color :: "rb_state \<Rightarrow> u64 \<Rightarrow> u64 \<Rightarrow> rb_state option" where
  "rb_erase_color s node parent = do {
     (s1, node1) \<leftarrow> erase_loop s node parent;
     if node1 \<noteq> 0 then upd_rb s1 node1 rb_set_black else Some s1 }"

partial_function (option) go_left :: "rb_state \<Rightarrow> u64 \<Rightarrow> u64 option" where
  "go_left s node = do {
     n \<leftarrow> rbn s node;
     if rb_left n \<noteq> 0 then go_left s (rb_left n) else Some node }"

declare go_left.simps [code]

partial_function (option) go_right :: "rb_state \<Rightarrow> u64 \<Rightarrow> u64 option" where
  "go_right s node = do {
     n \<leftarrow> rbn s node;
     if rb_right n \<noteq> 0 then go_right s (rb_right n) else Some node }"

declare go_right.simps [code]

text \<open>\<^verbatim>\<open>rb_erase\<close> of a node with at most one child, and of one with two.\<close>

definition erase_one :: "rb_state \<Rightarrow> u64 \<Rightarrow> u64 \<Rightarrow> rb_state option" where
  "erase_one s node child = do {
     n \<leftarrow> rbn s node;
     s1 \<leftarrow> adopt s child (rb_parent n);
     s2 \<leftarrow> relink_left s1 (rb_parent n) node child;
     if rb_color n = RB_BLACK then rb_erase_color s2 child (rb_parent n) else Some s2 }"

definition unlink_succ :: "rb_state \<Rightarrow> u64 \<Rightarrow> u64 \<Rightarrow> rb_node \<Rightarrow> (rb_state \<times> u64) option" where
  "unlink_succ s old node n =
     (if rb_parent n = old then Some (s, node)
      else do {
        s1 \<leftarrow> adopt s (rb_right n) (rb_parent n);
        s2 \<leftarrow> upd_rb s1 (rb_parent n) (set_left (rb_right n));
        old1 \<leftarrow> rbn s2 old;
        s3 \<leftarrow> upd_rb s2 node (set_right (rb_right old1));
        s4 \<leftarrow> upd_rb s3 (rb_right old1) (rb_set_parent node);
        Some (s4, rb_parent n) })"

definition erase_two :: "rb_state \<Rightarrow> u64 \<Rightarrow> rb_state option" where
  "erase_two s old = do {
     old0 \<leftarrow> rbn s old;
     node \<leftarrow> go_left s (rb_right old0);
     s1 \<leftarrow> relink_left s (rb_parent old0) old node;
     n \<leftarrow> rbn s1 node;
     (s2, parent) \<leftarrow> unlink_succ s1 old node n;
     old2 \<leftarrow> rbn s2 old;
     s3 \<leftarrow> upd_rb s2 node (\<lambda>m. m\<lparr>rb_parent_color := rb_parent_color old2\<rparr>);
     s4 \<leftarrow> upd_rb s3 node (set_left (rb_left old2));
     s5 \<leftarrow> upd_rb s4 (rb_left old2) (rb_set_parent node);
     if rb_color n = RB_BLACK then rb_erase_color s5 (rb_right n) parent else Some s5 }"

definition rb_erase :: "rb_state \<Rightarrow> u64 \<Rightarrow> rb_state option" where
  "rb_erase s node = do {
     n \<leftarrow> rbn s node;
     if rb_left n = 0 then erase_one s node (rb_right n)
     else if rb_right n = 0 then erase_one s node (rb_left n)
     else erase_two s node }"

section \<open>Walking and replacing\<close>

definition rb_first :: "rb_state \<Rightarrow> u64 option" where
  "rb_first s = (if rb_top s = 0 then Some 0 else go_left s (rb_top s))"

definition rb_last :: "rb_state \<Rightarrow> u64 option" where
  "rb_last s = (if rb_top s = 0 then Some 0 else go_right s (rb_top s))"

partial_function (option) up_from_right :: "rb_state \<Rightarrow> u64 \<Rightarrow> u64 option" where
  "up_from_right s node = do {
     n \<leftarrow> rbn s node;
     if rb_parent n = 0 then Some 0
     else do {
       pn \<leftarrow> rbn s (rb_parent n);
       if node = rb_right pn then up_from_right s (rb_parent n) else Some (rb_parent n) } }"

declare up_from_right.simps [code]

partial_function (option) up_from_left :: "rb_state \<Rightarrow> u64 \<Rightarrow> u64 option" where
  "up_from_left s node = do {
     n \<leftarrow> rbn s node;
     if rb_parent n = 0 then Some 0
     else do {
       pn \<leftarrow> rbn s (rb_parent n);
       if node = rb_left pn then up_from_left s (rb_parent n) else Some (rb_parent n) } }"

declare up_from_left.simps [code]

definition rb_next :: "rb_state \<Rightarrow> u64 \<Rightarrow> u64 option" where
  "rb_next s node = do {
     n \<leftarrow> rbn s node;
     if rb_parent n = node then Some 0
     else if rb_right n \<noteq> 0 then go_left s (rb_right n)
     else up_from_right s node }"

definition rb_prev :: "rb_state \<Rightarrow> u64 \<Rightarrow> u64 option" where
  "rb_prev s node = do {
     n \<leftarrow> rbn s node;
     if rb_parent n = node then Some 0
     else if rb_left n \<noteq> 0 then go_right s (rb_left n)
     else up_from_left s node }"

definition rb_replace_node :: "rb_state \<Rightarrow> u64 \<Rightarrow> u64 \<Rightarrow> rb_state option" where
  "rb_replace_node s victim new = do {
     v \<leftarrow> rbn s victim;
     s1 \<leftarrow> relink_left s (rb_parent v) victim new;
     v1 \<leftarrow> rbn s1 victim;
     s2 \<leftarrow> adopt s1 (rb_left v1) new;
     v2 \<leftarrow> rbn s2 victim;
     s3 \<leftarrow> adopt s2 (rb_right v2) new;
     v3 \<leftarrow> rbn s3 victim;
     upd_rb s3 new (\<lambda>_. v3) }"

section \<open>Empty trees and unlinked nodes\<close>

definition RB_ROOT :: u64 where "RB_ROOT = 0"

definition RB_EMPTY_ROOT :: "rb_state \<Rightarrow> bool" where
  "RB_EMPTY_ROOT s \<longleftrightarrow> rb_top s = 0"

definition RB_EMPTY_NODE :: "rb_state \<Rightarrow> u64 \<Rightarrow> bool option" where
  "RB_EMPTY_NODE s node = map_option (\<lambda>n. rb_parent n = node) (rbn s node)"

definition RB_CLEAR_NODE :: "rb_state \<Rightarrow> u64 \<Rightarrow> rb_state option" where
  "RB_CLEAR_NODE s node = upd_rb s node (rb_set_parent node)"

end
