(* ===== verification/Rbtree_Heap.thy ===== *)
theory Rbtree_Heap
  imports Rbtree
begin

text \<open>
  What the memory of a red-black tree stands for: \<open>rb_tree g s t\<close> says that \<open>s\<close> holds the tree \<open>t\<close>, whose
  nodes are addresses, and agrees with \<open>g\<close> at all other addresses. Each primitive step of the code is shown to carry
  \<open>rb_tree\<close> from one tree to another; a tree is split at a position into a subtree and its context, so that a
  rotation or a change of a colour is the same lemma everywhere in the tree.
\<close>

section \<open>The packed word\<close>

definition aligned :: "u64 \<Rightarrow> bool" where
  "aligned p \<longleftrightarrow> p AND 3 = 0"

lemma aligned_0 [simp]: "aligned 0"
  by (simp add: aligned_def)

lemma bit_1_u64: "bit (1 :: u64) n \<longleftrightarrow> n = 0"
  by (simp add: bit_1_iff)

text \<open>The simplifier reads the bits of a word literal from the integer.\<close>

lemma bit_masks: "bit (3 :: int) n \<longleftrightarrow> n < 2" "bit (- 4 :: int) n \<longleftrightarrow> 2 \<le> n" "bit (- 2 :: int) n \<longleftrightarrow> n \<noteq> 0"
proof -
  have m: "(3 :: int) = mask 2" "(- 4 :: int) = NOT (mask 2)" "(- 2 :: int) = NOT (mask 1)"
    by (simp_all add: mask_eq_exp_minus_1)
  show "bit (3 :: int) n \<longleftrightarrow> n < 2" "bit (- 4 :: int) n \<longleftrightarrow> 2 \<le> n" "bit (- 2 :: int) n \<longleftrightarrow> n \<noteq> 0"
    unfolding m by (auto simp only: bit_mask_iff bit_not_iff possible_bit_int)
qed

lemma u64_eq_iff: "(x :: u64) = y \<longleftrightarrow> (\<forall>n < 64. bit x n \<longleftrightarrow> bit y n)"
  by (auto intro: bit_word_eqI)

lemmas rb_bits = u64_eq_iff bit_and_iff bit_or_iff bit_1_u64 bit_masks

lemma aligned_bits: "aligned p \<Longrightarrow> n < 2 \<Longrightarrow> \<not> bit p n"
  by (auto simp: aligned_def rb_bits dest: spec [of _ n])

lemma not3_aligned: "aligned p \<Longrightarrow> p AND NOT 3 = p"
  using aligned_bits by (auto simp: rb_bits not_less [symmetric])

lemma rb_parent_set [simp]:
  "aligned p \<Longrightarrow> rb_parent (rb_set_parent p n) = p"
  "rb_parent (rb_set_red n) = rb_parent n" "rb_parent (rb_set_black n) = rb_parent n"
  "rb_parent (rb_set_color (rb_color m) n) = rb_parent n"
  "rb_parent (set_left x n) = rb_parent n" "rb_parent (set_right x n) = rb_parent n"
  by (auto simp: rb_parent_def rb_set_parent_def rb_set_red_def rb_set_black_def rb_set_color_def rb_color_def
      rb_bits aligned_bits not_less [symmetric])

lemma rb_color_set [simp]:
  "aligned p \<Longrightarrow> rb_color (rb_set_parent p n) = rb_color n"
  "rb_color (rb_set_red n) = RB_RED" "rb_color (rb_set_black n) = RB_BLACK"
  "rb_color (rb_set_color (rb_color m) n) = rb_color m"
  "rb_color (set_left x n) = rb_color n" "rb_color (set_right x n) = rb_color n"
  by (auto simp: rb_color_def rb_set_parent_def rb_set_red_def rb_set_black_def rb_set_color_def RB_RED_def RB_BLACK_def
      rb_bits aligned_bits not_less [symmetric])

lemma rb_children_set [simp]:
  "rb_left (rb_set_parent p n) = rb_left n" "rb_right (rb_set_parent p n) = rb_right n"
  "rb_left (rb_set_red n) = rb_left n" "rb_right (rb_set_red n) = rb_right n"
  "rb_left (rb_set_black n) = rb_left n" "rb_right (rb_set_black n) = rb_right n"
  "rb_left (rb_set_color c n) = rb_left n" "rb_right (rb_set_color c n) = rb_right n"
  by (simp_all add: rb_set_parent_def rb_set_red_def rb_set_black_def rb_set_color_def)

lemma rb_color_cases: "rb_color n = RB_RED \<or> rb_color n = RB_BLACK"
proof -
  have "rb_parent_color n AND 1 = rb_parent_color n mod 2" by (simp add: and_one_eq)
  then show ?thesis by (auto simp: rb_color_def RB_RED_def RB_BLACK_def mod_2_eq_odd)
qed

section \<open>Trees and contexts\<close>

datatype rbcolor = Red | Black

fun col :: "rbcolor \<Rightarrow> u64" where
  "col Red = RB_RED"
| "col Black = RB_BLACK"

lemma col_eq [simp]: "col c = col d \<longleftrightarrow> c = d" "rb_color n = col c \<Longrightarrow> rb_is_red n \<longleftrightarrow> c = Red"
  by (cases c; cases d; simp add: RB_RED_def RB_BLACK_def) (cases c; simp add: rb_is_red_def RB_RED_def RB_BLACK_def)

datatype rbt = Tip | Br rbcolor rbt u64 rbt

fun rptr :: "rbt \<Rightarrow> u64" where
  "rptr Tip = 0"
| "rptr (Br c l a r) = a"

fun inorder :: "rbt \<Rightarrow> u64 list" where
  "inorder Tip = []"
| "inorder (Br c l a r) = inorder l @ a # inorder r"

definition cell :: "(u64 \<rightharpoonup> rb_node) \<Rightarrow> u64 \<Rightarrow> rbcolor \<Rightarrow> u64 \<Rightarrow> u64 \<Rightarrow> u64 \<Rightarrow> bool" where
  "cell h a c p l r \<longleftrightarrow> (\<exists>n. h a = Some n \<and> rb_parent n = p \<and> rb_color n = col c \<and> rb_left n = l \<and> rb_right n = r)"

fun links :: "(u64 \<rightharpoonup> rb_node) \<Rightarrow> u64 \<Rightarrow> rbt \<Rightarrow> bool" where
  "links h p Tip \<longleftrightarrow> True"
| "links h p (Br c l a r) \<longleftrightarrow> cell h a c p (rptr l) (rptr r) \<and> links h a l \<and> links h a r"

text \<open>A context: for each node above the position, whether the position is in its left or in its right subtree.\<close>

datatype frame = InL rbcolor u64 rbt | InR rbcolor rbt u64

fun plug :: "frame list \<Rightarrow> rbt \<Rightarrow> rbt" where
  "plug [] t = t"
| "plug (InL c a r # k) t = plug k (Br c t a r)"
| "plug (InR c l a # k) t = plug k (Br c l a t)"

fun cptr :: "frame list \<Rightarrow> u64" where
  "cptr [] = 0"
| "cptr (InL c a r # k) = a"
| "cptr (InR c l a # k) = a"

fun ctop :: "frame list \<Rightarrow> u64 \<Rightarrow> u64" where
  "ctop [] x = x"
| "ctop (InL c a r # k) x = ctop k a"
| "ctop (InR c l a # k) x = ctop k a"

fun clinks :: "(u64 \<rightharpoonup> rb_node) \<Rightarrow> frame list \<Rightarrow> u64 \<Rightarrow> bool" where
  "clinks h [] x \<longleftrightarrow> True"
| "clinks h (InL c a r # k) x \<longleftrightarrow> cell h a c (cptr k) x (rptr r) \<and> links h a r \<and> clinks h k a"
| "clinks h (InR c l a # k) x \<longleftrightarrow> cell h a c (cptr k) (rptr l) x \<and> links h a l \<and> clinks h k a"

fun before :: "frame list \<Rightarrow> u64 list" where
  "before [] = []"
| "before (InL c a r # k) = before k"
| "before (InR c l a # k) = before k @ inorder l @ [a]"

fun after :: "frame list \<Rightarrow> u64 list" where
  "after [] = []"
| "after (InL c a r # k) = a # inorder r @ after k"
| "after (InR c l a # k) = after k"

lemma inorder_plug [simp]: "inorder (plug k t) = before k @ inorder t @ after k"
  by (induction k t rule: plug.induct) auto

lemma rptr_plug [simp]: "rptr (plug k t) = ctop k (rptr t)"
  by (induction k t rule: plug.induct) auto

lemma links_plug [simp]: "links h 0 (plug k t) \<longleftrightarrow> clinks h k (rptr t) \<and> links h (cptr k) t"
  by (induction k t rule: plug.induct) auto

lemma in_plugE:
  assumes "a \<in> set (inorder t)"
  obtains k c l r where "t = plug k (Br c l a r)"
proof -
  have "\<exists>k c l r. plug k0 t = plug k (Br c l a r)" for k0
    using assms
  proof (induction t arbitrary: k0)
    case (Br c l b r)
    consider "a = b" | "a \<in> set (inorder l)" | "a \<in> set (inorder r)" using Br.prems by auto
    then show ?case
    proof cases
      case 1
      then show ?thesis by blast
    next
      case 2
      show ?thesis using Br.IH(1) [OF 2, of "InL c b r # k0"] by simp
    next
      case 3
      show ?thesis using Br.IH(2) [OF 3, of "InR c l b # k0"] by simp
    qed
  qed simp
  from this [of "[]"] show ?thesis using that by auto
qed

section \<open>Frames\<close>

lemma cell_upd [simp]: "x \<noteq> a \<Longrightarrow> cell (h(x := v)) a c p l r \<longleftrightarrow> cell h a c p l r"
  by (simp add: cell_def)

lemma cell_same [simp]:
  "cell (h(a := Some n)) a c p l r \<longleftrightarrow> rb_parent n = p \<and> rb_color n = col c \<and> rb_left n = l \<and> rb_right n = r"
  by (simp add: cell_def)

lemma cellE:
  assumes "cell h a c p l r"
  obtains n where "h a = Some n" "rb_parent n = p" "rb_color n = col c" "rb_left n = l" "rb_right n = r"
  using assms by (auto simp: cell_def)

lemma links_upd [simp]: "x \<notin> set (inorder t) \<Longrightarrow> links (h(x := v)) p t \<longleftrightarrow> links h p t"
  by (induction t arbitrary: p) auto

lemma clinks_upd [simp]: "x \<notin> set (before k) \<Longrightarrow> x \<notin> set (after k) \<Longrightarrow> clinks (h(x := v)) k y \<longleftrightarrow> clinks h k y"
  by (induction h k y rule: clinks.induct) auto

lemma rptr_in [simp]: "rptr t \<noteq> 0 \<Longrightarrow> rptr t \<in> set (inorder t)"
  by (cases t) auto

lemma cptr_in: "cptr k \<noteq> 0 \<Longrightarrow> cptr k \<in> set (before k) \<union> set (after k)"
  by (induction k rule: cptr.induct) auto

definition rb_valid :: "u64 list \<Rightarrow> bool" where
  "rb_valid xs \<longleftrightarrow> distinct xs \<and> (\<forall>a \<in> set xs. a \<noteq> 0 \<and> aligned a)"

definition rb_tree :: "(u64 \<rightharpoonup> rb_node) \<Rightarrow> rb_state \<Rightarrow> rbt \<Rightarrow> bool" where
  "rb_tree g s t \<longleftrightarrow> rb_valid (inorder t) \<and> rb_top s = rptr t \<and> links (rb_nodes s) 0 t
     \<and> (\<forall>x. x \<notin> set (inorder t) \<longrightarrow> rb_nodes s x = g x)"

lemma rb_valid_context: "rb_valid (before k @ xs @ after k) \<Longrightarrow> rb_valid (before k @ after k)"
  by (auto simp: rb_valid_def Int_Un_distrib)

lemma rb_valid_notin:
  "rb_valid (xs @ x # ys) \<Longrightarrow> x \<notin> set xs \<and> x \<notin> set ys \<and> x \<noteq> 0 \<and> aligned x"
  by (auto simp: rb_valid_def)

lemma rb_tree_node:
  assumes "rb_tree g s (plug k (Br c l a r))"
  obtains n where "rbn s a = Some n" "rb_parent n = cptr k" "rb_color n = col c" "rb_left n = rptr l" "rb_right n = rptr r"
  using assms by (auto simp: rb_tree_def rb_valid_def rbn_def elim: cellE)

text \<open>A change of the colour of a node.\<close>

lemma recolour:
  assumes t: "rb_tree g s (plug k (Br c l a r))"
    and f: "\<And>n. rb_parent (f n) = rb_parent n" "\<And>n. rb_left (f n) = rb_left n" "\<And>n. rb_right (f n) = rb_right n"
      "\<And>n. rb_color (f n) = col d"
  shows "\<exists>s'. upd_rb s a f = Some s' \<and> rb_tree g s' (plug k (Br d l a r))"
proof -
  obtain n where n: "rbn s a = Some n" "rb_parent n = cptr k" "rb_color n = col c" "rb_left n = rptr l" "rb_right n = rptr r"
    using rb_tree_node [OF t] .
  show ?thesis using t n f by (auto simp: upd_rb_def rb_tree_def rb_valid_def)
qed

section \<open>Links that change\<close>

lemma links_cong: "(\<And>x. x \<in> set (inorder t) \<Longrightarrow> h' x = h x) \<Longrightarrow> links h' p t \<longleftrightarrow> links h p t"
  by (induction t arbitrary: p) (auto simp: cell_def)

lemma clinks_cong:
  "(\<And>x. x \<in> set (before k) \<union> set (after k) \<Longrightarrow> h' x = h x) \<Longrightarrow> clinks h' k y \<longleftrightarrow> clinks h k y"
proof (induction h k y rule: clinks.induct)
  case (2 h c a r k x)
  then show ?case using links_cong [of r h' h a] by (auto simp: cell_def)
next
  case (3 h c l a k x)
  then show ?case using links_cong [of l h' h a] by (auto simp: cell_def)
qed simp

text \<open>A subtree gets another parent.\<close>

lemma adopt_spec:
  assumes "links (rb_nodes s) p t" "rb_valid (inorder t)" "aligned q"
  shows "\<exists>s'. adopt s (rptr t) q = Some s' \<and> links (rb_nodes s') q t \<and> rb_top s' = rb_top s
    \<and> (\<forall>x. x \<notin> set (inorder t) \<longrightarrow> rb_nodes s' x = rb_nodes s x)"
proof (cases t)
  case (Br c l a r)
  then obtain n where "rb_nodes s a = Some n" "rb_parent n = p" "rb_color n = col c" "rb_left n = rptr l" "rb_right n = rptr r"
    using assms by (auto elim: cellE)
  then show ?thesis using assms Br by (auto simp: adopt_def upd_rb_def rbn_def rb_valid_def)
qed (simp add: adopt_def)

text \<open>The hole of a context gets another subtree.\<close>

lemma relink_spec:
  assumes "clinks (rb_nodes s) k y" "rb_valid (before k @ after k)" "y \<noteq> 0" "y \<notin> set (before k) \<union> set (after k)"
    and "rb_top s = ctop k y"
  shows "\<exists>s'. relink_left s (cptr k) y x = Some s' \<and> clinks (rb_nodes s') k x \<and> rb_top s' = ctop k x
    \<and> (\<forall>z. z \<notin> set (before k) \<union> set (after k) \<longrightarrow> rb_nodes s' z = rb_nodes s z)"
proof (cases k rule: cptr.cases)
  case (2 c a r k')
  then obtain n where "rb_nodes s a = Some n" "rb_parent n = cptr k'" "rb_color n = col c" "rb_left n = y" "rb_right n = rptr r"
    using assms by (auto elim: cellE)
  then show ?thesis using assms 2 by (auto simp: relink_left_def upd_rb_def rbn_def rb_valid_def)
next
  case (3 c l a k')
  then obtain n where n: "rb_nodes s a = Some n" "rb_parent n = cptr k'" "rb_color n = col c" "rb_left n = rptr l" "rb_right n = y"
    using assms by (auto elim: cellE)
  have "y \<noteq> rptr l" using assms(3,4) 3 rptr_in [of l] by auto
  then show ?thesis using assms 3 n by (auto simp: relink_left_def upd_rb_def rbn_def rb_valid_def)
qed (simp add: relink_left_def)

section \<open>Rotations\<close>

lemma rb_treeI:
  assumes "rb_valid (before k @ inorder t @ after k)" "rb_top s = ctop k (rptr t)" "clinks (rb_nodes s) k (rptr t)"
    and "links (rb_nodes s) (cptr k) t" "\<And>x. x \<notin> set (before k @ inorder t @ after k) \<Longrightarrow> rb_nodes s x = g x"
  shows "rb_tree g s (plug k t)"
  using assms by (simp add: rb_tree_def)

lemma rb_treeD:
  assumes "rb_tree g s (plug k t)"
  shows "rb_valid (before k @ inorder t @ after k)" "rb_top s = ctop k (rptr t)" "clinks (rb_nodes s) k (rptr t)"
    "links (rb_nodes s) (cptr k) t" "\<And>x. x \<notin> set (before k @ inorder t @ after k) \<Longrightarrow> rb_nodes s x = g x"
  using assms by (simp_all add: rb_tree_def)

lemma aligned_cptr: "rb_valid (before k @ xs @ after k) \<Longrightarrow> aligned (cptr k)"
  using cptr_in [of k] by (cases "cptr k = 0") (auto simp: rb_valid_def)

lemma rotate_left_spec:
  assumes t: "rb_tree g s (plug k (Br c l a (Br d m b r)))"
  shows "\<exists>s'. rb_rotate_left s a = Some s' \<and> rb_tree g s' (plug k (Br d (Br c l a m) b r))"
proof -
  note d = rb_treeD [OF t]
  have v: "rb_valid (before k @ inorder l @ a # inorder m @ b # inorder r @ after k)" using d(1) by simp
  have nz: "a \<noteq> 0" "b \<noteq> 0" "a \<noteq> b" "aligned a" "aligned b" using v by (auto simp: rb_valid_def)
  obtain n where n: "rb_nodes s a = Some n" "rb_parent n = cptr k" "rb_color n = col c" "rb_left n = rptr l" "rb_right n = b"
    using d(4) by (auto elim: cellE)
  obtain n' where n': "rb_nodes s b = Some n'" "rb_color n' = col d" "rb_left n' = rptr m" "rb_right n' = rptr r"
    using d(4) by (auto elim: cellE)
  let ?s1 = "s\<lparr>rb_nodes := (rb_nodes s)(a \<mapsto> set_right (rptr m) n)\<rparr>"
  have "links (rb_nodes ?s1) b m" "rb_valid (inorder m)" using d(4) v by (auto simp: rb_valid_def)
  then obtain s2 where s2: "adopt ?s1 (rptr m) a = Some s2" "links (rb_nodes s2) a m" "rb_top s2 = rb_top s"
    "\<And>x. x \<notin> set (inorder m) \<Longrightarrow> rb_nodes s2 x = rb_nodes ?s1 x"
    using adopt_spec [of ?s1 b m a] nz by auto
  let ?s3 = "s2\<lparr>rb_nodes := (rb_nodes s2)(b \<mapsto> set_left a n')\<rparr>"
  let ?n4 = "rb_set_parent (cptr k) (set_left a n')"
  let ?s4 = "s2\<lparr>rb_nodes := (rb_nodes s2)(b \<mapsto> ?n4)\<rparr>"
  have s2b: "rb_nodes s2 b = Some n'" "rb_nodes s2 a = Some (set_right (rptr m) n)" using s2(4) n' nz v by (auto simp: rb_valid_def)
  have eq4: "rb_nodes ?s4 x = rb_nodes s x" if "x \<notin> set (inorder m)" "x \<noteq> a" "x \<noteq> b" for x using s2(4) that by simp
  have out: "x \<notin> set (inorder m)" "x \<noteq> a" "x \<noteq> b" if "x \<in> set (before k) \<union> set (after k)" for x
    using that v by (auto simp: rb_valid_def)
  then have "clinks (rb_nodes ?s4) k a" using clinks_cong [of k "rb_nodes ?s4" "rb_nodes s" a] eq4 d(3) by auto
  then obtain s5 where s5: "relink_left ?s4 (cptr k) a b = Some s5" "clinks (rb_nodes s5) k b" "rb_top s5 = ctop k b"
    "\<And>z. z \<notin> set (before k) \<union> set (after k) \<Longrightarrow> rb_nodes s5 z = rb_nodes ?s4 z"
    using relink_spec [of ?s4 k a b] rb_valid_context [OF d(1)] d(2) s2(3) nz v by (auto simp: rb_valid_def)
  have s5a: "rb_nodes s5 a = Some (set_right (rptr m) n)" "rb_nodes s5 b = Some ?n4"
    using s5(4) [of a] s5(4) [of b] s2b nz v by (auto simp: rb_valid_def)
  let ?s6 = "s5\<lparr>rb_nodes := (rb_nodes s5)(a \<mapsto> rb_set_parent b (set_right (rptr m) n))\<rparr>"
  have "(if rptr m \<noteq> 0 then upd_rb ?s1 (rb_left n') (rb_set_parent a) else Some ?s1) = Some s2"
    using s2(1) by (simp only: adopt_def n'(3))
  moreover have "rbn s a = Some n" "rbn s b = Some n'" "upd_rb s a (set_right (rptr m)) = Some ?s1" "rbn ?s1 b = Some n'"
      "upd_rb s2 b (set_left a) = Some ?s3" "upd_rb ?s3 b (rb_set_parent (cptr k)) = Some ?s4"
      "upd_rb s5 a (rb_set_parent b) = Some ?s6"
    using n n' nz s2b s5a by (simp_all add: upd_rb_def rbn_def)
  ultimately have "rb_rotate_left s a = Some ?s6"
    using s5(1) n n' by (simp add: rb_rotate_left_def Let_def split del: if_split)
  moreover have "rb_tree g ?s6 (plug k (Br d (Br c l a m) b r))"
  proof (rule rb_treeI)
    show "rb_valid (before k @ inorder (Br d (Br c l a m) b r) @ after k)" using v by simp
    show "rb_top ?s6 = ctop k (rptr (Br d (Br c l a m) b r))" using s5(3) by simp
    show "clinks (rb_nodes ?s6) k (rptr (Br d (Br c l a m) b r))" using s5(2) v by (auto simp: rb_valid_def)
  next
    have "x \<notin> set (before k) \<union> set (after k) \<and> x \<noteq> a \<and> x \<noteq> b"
      if "x \<in> set (inorder l) \<union> set (inorder m) \<union> set (inorder r)" for x
      using that v by (auto simp: rb_valid_def disjoint_iff)
    then have same: "rb_nodes ?s6 x = rb_nodes s2 x" if "x \<in> set (inorder l) \<union> set (inorder m) \<union> set (inorder r)" for x
      using that s5(4) [of x] by auto
    have "x \<notin> set (inorder m) \<and> x \<noteq> a" if "x \<in> set (inorder l) \<union> set (inorder r)" for x
      using that v by (auto simp: rb_valid_def disjoint_iff)
    then have "rb_nodes s2 x = rb_nodes s x" if "x \<in> set (inorder l) \<union> set (inorder r)" for x
      using that s2(4) [of x] by auto
    then have "links (rb_nodes ?s6) a l" "links (rb_nodes ?s6) b r"
      using d(4) same links_cong [of l "rb_nodes ?s6" "rb_nodes s" a] links_cong [of r "rb_nodes ?s6" "rb_nodes s" b] by auto
    moreover have "links (rb_nodes ?s6) a m" using s2(2) same links_cong [of m "rb_nodes ?s6" "rb_nodes s2" a] by auto
    ultimately show "links (rb_nodes ?s6) (cptr k) (Br d (Br c l a m) b r)"
      using s5a n n' nz aligned_cptr [OF d(1)] by (simp add: cell_def)
  next
    show "rb_nodes ?s6 x = g x" if "x \<notin> set (before k @ inorder (Br d (Br c l a m) b r) @ after k)" for x
      using that s5(4) [of x] s2(4) [of x] d(5) [of x] by auto
  qed
  ultimately show ?thesis by blast
qed

section \<open>Mirror images\<close>

definition flip_node :: "rb_node \<Rightarrow> rb_node" where
  "flip_node n = n\<lparr>rb_left := rb_right n, rb_right := rb_left n\<rparr>"

definition flip :: "rb_state \<Rightarrow> rb_state" where
  "flip s = s\<lparr>rb_nodes := (\<lambda>a. map_option flip_node (rb_nodes s a))\<rparr>"

fun mirror :: "rbt \<Rightarrow> rbt" where
  "mirror Tip = Tip"
| "mirror (Br c l a r) = Br c (mirror r) a (mirror l)"

fun mirror_frame :: "frame \<Rightarrow> frame" where
  "mirror_frame (InL c a r) = InR c (mirror r) a"
| "mirror_frame (InR c l a) = InL c a (mirror l)"

named_theorems flip_simps \<open>operations on mirror images\<close>

lemma flip_node_simps [simp]:
  "flip_node (flip_node n) = n" "rb_left (flip_node n) = rb_right n" "rb_right (flip_node n) = rb_left n"
  "rb_parent (flip_node n) = rb_parent n" "rb_color (flip_node n) = rb_color n" "rb_is_red (flip_node n) = rb_is_red n"
  by (simp_all add: flip_node_def rb_parent_def rb_color_def rb_is_red_def)

lemma flip_flip [simp]: "flip (flip s) = s" "rb_top (flip s) = rb_top s"
  by (simp_all add: flip_def option.map_comp o_def option.map_ident)

lemma flip_top [simp]: "flip (s\<lparr>rb_top := x\<rparr>) = (flip s)\<lparr>rb_top := x\<rparr>"
  by (simp add: flip_def)

lemma rbn_flip [flip_simps]: "rbn (flip s) a = map_option flip_node (rbn s a)"
  by (simp add: rbn_def flip_def)

lemma red_at_flip [flip_simps]: "red_at (flip s) a = red_at s a"
  by (simp add: red_at_def flip_simps option.map_comp o_def)

lemma upd_rb_flip:
  assumes "\<And>n. f (flip_node n) = flip_node (f' n)"
  shows "upd_rb (flip s) a f = map_option flip (upd_rb s a f')"
  using assms by (auto simp: upd_rb_def rbn_def flip_def option.map_comp o_def fun_eq_iff intro!: option.map_cong)

lemma upd_flips [flip_simps]:
  "upd_rb (flip s) a (set_left x) = map_option flip (upd_rb s a (set_right x))"
  "upd_rb (flip s) a (set_right x) = map_option flip (upd_rb s a (set_left x))"
  "upd_rb (flip s) a (rb_set_parent p) = map_option flip (upd_rb s a (rb_set_parent p))"
  "upd_rb (flip s) a rb_set_red = map_option flip (upd_rb s a rb_set_red)"
  "upd_rb (flip s) a rb_set_black = map_option flip (upd_rb s a rb_set_black)"
  "upd_rb (flip s) a (rb_set_color c) = map_option flip (upd_rb s a (rb_set_color c))"
  by (rule upd_rb_flip, simp add: flip_node_def rb_set_parent_def rb_set_red_def rb_set_black_def rb_set_color_def)+

lemma bind_map_option [flip_simps]: "Option.bind (map_option f m) g = Option.bind m (\<lambda>x. g (f x))"
  by (cases m) simp_all

lemma map_option_bind_eq [flip_simps]: "map_option f (Option.bind m g) = Option.bind m (\<lambda>x. map_option f (g x))"
  by (cases m) simp_all

lemma map_option_if [flip_simps]: "map_option f (if b then x else y) = (if b then map_option f x else map_option f y)"
  by simp

lemma bind_if [flip_simps]: "Option.bind (if b then x else y) f = (if b then Option.bind x f else Option.bind y f)"
  by simp

lemma relink_flip [flip_simps]:
  "relink_left (flip s) p x y = map_option flip (relink_right s p x y)"
  "relink_right (flip s) p x y = map_option flip (relink_left s p x y)"
  by (simp_all add: relink_left_def relink_right_def flip_simps split del: if_split cong del: if_weak_cong)

lemma rotate_flip [flip_simps]:
  "rb_rotate_left (flip s) a = map_option flip (rb_rotate_right s a)"
  "rb_rotate_right (flip s) a = map_option flip (rb_rotate_left s a)"
  by (simp_all add: rb_rotate_left_def rb_rotate_right_def Let_def flip_simps split del: if_split cong del: if_weak_cong)

definition flip_fst :: "rb_state \<times> 'a \<Rightarrow> rb_state \<times> 'a" where
  "flip_fst p = (flip (fst p), snd p)"

lemma flip_fst_simps [flip_simps]: "flip_fst (s, x) = (flip s, x)"
  by (simp add: flip_fst_def)

lemma insert_flip [flip_simps]:
  "insert_left (flip s) x p q = map_option flip_fst (insert_right s x p q)"
  "insert_right (flip s) x p q = map_option flip_fst (insert_left s x p q)"
  by (simp_all add: insert_left_def insert_right_def Let_def flip_simps option.map_comp o_def split del: if_split cong del: if_weak_cong)

lemma red_children_flip [flip_simps]:
  "red_children (flip s) n = red_children s n"
  "red_children s (flip_node n) = map_option prod.swap (red_children s n)"
  by (cases "red_at s (rb_left n)"; cases "red_at s (rb_right n)"; simp add: red_children_def flip_simps)+

lemma erase_parts_flip [flip_simps]:
  "sibling_left (flip s) p = map_option flip_fst (sibling_right s p)"
  "sibling_right (flip s) p = map_option flip_fst (sibling_left s p)"
  "turn_left (flip s) p x = map_option flip_fst (turn_right s p x)"
  "turn_right (flip s) p x = map_option flip_fst (turn_left s p x)"
  "finish_left (flip s) p x = map_option flip (finish_right s p x)"
  "finish_right (flip s) p x = map_option flip (finish_left s p x)"
  by (simp_all add: sibling_left_def sibling_right_def turn_left_def turn_right_def finish_left_def finish_right_def
      flip_simps split del: if_split cong del: if_weak_cong)

lemma flip_fst_sel [simp]: "fst (flip_fst p) = flip (fst p)" "snd (flip_fst p) = snd p"
  by (simp_all add: flip_fst_def)

lemma erase_flip [flip_simps]:
  "erase_left (flip s) p = map_option flip_fst (erase_right s p)"
  "erase_right (flip s) p = map_option flip_fst (erase_left s p)"
  by (simp_all add: erase_left_def erase_right_def flip_simps case_prod_beta conj_commute split del: if_split cong del: if_weak_cong)

lemma inorder_mirror [simp]: "inorder (mirror t) = rev (inorder t)"
  by (induction t) auto

lemma rptr_mirror [simp]: "rptr (mirror t) = rptr t"
  by (cases t) auto

lemma cell_flip [simp]: "cell (\<lambda>x. map_option flip_node (h x)) a c p l r \<longleftrightarrow> cell h a c p r l"
  by (auto simp: cell_def)

lemma links_flip [simp]: "links (\<lambda>x. map_option flip_node (h x)) p (mirror t) \<longleftrightarrow> links h p t"
  by (induction t arbitrary: p) auto

lemma mirror_mirror [simp]: "mirror (mirror t) = t"
  by (induction t) auto

lemma plug_mirror: "mirror (plug k t) = plug (map mirror_frame k) (mirror t)"
  by (induction k t rule: plug.induct) auto

lemma rb_tree_flip: "rb_tree (\<lambda>x. map_option flip_node (g x)) (flip s) (mirror t) \<longleftrightarrow> rb_tree g s t"
proof -
  have "map_option flip_node x = map_option flip_node y \<longleftrightarrow> x = y" for x y by (metis flip_node_simps(1) option.inj_map_strong)
  then show ?thesis by (simp add: rb_tree_def rb_valid_def flip_def)
qed

lemma rb_tree_flipD: "rb_tree g s t \<Longrightarrow> rb_tree (\<lambda>x. map_option flip_node (g x)) (flip s) (mirror t)"
  by (simp add: rb_tree_flip)

lemma rotate_right_spec:
  assumes t: "rb_tree g s (plug k (Br c (Br d l b m) a r))"
  shows "\<exists>s'. rb_rotate_right s a = Some s' \<and> rb_tree g s' (plug k (Br d l b (Br c m a r)))"
proof -
  let ?k = "map mirror_frame k"
  obtain s' where s': "rb_rotate_left (flip s) a = Some s'"
    "rb_tree (\<lambda>x. map_option flip_node (g x)) s' (plug ?k (Br d (Br c (mirror r) a (mirror m)) b (mirror l)))"
    using rotate_left_spec [of _ "flip s" ?k c "mirror r" a d "mirror m" b "mirror l"] rb_tree_flipD [OF t]
    by (auto simp: plug_mirror)
  then obtain s2 where s2: "rb_rotate_right s a = Some s2" "s' = flip s2" by (auto simp: flip_simps)
  then show ?thesis using s'(2) rb_tree_flip [of g s2 "plug k (Br d l b (Br c m a r))"] by (simp add: plug_mirror)
qed

end
