(* ===== verification/Rbtree_Insert.thy ===== *)
theory Rbtree_Insert
  imports Rbtree_Heap
begin

text \<open>
  Insertion into a red-black tree: the invariants of red-black trees and of their contexts, and the loop of
  \<^verbatim>\<open>rb_insert_color\<close>.
\<close>

section \<open>Red-black trees\<close>

fun rcol :: "rbt \<Rightarrow> rbcolor" where
  "rcol Tip = Black"
| "rcol (Br c l a r) = c"

fun bheight :: "rbt \<Rightarrow> nat" where
  "bheight Tip = 0"
| "bheight (Br c l a r) = (if c = Black then Suc (bheight l) else bheight l)"

text \<open>No red node has a red child, and all paths from a node down have the same number of black nodes.\<close>

fun balanced :: "rbt \<Rightarrow> bool" where
  "balanced Tip \<longleftrightarrow> True"
| "balanced (Br c l a r) \<longleftrightarrow> balanced l \<and> balanced r \<and> bheight l = bheight r
     \<and> (c = Red \<longrightarrow> rcol l = Black \<and> rcol r = Black)"

definition red_black :: "rbt \<Rightarrow> bool" where
  "red_black t \<longleftrightarrow> balanced t \<and> rcol t = Black"

text \<open>A context fits a tree whose root has the colour \<open>c\<close> and whose black height is \<open>h\<close>.\<close>

fun fits :: "frame list \<Rightarrow> rbcolor \<Rightarrow> nat \<Rightarrow> bool" where
  "fits [] c h \<longleftrightarrow> c = Black"
| "fits (InL d a r # k) c h \<longleftrightarrow> balanced r \<and> bheight r = h \<and> (d = Red \<longrightarrow> c = Black \<and> rcol r = Black)
     \<and> fits k d (if d = Black then Suc h else h)"
| "fits (InR d l a # k) c h \<longleftrightarrow> balanced l \<and> bheight l = h \<and> (d = Red \<longrightarrow> c = Black \<and> rcol l = Black)
     \<and> fits k d (if d = Black then Suc h else h)"

lemma red_black_plug: "red_black (plug k t) \<longleftrightarrow> balanced t \<and> fits k (rcol t) (bheight t)"
  by (induction k t rule: plug.induct) (auto simp: red_black_def)

lemma rcol_mirror [simp]: "rcol (mirror t) = rcol t"
  by (cases t) auto

lemma bheight_mirror [simp]: "balanced t \<Longrightarrow> bheight (mirror t) = bheight t"
  by (induction t) auto

lemma balanced_mirror [simp]: "balanced (mirror t) \<longleftrightarrow> balanced t"
proof -
  have "balanced t \<Longrightarrow> balanced (mirror t)" for t by (induction t) auto
  from this [of t] this [of "mirror t"] show ?thesis by auto
qed

lemma fits_mirror: "fits k c h \<Longrightarrow> fits (map mirror_frame k) c h"
  by (induction k c h rule: fits.induct) auto

lemma not_Black [simp]: "c \<noteq> Black \<longleftrightarrow> c = Red" "c \<noteq> Red \<longleftrightarrow> c = Black"
  by (cases c; simp)+

section \<open>The loop\<close>

lemma mirror_frame_mirror [simp]: "mirror_frame (mirror_frame f) = f"
  by (cases f) auto

lemma mirror_context [simp]: "map mirror_frame (map mirror_frame k) = k"
  by (induction k) auto

text \<open>The node \<open>rptr t\<close> is red, and nothing else is wrong with the tree than that its parent may be red.\<close>

definition ins_inv :: "(u64 \<rightharpoonup> rb_node) \<Rightarrow> rb_state \<Rightarrow> frame list \<Rightarrow> rbt \<Rightarrow> bool" where
  "ins_inv g s k t \<longleftrightarrow> rb_tree g s (plug k t) \<and> balanced t \<and> rcol t = Red \<and> fits k Black (bheight t)"

lemma ins_inv_flip:
  "ins_inv g s k t \<Longrightarrow> ins_inv (\<lambda>x. map_option flip_node (g x)) (flip s) (map mirror_frame k) (mirror t)"
  using rb_tree_flipD [of g s "plug k t"] by (simp add: ins_inv_def fits_mirror plug_mirror)

lemma ins_inv_unflip:
  assumes "ins_inv (\<lambda>x. map_option flip_node (g x)) s k t"
  shows "ins_inv g (flip s) (map mirror_frame k) (mirror t)"
  using ins_inv_flip [OF assms] by (simp add: option.map_comp o_def option.map_ident)

lemma red_at_tree: "rb_tree g s (plug k t) \<Longrightarrow> red_at s (rptr t) = Some (rcol t = Red)"
  by (cases t) (auto simp: red_at_def rbn_def elim!: rb_tree_node)

lemmas set_black = recolour [where f = rb_set_black and d = Black, simplified]
lemmas set_red = recolour [where f = rb_set_red and d = Red, simplified]

text \<open>A red uncle: the colours move up.\<close>

lemma insert_left_red:
  assumes t: "rb_tree g s (plug k (Br c (Br e pl p pr) q (Br Red ul u ur)))"
  shows "\<exists>s'. insert_left s x p q = Some (s', q) \<and> rb_tree g s' (plug k (Br Red (Br Black pl p pr) q (Br Black ul u ur)))"
proof -
  obtain gn where gn: "rbn s q = Some gn" "rb_right gn = u" using rb_tree_node [OF t] by auto
  have red: "red_at s u = Some True" using red_at_tree [of g s "InR c (Br e pl p pr) q # k" "Br Red ul u ur"] t by simp
  obtain s1 where s1: "upd_rb s u rb_set_black = Some s1" "rb_tree g s1 (plug k (Br c (Br e pl p pr) q (Br Black ul u ur)))"
    using set_black [of g s "InR c (Br e pl p pr) q # k" Red ul u ur] t by auto
  obtain s2 where s2: "upd_rb s1 p rb_set_black = Some s2" "rb_tree g s2 (plug k (Br c (Br Black pl p pr) q (Br Black ul u ur)))"
    using set_black [of g s1 "InL c q (Br Black ul u ur) # k" e pl p pr] s1(2) by auto
  obtain s3 where "upd_rb s2 q rb_set_red = Some s3" "rb_tree g s3 (plug k (Br Red (Br Black pl p pr) q (Br Black ul u ur)))"
    using set_red [OF s2(2)] by auto
  then show ?thesis using gn red s1(1) s2(1) by (simp add: insert_left_def)
qed

text \<open>A black uncle: the parent takes the place of the grandparent, after a rotation if the node is the inner child.\<close>

lemma insert_left_finish:
  assumes t: "rb_tree g s (plug k (Br c (Br e pl p pr) q u))"
  shows "\<exists>s1 s2 s3. upd_rb s p rb_set_black = Some s1 \<and> upd_rb s1 q rb_set_red = Some s2 \<and> rb_rotate_right s2 q = Some s3
    \<and> rb_tree g s3 (plug k (Br Black pl p (Br Red pr q u)))"
proof -
  obtain s1 where s1: "upd_rb s p rb_set_black = Some s1" "rb_tree g s1 (plug k (Br c (Br Black pl p pr) q u))"
    using set_black [of g s "InL c q u # k" e pl p pr] t by auto
  obtain s2 where s2: "upd_rb s1 q rb_set_red = Some s2" "rb_tree g s2 (plug k (Br Red (Br Black pl p pr) q u))"
    using set_red [OF s1(2)] by auto
  obtain s3 where "rb_rotate_right s2 q = Some s3" "rb_tree g s3 (plug k (Br Black pl p (Br Red pr q u)))"
    using rotate_right_spec [OF s2(2)] by auto
  then show ?thesis using s1 s2 by blast
qed

lemma insert_left_outer:
  assumes t: "rb_tree g s (plug k (Br c (Br e (Br d l x r) p w) q u))" and u: "rcol u = Black"
  shows "\<exists>s'. insert_left s x p q = Some (s', x) \<and> rb_tree g s' (plug k (Br Black (Br d l x r) p (Br Red w q u)))"
proof -
  obtain gn where gn: "rbn s q = Some gn" "rb_right gn = rptr u" using rb_tree_node [OF t] by auto
  have red: "red_at s (rptr u) = Some False" using red_at_tree [of g s "InR c (Br e (Br d l x r) p w) q # k" u] t u by simp
  obtain pn where pn: "rbn s p = Some pn" "rb_right pn = rptr w"
    using rb_tree_node [of g s "InL c q u # k" e "Br d l x r" p w] t by auto
  have "x \<noteq> rptr w" using rb_treeD(1) [OF t] rptr_in [of w] by (cases w) (auto simp: rb_valid_def)
  then show ?thesis using insert_left_finish [OF t] gn red pn by (auto simp: insert_left_def)
qed

lemma insert_left_inner:
  assumes t: "rb_tree g s (plug k (Br c (Br e w p (Br d l x r)) q u))" and u: "rcol u = Black"
  shows "\<exists>s'. insert_left s x p q = Some (s', p) \<and> rb_tree g s' (plug k (Br Black (Br e w p l) x (Br Red r q u)))"
proof -
  obtain gn where gn: "rbn s q = Some gn" "rb_right gn = rptr u" using rb_tree_node [OF t] by auto
  have red: "red_at s (rptr u) = Some False" using red_at_tree [of g s "InR c (Br e w p (Br d l x r)) q # k" u] t u by simp
  obtain pn where pn: "rbn s p = Some pn" "rb_right pn = x"
    using rb_tree_node [of g s "InL c q u # k" e w p "Br d l x r"] t by auto
  obtain s1 where s1: "rb_rotate_left s p = Some s1" "rb_tree g s1 (plug k (Br c (Br d (Br e w p l) x r) q u))"
    using rotate_left_spec [of g s "InL c q u # k" e w p d l x r] t by auto
  show ?thesis using insert_left_finish [OF s1(2)] gn red pn s1(1) by (auto simp: insert_left_def)
qed

lemma insert_left_step:
  assumes inv: "ins_inv g s (f # InL d q u # k) t" and f: "f = InL Red p w \<or> f = InR Red w p"
  shows "\<exists>s' k' t'. insert_left s (rptr t) p q = Some (s', rptr t') \<and> ins_inv g s' k' t' \<and> length k' < Suc (Suc (length k))
    \<and> inorder (plug k' t') = inorder (plug (f # InL d q u # k) t)"
proof -
  obtain l x r where t: "t = Br Red l x r" using inv by (cases t) (auto simp: ins_inv_def)
  have d: "d = Black" using inv f by (auto simp: ins_inv_def)
  consider ul v ur where "u = Br Red ul v ur" | "rcol u = Black" by (cases u; cases "rcol u") auto
  then show ?thesis
  proof cases
    case 1
    let ?p = "if f = InL Red p w then Br Black t p w else Br Black w p t"
    obtain s' where s': "insert_left s x p q = Some (s', q)" "rb_tree g s' (plug k (Br Red ?p q (Br Black ul v ur)))"
      using insert_left_red [of g s k d Red _ p _ q ul v ur] inv f by (fastforce simp: ins_inv_def 1)
    then show ?thesis using inv f t d 1
      by (intro exI [of _ s'] exI [of _ k] exI [of _ "Br Red ?p q (Br Black ul v ur)"]) (auto simp: ins_inv_def)
  next
    case 2
    show ?thesis
    proof (cases "f = InL Red p w")
      case True
      obtain s' where "insert_left s x p q = Some (s', x)" "rb_tree g s' (plug k (Br Black (Br Red l x r) p (Br Red w q u)))"
        using insert_left_outer [of g s k d Red Red l x r p w q u] inv 2 True t by (auto simp: ins_inv_def)
      then show ?thesis using inv True t d 2
        by (intro exI [of _ s'] exI [of _ "InL Black p (Br Red w q u) # k"] exI [of _ t]) (auto simp: ins_inv_def)
    next
      case False
      then have f: "f = InR Red w p" using f by simp
      obtain s' where "insert_left s x p q = Some (s', p)" "rb_tree g s' (plug k (Br Black (Br Red w p l) x (Br Red r q u)))"
        using insert_left_inner [of g s k d Red w p Red l x r q u] inv 2 f t by (auto simp: ins_inv_def)
      then show ?thesis using inv f t d 2
        by (intro exI [of _ s'] exI [of _ "InL Black x (Br Red r q u) # k"] exI [of _ "Br Red w p l"]) (auto simp: ins_inv_def)
    qed
  qed
qed

lemma insert_right_step:
  assumes inv: "ins_inv g s (f # InR d u q # k) t" and f: "f = InL Red p w \<or> f = InR Red w p"
  shows "\<exists>s' k' t'. insert_right s (rptr t) p q = Some (s', rptr t') \<and> ins_inv g s' k' t' \<and> length k' < Suc (Suc (length k))
    \<and> inorder (plug k' t') = inorder (plug (f # InR d u q # k) t)"
proof -
  have i: "ins_inv (\<lambda>x. map_option flip_node (g x)) (flip s) (mirror_frame f # InL d q (mirror u) # map mirror_frame k) (mirror t)"
    using ins_inv_flip [OF inv] by simp
  have m: "mirror_frame f = InL Red p (mirror w) \<or> mirror_frame f = InR Red (mirror w) p" using f by auto
  obtain s' k' t' where s': "insert_left (flip s) (rptr (mirror t)) p q = Some (s', rptr t')"
    "ins_inv (\<lambda>x. map_option flip_node (g x)) s' k' t'" "length k' < Suc (Suc (length k))"
    "inorder (plug k' t') = inorder (plug (mirror_frame f # InL d q (mirror u) # map mirror_frame k) (mirror t))"
    using insert_left_step [OF i m] by (metis length_map)
  obtain s2 where "insert_right s (rptr t) p q = Some (s2, rptr (mirror t'))" "s2 = flip s'"
    using s'(1) by (auto simp: flip_simps flip_fst_def)
  moreover have "inorder (plug (map mirror_frame k') (mirror t')) = inorder (plug (f # InR d u q # k) t)"
    using arg_cong [OF s'(4), of rev] plug_mirror [of k' t'] plug_mirror [of "f # InR d u q # k" t]
    by (metis inorder_mirror list.simps(9) mirror_frame.simps(2) rev_rev_ident)
  ultimately show ?thesis using ins_inv_unflip [OF s'(2)] s'(3)
    by (intro exI [of _ s2] exI [of _ "map mirror_frame k'"] exI [of _ "mirror t'"]) auto
qed

text \<open>The cases of the loop condition.\<close>

fun fcol :: "frame \<Rightarrow> rbcolor" where
  "fcol (InL c a r) = c"
| "fcol (InR c l a) = c"

lemma ins_inv_cases:
  assumes "ins_inv g s k t"
  obtains (out) "k = [] \<or> (\<exists>f k'. k = f # k' \<and> fcol f = Black)"
    | (left) f p w d q u k' where "k = f # InL d q u # k'" "f = InL Red p w \<or> f = InR Red w p"
    | (right) f p w d q u k' where "k = f # InR d u q # k'" "f = InL Red p w \<or> f = InR Red w p"
proof (cases "k = [] \<or> (\<exists>f k'. k = f # k' \<and> fcol f = Black)")
  case False
  then obtain f k' where k: "k = f # k'" "fcol f = Red" by (cases k) auto
  obtain p w where f: "f = InL Red p w \<or> f = InR Red w p" using k(2) by (cases f) auto
  have "k' \<noteq> []" using assms k f by (auto simp: ins_inv_def)
  then obtain f' k2 where "k' = f' # k2" by (cases k') auto
  then show ?thesis using left right k f by (cases f') blast+
qed (rule out)

lemma parent_node:
  assumes "rb_tree g s (plug (f # k) t)"
  shows "\<exists>n. rbn s (cptr [f]) = Some n \<and> rb_parent n = cptr k \<and> rb_color n = col (fcol f)
    \<and> (\<forall>c a r. f = InL c a r \<longrightarrow> rb_left n = rptr t \<and> rb_right n = rptr r)
    \<and> (\<forall>c l a. f = InR c l a \<longrightarrow> rb_left n = rptr l \<and> rb_right n = rptr t)"
  using assms by (cases f) (auto elim!: rb_tree_node)

lemma parent_black:
  assumes "k = [] \<or> (\<exists>f k'. k = f # k' \<and> fcol f = Black)" "rb_tree g s (plug k t)"
  shows "red_at s (cptr k) = Some False"
proof (cases k)
  case (Cons f k')
  then show ?thesis using parent_node [of g s f k' t] assms by (cases f) (auto simp: red_at_def rb_is_red_def RB_BLACK_def)
qed (simp add: red_at_def)

lemma balanced_out:
  assumes "k = [] \<or> (\<exists>f k'. k = f # k' \<and> fcol f = Black)" "ins_inv g s k t"
  shows "balanced (plug k t)"
proof (cases k)
  case (Cons f k')
  then have "fits k (rcol t) (bheight t)" using assms by (cases f) (auto simp: ins_inv_def)
  then show ?thesis using assms(2) red_black_plug [of k t] by (simp add: red_black_def ins_inv_def)
qed (use assms in \<open>simp add: ins_inv_def\<close>)

text \<open>What the loop reads when the parent is red.\<close>

lemma red_parent:
  assumes "rb_tree g s (plug (f # h # k) t)" "f = InL Red p w \<or> f = InR Red w p"
  shows "red_at s p = Some True" "cptr (f # h # k) = p"
    "\<exists>n. rbn s p = Some n \<and> rb_parent n = cptr [h]"
    "\<exists>n. rbn s (cptr [h]) = Some n \<and> (p = rb_left n \<longleftrightarrow> (\<exists>c a r. h = InL c a r))"
proof -
  let ?p = "if f = InL Red p w then Br Red t p w else Br Red w p t"
  have "plug (f # h # k) t = plug (h # k) ?p" and f: "cptr (f # h # k) = p" using assms(2) by auto
  moreover obtain l r where p: "?p = Br Red l p r" by (cases "f = InL Red p w") simp_all
  ultimately have t: "rb_tree g s (plug (h # k) (Br Red l p r))" using assms(1) by (simp only:)
  show "red_at s p = Some True" using red_at_tree [OF t] by simp
  show "cptr (f # h # k) = p" by (rule f)
  obtain n where "rbn s p = Some n" "rb_parent n = cptr (h # k)" using rb_tree_node [OF t] .
  moreover have "cptr (h # k) = cptr [h]" by (cases h) auto
  ultimately show "\<exists>n. rbn s p = Some n \<and> rb_parent n = cptr [h]" by simp
  have "p \<noteq> rptr w" if "h = InR c w a" for c w a
    using rb_valid_notin [of "before (h # k) @ inorder l" p "inorder r @ after (h # k)"] rb_treeD(1) [OF t] that rptr_in [of w]
    by (cases "rptr w = 0") auto
  then show "\<exists>n. rbn s (cptr [h]) = Some n \<and> (p = rb_left n \<longleftrightarrow> (\<exists>c a r. h = InL c a r))"
    using parent_node [OF t] by (cases h) auto
qed

lemma insert_loop_spec:
  "ins_inv g s k t \<Longrightarrow> \<exists>s' t'. insert_loop s (rptr t) = Some s' \<and> rb_tree g s' t' \<and> balanced t' \<and> inorder t' = inorder (plug k t)"
proof (induction "length k" arbitrary: s k t rule: less_induct)
  case less
  obtain l x r where t: "t = Br Red l x r" using less.prems by (cases t) (auto simp: ins_inv_def)
  have tr: "rb_tree g s (plug k (Br Red l x r))" using less.prems t by (simp add: ins_inv_def)
  obtain n where n: "rbn s x = Some n" "rb_parent n = cptr k" using rb_tree_node [OF tr] .
  consider (out) "k = [] \<or> (\<exists>f k'. k = f # k' \<and> fcol f = Black)"
    | (left) f p w d q u k' where "k = f # InL d q u # k'" "f = InL Red p w \<or> f = InR Red w p"
    | (right) f p w d q u k' where "k = f # InR d u q # k'" "f = InL Red p w \<or> f = InR Red w p"
    by (rule ins_inv_cases [OF less.prems])
  then show ?case
  proof cases
    case out
    have "red_at s (cptr k) = Some False" using out tr by (rule parent_black)
    moreover have "balanced (plug k t)" using out less.prems by (rule balanced_out)
    ultimately show ?thesis using n t tr by (subst insert_loop.simps) auto
  next
    case left
    note p = red_parent [OF tr [unfolded left(1)] left(2)]
    obtain s' k2 t' where s': "insert_left s (rptr t) p q = Some (s', rptr t')" "ins_inv g s' k2 t'"
      "length k2 < length k" "inorder (plug k2 t') = inorder (plug k t)"
      using insert_left_step [of g s f d q u k' t p w] less.prems left by auto
    then show ?thesis using less.hyps [OF s'(3,2)] n p t left(1) by (subst insert_loop.simps) auto
  next
    case right
    note p = red_parent [OF tr [unfolded right(1)] right(2)]
    obtain s' k2 t' where s': "insert_right s (rptr t) p q = Some (s', rptr t')" "ins_inv g s' k2 t'"
      "length k2 < length k" "inorder (plug k2 t') = inorder (plug k t)"
      using insert_right_step [of g s f d u q k' t p w] less.prems right by auto
    then show ?thesis using less.hyps [OF s'(3,2)] n p t right(1) by (subst insert_loop.simps) auto
  qed
qed

section \<open>Insertion at a position\<close>

lemma rb_insert_color_spec:
  assumes "ins_inv g s k t"
  shows "\<exists>s' t'. rb_insert_color s (rptr t) = Some s' \<and> rb_tree g s' t' \<and> red_black t' \<and> inorder t' = inorder (plug k t)"
proof -
  obtain s1 t1 where s1: "insert_loop s (rptr t) = Some s1" "rb_tree g s1 t1" "balanced t1" "inorder t1 = inorder (plug k t)"
    using insert_loop_spec [OF assms] by blast
  have "t \<noteq> Tip" using assms by (auto simp: ins_inv_def)
  then obtain c l a r where t1: "t1 = Br c l a r" using s1(4) by (cases t1; cases t) auto
  then obtain s2 where "upd_rb s1 a rb_set_black = Some s2" "rb_tree g s2 (Br Black l a r)"
    using set_black [of g s1 "[]" c l a r] s1(2) by auto
  moreover have "rb_top s1 = a" using s1(2) t1 by (simp add: rb_tree_def)
  ultimately show ?thesis using s1 t1
    by (intro exI [of _ s2] exI [of _ "Br Black l a r"]) (auto simp: rb_insert_color_def red_black_def)
qed

fun link_of :: "frame list \<Rightarrow> rb_link" where
  "link_of [] = Link_root"
| "link_of (InL c a r # k) = Link_left a"
| "link_of (InR c l a # k) = Link_right a"

lemma store_link_spec:
  assumes "clinks (rb_nodes s) k y" "rb_valid (before k @ after k)" "rb_top s = ctop k y"
  shows "\<exists>s'. store_link s (link_of k) x = Some s' \<and> clinks (rb_nodes s') k x \<and> rb_top s' = ctop k x
    \<and> (\<forall>z. z \<notin> set (before k) \<union> set (after k) \<longrightarrow> rb_nodes s' z = rb_nodes s z)"
  using assms by (cases k rule: link_of.cases) (auto simp: upd_rb_def rbn_def rb_valid_def elim!: cellE)

lemma rb_link_node_spec:
  assumes t: "rb_tree g s (plug k Tip)" and x: "x \<noteq> 0" "aligned x" "x \<notin> set (inorder (plug k Tip))" "g x \<noteq> None"
  shows "\<exists>s'. rb_link_node s x (cptr k) (link_of k) = Some s' \<and> rb_tree g s' (plug k (Br Red Tip x Tip))"
proof -
  note d = rb_treeD [OF t]
  let ?n = "\<lparr>rb_parent_color = cptr k, rb_right = 0, rb_left = 0\<rparr>"
  let ?s1 = "s\<lparr>rb_nodes := (rb_nodes s)(x \<mapsto> ?n)\<rparr>"
  obtain m where "rb_nodes s x = Some m" using d(5) [of x] x by auto
  then have s1: "upd_rb s x (\<lambda>n. n\<lparr>rb_parent_color := cptr k, rb_right := 0, rb_left := 0\<rparr>) = Some ?s1"
    using x(1) by (cases m) (simp add: upd_rb_def rbn_def)
  have al: "aligned (cptr k)" using aligned_cptr [OF d(1)] .
  then have "rb_color ?n = RB_RED"
    using aligned_bits [OF al, of 0] by (auto simp: rb_color_def RB_RED_def rb_bits intro!: gr0I)
  then have n: "rb_parent ?n = cptr k" "rb_color ?n = col Red" using not3_aligned [OF al] by (simp_all add: rb_parent_def)
  have v: "rb_valid (before k @ inorder (Br Red Tip x Tip) @ after k)" using d(1) x by (auto simp: rb_valid_def)
  have "clinks (rb_nodes ?s1) k 0" "rb_valid (before k @ after k)" "rb_top ?s1 = ctop k 0" using d x(3) by auto
  then obtain s2 where s2: "store_link ?s1 (link_of k) x = Some s2"
    "clinks (rb_nodes s2) k x" "rb_top s2 = ctop k x"
    "\<And>z. z \<notin> set (before k) \<union> set (after k) \<Longrightarrow> rb_nodes s2 z = rb_nodes ?s1 z"
    using store_link_spec [of ?s1 k 0 x] by blast
  have "rb_tree g s2 (plug k (Br Red Tip x Tip))"
  proof (rule rb_treeI [OF v])
    show "links (rb_nodes s2) (cptr k) (Br Red Tip x Tip)" using s2(4) [of x] x(3) n by (simp add: cell_def)
    show "rb_nodes s2 y = g y" if "y \<notin> set (before k @ inorder (Br Red Tip x Tip) @ after k)" for y
      using that s2(4) [of y] d(5) [of y] by simp
  qed (use s2 in simp_all)
  then show ?thesis using s1 s2(1) by (simp add: rb_link_node_def)
qed

lemma rb_insert_spec:
  assumes t: "rb_tree g s (plug k Tip)" "red_black (plug k Tip)"
    and x: "x \<noteq> 0" "aligned x" "x \<notin> set (inorder (plug k Tip))" "g x \<noteq> None"
  shows "\<exists>s1 s' t'. rb_link_node s x (cptr k) (link_of k) = Some s1 \<and> rb_insert_color s1 x = Some s'
    \<and> rb_tree g s' t' \<and> red_black t' \<and> inorder t' = before k @ x # after k"
proof -
  obtain s1 where s1: "rb_link_node s x (cptr k) (link_of k) = Some s1" "rb_tree g s1 (plug k (Br Red Tip x Tip))"
    using rb_link_node_spec [OF t(1) x] by blast
  then have "ins_inv g s1 k (Br Red Tip x Tip)" using t(2) by (simp add: ins_inv_def red_black_plug)
  from rb_insert_color_spec [OF this] show ?thesis using s1(1) by simp
qed

end
