(* ===== verification/Rbtree_Erase.thy ===== *)
theory Rbtree_Erase
  imports Rbtree_Insert
begin

text \<open>
  Removal from a red-black tree: the loop of \<^verbatim>\<open>__rb_erase_color\<close>, and the two ways in which \<^verbatim>\<open>rb_erase\<close> takes a node out.
\<close>

section \<open>The loop\<close>

fun blacken :: "rbt \<Rightarrow> rbt" where
  "blacken Tip = Tip"
| "blacken (Br c l a r) = Br Black l a r"

lemma inorder_blacken [simp]: "inorder (blacken t) = inorder t"
  by (cases t) auto

lemma mirror_blacken [simp]: "mirror (blacken t) = blacken (mirror t)"
  by (cases t) auto

lemma blacken_id: "rcol t = Black \<Longrightarrow> blacken t = t"
  by (cases t) auto

lemma fits_Red: "fits k Red h \<Longrightarrow> fits k Black h"
  by (cases k rule: cptr.cases) auto

text \<open>The subtree at the position is one black node short, which is repaired at once if its root is red.\<close>

definition del_inv :: "(u64 \<rightharpoonup> rb_node) \<Rightarrow> rb_state \<Rightarrow> frame list \<Rightarrow> rbt \<Rightarrow> bool" where
  "del_inv g s k t \<longleftrightarrow> rb_tree g s (plug k t) \<and> balanced (blacken t) \<and> fits k Black (Suc (bheight t))"

lemma bheight_blacken: "balanced (blacken t) \<Longrightarrow> bheight (mirror t) = bheight t"
  by (cases t) auto

lemma del_inv_flip:
  "del_inv g s k t \<Longrightarrow> del_inv (\<lambda>x. map_option flip_node (g x)) (flip s) (map mirror_frame k) (mirror t)"
  using rb_tree_flipD [of g s "plug k t"]
  by (simp add: del_inv_def fits_mirror plug_mirror bheight_blacken flip: mirror_blacken)

lemma del_inv_unflip:
  assumes "del_inv (\<lambda>x. map_option flip_node (g x)) s k t"
  shows "del_inv g (flip s) (map mirror_frame k) (mirror t)"
  using del_inv_flip [OF assms] by (simp add: option.map_comp o_def option.map_ident)

text \<open>A red sibling is rotated away.\<close>

lemma sibling_left_black:
  assumes t: "rb_tree g s (plug k (Br c t p w))" and w: "rcol w = Black" "w \<noteq> Tip"
  shows "sibling_left s p = Some (s, rptr w)"
proof -
  obtain v b z where w': "w = Br Black v b z" using w by (cases w) auto
  obtain pn where pn: "rbn s p = Some pn" "rb_right pn = b" using rb_tree_node [OF t] w' by auto
  obtain on where on: "rbn s b = Some on" "rb_color on = col Black"
    using rb_tree_node [of g s "InR c t p # k" Black v b z] t w' by auto
  then have "\<not> rb_is_red on" using col_eq(2) [of on Black] by simp
  then show ?thesis using pn on w' by (simp add: sibling_left_def)
qed

lemma sibling_left_red:
  assumes t: "rb_tree g s (plug k (Br c t p (Br Red v b z)))"
  shows "\<exists>s'. sibling_left s p = Some (s', rptr v) \<and> rb_tree g s' (plug k (Br Black (Br Red t p v) b z))"
proof -
  obtain pn where pn: "rbn s p = Some pn" "rb_right pn = b" using rb_tree_node [OF t] by auto
  obtain on where on: "rbn s b = Some on" "rb_color on = col Red"
    using rb_tree_node [of g s "InR c t p # k" Red v b z] t by auto
  then have red: "rb_is_red on" using col_eq(2) [of on Red] by simp
  obtain s1 where s1: "upd_rb s b rb_set_black = Some s1" "rb_tree g s1 (plug k (Br c t p (Br Black v b z)))"
    using set_black [of g s "InR c t p # k" Red v b z] t by auto
  obtain s2 where s2: "upd_rb s1 p rb_set_red = Some s2" "rb_tree g s2 (plug k (Br Red t p (Br Black v b z)))"
    using set_red [OF s1(2)] by auto
  obtain s3 where s3: "rb_rotate_left s2 p = Some s3" "rb_tree g s3 (plug k (Br Black (Br Red t p v) b z))"
    using rotate_left_spec [OF s2(2)] by auto
  obtain pn3 where "rbn s3 p = Some pn3" "rb_right pn3 = rptr v"
    using rb_tree_node [of g s3 "InL Black b z # k" Red t p v] s3(2) by auto
  then show ?thesis using pn on red s1(1) s2(1) s3 by (simp add: sibling_left_def)
qed

lemma turn_left_spec:
  assumes t: "rb_tree g s (plug k (Br c t p (Br e (Br d x a y) b z)))"
  shows "\<exists>s'. turn_left s p b = Some (s', a) \<and> rb_tree g s' (plug k (Br c t p (Br Black x a (Br Red y b z))))"
proof -
  let ?k = "InR c t p # k"
  obtain on where on: "rbn s b = Some on" "rb_left on = a" using rb_tree_node [of g s ?k e "Br d x a y" b z] t by auto
  obtain s1 where s1: "upd_rb s a rb_set_black = Some s1" "rb_tree g s1 (plug ?k (Br e (Br Black x a y) b z))"
    using set_black [of g s "InL e b z # ?k" d x a y] t by auto
  obtain s2 where s2: "upd_rb s1 b rb_set_red = Some s2" "rb_tree g s2 (plug ?k (Br Red (Br Black x a y) b z))"
    using set_red [OF s1(2)] by auto
  obtain s3 where s3: "rb_rotate_right s2 b = Some s3" "rb_tree g s3 (plug ?k (Br Black x a (Br Red y b z)))"
    using rotate_right_spec [OF s2(2)] by auto
  obtain pn where "rbn s3 p = Some pn" "rb_right pn = a"
    using rb_tree_node [of g s3 k c t p "Br Black x a (Br Red y b z)"] s3(2) by auto
  then show ?thesis using on s1(1) s2(1) s3 by (simp add: turn_left_def)
qed

lemma set_color_col [simp]: "rb_parent (rb_set_color (col c) n) = rb_parent n" "rb_color (rb_set_color (col c) n) = col c"
proof -
  obtain m where "col c = rb_color m" using rb_color_set(2,3) by (cases c) (metis col.simps)+
  then show "rb_parent (rb_set_color (col c) n) = rb_parent n" "rb_color (rb_set_color (col c) n) = col c" by simp_all
qed

lemma finish_left_spec:
  assumes t: "rb_tree g s (plug k (Br c t p (Br e v b (Br d x a y))))"
  shows "\<exists>s'. finish_left s p b = Some s' \<and> rb_tree g s' (plug k (Br c (Br Black t p v) b (Br Black x a y)))"
proof -
  obtain pn where pn: "rbn s p = Some pn" "rb_color pn = col c" using rb_tree_node [OF t] .
  obtain s1 where s1: "upd_rb s b (rb_set_color (rb_color pn)) = Some s1"
    "rb_tree g s1 (plug k (Br c t p (Br c v b (Br d x a y))))"
    using recolour [of g s "InR c t p # k" e v b "Br d x a y" "rb_set_color (rb_color pn)" c] t pn by auto
  obtain s2 where s2: "upd_rb s1 p rb_set_black = Some s2" "rb_tree g s2 (plug k (Br Black t p (Br c v b (Br d x a y))))"
    using set_black [OF s1(2)] by auto
  obtain on where on: "rbn s2 b = Some on" "rb_right on = a"
    using rb_tree_node [of g s2 "InR Black t p # k" c v b "Br d x a y"] s2(2) by auto
  obtain s3 where s3: "upd_rb s2 a rb_set_black = Some s3" "rb_tree g s3 (plug k (Br Black t p (Br c v b (Br Black x a y))))"
    using set_black [of g s2 "InR c v b # InR Black t p # k" d x a y] s2(2) by auto
  then obtain s4 where "rb_rotate_left s3 p = Some s4" "rb_tree g s4 (plug k (Br c (Br Black t p v) b (Br Black x a y)))"
    using rotate_left_spec [OF s3(2)] by auto
  then show ?thesis using pn s1(1) s2(1) on s3(1) by (simp add: finish_left_def)
qed

text \<open>The result of a round: the loop goes on nearer to the root or at a red node, or it ends with a red-black tree. A
  round keeps the order \<open>xs\<close> of the nodes.\<close>

definition del_measure :: "frame list \<Rightarrow> rbt \<Rightarrow> nat" where
  "del_measure k t = 2 * length k + (if rcol t = Black then 1 else 0)"

definition del_round :: "(u64 \<rightharpoonup> rb_node) \<Rightarrow> u64 list \<Rightarrow> nat \<Rightarrow> rb_state \<times> u64 \<times> u64 option \<Rightarrow> bool" where
  "del_round g xs m r \<longleftrightarrow> (case r of
     (s, n, None) \<Rightarrow> n = rb_top s \<and> (\<exists>t. rb_tree g s t \<and> red_black t \<and> inorder t = xs)
   | (s, n, Some q) \<Rightarrow> \<exists>k t. n = rptr t \<and> q = cptr k \<and> del_inv g s k t \<and> inorder (plug k t) = xs \<and> del_measure k t < m)"

lemma red_children_spec:
  assumes "rb_tree g s (plug k (Br c l a r))" "rbn s a = Some n"
  shows "red_children s n = Some (rcol l = Red, rcol r = Red)"
proof -
  have "rb_left n = rptr l" "rb_right n = rptr r" using rb_tree_node [OF assms(1)] assms(2) by auto
  then show ?thesis
    using red_at_tree [of g s "InL c a r # k" l] red_at_tree [of g s "InR c l a # k" r] assms(1) by (simp add: red_children_def)
qed

lemma erase_left_black:
  assumes sib: "sibling_left s0 p = Some (s, b)" and t: "rb_tree g s (plug k (Br c t p (Br Black v b z)))"
    and bal: "balanced t" "balanced v" "balanced z" "bheight v = bheight t" "bheight z = bheight t" "rcol t = Black"
    and fits: "fits k c (if c = Black then Suc (Suc (bheight t)) else Suc (bheight t))"
    and m: "2 * length k + (if c = Black then 1 else 0) < m"
  shows "\<exists>r. erase_left s0 p = Some r \<and> del_round g (inorder (plug k (Br c t p (Br Black v b z)))) m r"
proof -
  let ?xs = "inorder (plug k (Br c t p (Br Black v b z)))"
  have t': "rb_tree g s (plug (InR c t p # k) (Br Black v b z))" using t by simp
  obtain on where on: "rbn s b = Some on" using rb_tree_node [OF t'] .
  note ch = red_children_spec [OF t' on]
  have fin: "\<exists>r. Option.bind (finish_left s1 p x) (\<lambda>s4. Some (s4, rb_top s4, None)) = Some r \<and> del_round g ?xs m r"
    if s1: "rb_tree g s1 (plug k (Br c t p (Br Black v' x (Br Red y u w))))"
      and b: "balanced v'" "balanced (Br Red y u w)" "bheight v' = bheight t" "bheight y = bheight t"
      and i: "inorder v' @ x # inorder y @ u # inorder w = inorder v @ b # inorder z" for s1 x v' y u w
  proof -
    obtain s2 where s2: "finish_left s1 p x = Some s2" "rb_tree g s2 (plug k (Br c (Br Black t p v') x (Br Black y u w)))"
      using finish_left_spec [OF s1] by blast
    moreover have "red_black (plug k (Br c (Br Black t p v') x (Br Black y u w)))"
      using b bal fits by (auto simp: red_black_plug)
    moreover have "inorder (plug k (Br c (Br Black t p v') x (Br Black y u w))) = ?xs" using i by simp
    ultimately show ?thesis by (auto simp: del_round_def)
  qed
  consider "rcol v = Black" "rcol z = Black" | y u w where "z = Br Red y u w" | y u w where "rcol z = Black" "v = Br Red y u w"
    by (cases z; cases v; cases "rcol z"; cases "rcol v") auto
  then show ?thesis
  proof cases
    case 1
    obtain s2 where s2: "upd_rb s b rb_set_red = Some s2" "rb_tree g s2 (plug k (Br c t p (Br Red v b z)))"
      using set_red [OF t'] by auto
    obtain pn where "rbn s2 p = Some pn" "rb_parent pn = cptr k" using rb_tree_node [OF s2(2)] .
    moreover have "del_inv g s2 k (Br c t p (Br Red v b z))"
      using s2(2) bal fits 1 fits_Red [of k "Suc (bheight t)"] by (cases c) (auto simp: del_inv_def)
    ultimately show ?thesis using sib on ch 1 s2(1) m
      by (auto simp: erase_left_def del_round_def del_measure_def intro!: exI [of _ k] exI [of _ "Br c t p (Br Red v b z)"])
  next
    case 2
    then show ?thesis using fin [of s v b y u w] t bal sib on ch by (simp add: erase_left_def)
  next
    case 3
    obtain s1 where "turn_left s p b = Some (s1, u)" "rb_tree g s1 (plug k (Br c t p (Br Black y u (Br Red w b z))))"
      using turn_left_spec [of g s k c t p Black Red y u w b z] t 3 by auto
    then show ?thesis using fin [of s1 y u w b z] bal sib on ch 3 by (simp add: erase_left_def)
  qed
qed

lemma erase_left_step:
  assumes inv: "del_inv g s (InL c p w # k) t" and t: "rcol t = Black"
  shows "\<exists>r. erase_left s p = Some r \<and> del_round g (inorder (plug (InL c p w # k) t)) (del_measure (InL c p w # k) t) r"
proof -
  have tr: "rb_tree g s (plug k (Br c t p w))" and w: "balanced w" "bheight w = Suc (bheight t)" "c = Red \<longrightarrow> rcol w = Black"
    and f: "fits k c (if c = Black then Suc (Suc (bheight t)) else Suc (bheight t))" and bt: "balanced t"
    using inv t by (auto simp: del_inv_def blacken_id)
  then obtain e v b z where w': "w = Br e v b z" by (cases w) auto
  show ?thesis
  proof (cases e)
    case Black
    then show ?thesis
      using erase_left_black [of s p s b g k c t v z "del_measure (InL c p w # k) t"] sibling_left_black [OF tr] tr w f bt t w'
      by (auto simp: del_measure_def)
  next
    case Red
    then obtain s1 where s1: "sibling_left s p = Some (s1, rptr v)" "rb_tree g s1 (plug k (Br Black (Br Red t p v) b z))"
      using sibling_left_red tr w' by blast
    obtain v1 b1 z1 where v: "v = Br Black v1 b1 z1" using w w' Red by (cases v) auto
    show ?thesis
      using erase_left_black [of s p s1 b1 g "InL Black b z # k" Red t v1 z1 "del_measure (InL c p w # k) t"] s1 w f bt t w' v Red
      by (auto simp: del_measure_def)
  qed
qed

lemma red_black_mirror [simp]: "red_black (mirror t) \<longleftrightarrow> red_black t"
  by (simp add: red_black_def)

lemma inorder_plug_mirror: "inorder (plug (map mirror_frame k) (mirror t)) = rev (inorder (plug k t))"
  by (simp only: plug_mirror [symmetric] inorder_mirror)

lemma rb_tree_unflip: "rb_tree (\<lambda>x. map_option flip_node (g x)) s t \<Longrightarrow> rb_tree g (flip s) (mirror t)"
  using rb_tree_flip [of g "flip s" "mirror t"] by simp

lemma del_round_flip:
  assumes "del_round (\<lambda>x. map_option flip_node (g x)) (rev xs) m r"
  shows "del_round g xs m (flip_fst r)"
proof (cases r)
  case (fields s n q)
  show ?thesis
  proof (cases q)
    case None
    then obtain t where "rb_tree (\<lambda>x. map_option flip_node (g x)) s t" "red_black t" "inorder t = rev xs" "n = rb_top s"
      using assms fields by (auto simp: del_round_def)
    then show ?thesis using fields None rb_tree_unflip
      by (auto simp: del_round_def flip_fst_def intro!: exI [of _ "mirror t"])
  next
    case (Some p)
    then obtain k t where kt: "n = rptr t" "p = cptr k" "del_inv (\<lambda>x. map_option flip_node (g x)) s k t"
      "inorder (plug k t) = rev xs" "del_measure k t < m"
      using assms fields by (auto simp: del_round_def)
    have "cptr (map mirror_frame k) = cptr k" by (cases k rule: cptr.cases) auto
    moreover have "inorder (plug (map mirror_frame k) (mirror t)) = xs" using kt(4) by (simp only: inorder_plug_mirror rev_rev_ident)
    ultimately show ?thesis using fields Some kt del_inv_unflip [OF kt(3)]
      by (auto simp: del_round_def flip_fst_def del_measure_def intro!: exI [of _ "map mirror_frame k"] exI [of _ "mirror t"])
  qed
qed

lemma erase_right_step:
  assumes inv: "del_inv g s (InR c w p # k) t" and t: "rcol t = Black"
  shows "\<exists>r. erase_right s p = Some r \<and> del_round g (inorder (plug (InR c w p # k) t)) (del_measure (InR c w p # k) t) r"
proof -
  let ?k = "InL c p (mirror w) # map mirror_frame k"
  have i: "del_inv (\<lambda>x. map_option flip_node (g x)) (flip s) ?k (mirror t)" using del_inv_flip [OF inv] by simp
  obtain r where r: "erase_left (flip s) p = Some r"
    "del_round (\<lambda>x. map_option flip_node (g x)) (inorder (plug ?k (mirror t))) (del_measure ?k (mirror t)) r"
    using erase_left_step [OF i] t unfolding rcol_mirror by blast
  have "inorder (plug ?k (mirror t)) = rev (inorder (plug (InR c w p # k) t))"
    using inorder_plug_mirror [of "InR c w p # k" t] by simp
  moreover have "del_measure ?k (mirror t) = del_measure (InR c w p # k) t" by (simp add: del_measure_def)
  ultimately have "del_round g (inorder (plug (InR c w p # k) t)) (del_measure (InR c w p # k) t) (flip_fst r)"
    using del_round_flip r(2) by simp
  moreover obtain r' where "erase_right s p = Some r'" "r = flip_fst r'" using r(1) by (auto simp: flip_simps)
  ultimately show ?thesis by (simp add: flip_fst_def)
qed

lemma del_parent:
  assumes "del_inv g s k t" "k = f # k'"
  shows "\<exists>n. rbn s (cptr k) = Some n \<and> (rb_left n = rptr t \<longleftrightarrow> (\<exists>c a r. f = InL c a r))"
proof -
  have tr: "rb_tree g s (plug (f # k') t)" using assms by (simp add: del_inv_def)
  have "rptr w \<noteq> rptr t" if "f = InR c w a" for c w a
  proof -
    have "w \<noteq> Tip" using assms that by (auto simp: del_inv_def)
    then obtain d l b r where w: "w = Br d l b r" by (cases w) auto
    then show ?thesis using rb_treeD(1) [OF tr] that rptr_in [of t] by (cases "rptr t = 0") (auto simp: rb_valid_def)
  qed
  then show ?thesis using parent_node [OF tr] assms(2) by (cases f) auto
qed

lemma ctop_in: "k \<noteq> [] \<Longrightarrow> ctop k x \<in> set (before k) \<union> set (after k)"
proof (induction k x rule: ctop.induct)
  case (2 c a r k x)
  then show ?case by (cases "k = []") auto
next
  case (3 c l a k x)
  then show ?case by (cases "k = []") auto
qed simp

lemma del_not_root:
  assumes "del_inv g s k t" "k = f # k'"
  shows "rptr t \<noteq> rb_top s"
proof -
  have tr: "rb_tree g s (plug k t)" using assms by (simp add: del_inv_def)
  then have "x \<noteq> 0 \<and> x \<notin> set (inorder t)" if "x \<in> set (before k) \<union> set (after k)" for x
    using rb_treeD(1) [OF tr] that by (auto simp: rb_valid_def)
  then show ?thesis using rb_treeD(2) [OF tr] ctop_in [of k "rptr t"] assms(2) rptr_in [of t] by (metis list.distinct(1))
qed

lemma erase_loop_spec:
  "del_inv g s k t \<Longrightarrow> \<exists>s' n. erase_loop s (rptr t) (cptr k) = Some (s', n)
    \<and> (\<exists>k' t'. rb_tree g s' (plug k' t') \<and> n = rptr t' \<and> red_black (plug k' (blacken t')) \<and> inorder (plug k' t') = inorder (plug k t))"
proof (induction "del_measure k t" arbitrary: s k t rule: less_induct)
  case less
  have tr: "rb_tree g s (plug k t)" using less.prems by (simp add: del_inv_def)
  note red = red_at_tree [OF tr]
  show ?case
  proof (cases "rcol t = Red \<or> k = []")
    case True
    have "fits k (rcol (blacken t)) (bheight (blacken t))" using less.prems True by (cases t) (auto simp: del_inv_def)
    then have rb: "red_black (plug k (blacken t))" using less.prems by (simp add: red_black_plug del_inv_def)
    have top: "rptr t = rb_top s" if "k = []" using tr that by (simp add: rb_tree_def)
    have "erase_loop s (rptr t) (cptr k) = Some (s, rptr t)" using True red top by (subst erase_loop.simps) auto
    then show ?thesis using tr rb by blast
  next
    case False
    then obtain f k' where k: "k = f # k'" by (cases k) auto
    obtain n where n: "rbn s (cptr k) = Some n" "rb_left n = rptr t \<longleftrightarrow> (\<exists>c a r. f = InL c a r)"
      using del_parent [OF less.prems k] by blast
    have "\<exists>r. (if rb_left n = rptr t then erase_left s (cptr k) else erase_right s (cptr k)) = Some r
        \<and> del_round g (inorder (plug k t)) (del_measure k t) r"
      using erase_left_step erase_right_step less.prems False k n(2) by (cases f) auto
    then obtain s1 n1 q where r: "(if rb_left n = rptr t then erase_left s (cptr k) else erase_right s (cptr k)) = Some (s1, n1, q)"
      "del_round g (inorder (plug k t)) (del_measure k t) (s1, n1, q)" by auto
    have "rptr t \<noteq> rb_top s" using del_not_root [OF less.prems k] .
    then have step: "erase_loop s (rptr t) (cptr k) =
        (case q of None \<Rightarrow> Some (s1, n1) | Some p \<Rightarrow> erase_loop s1 n1 p)"
      using red False n(1) r(1) by (subst erase_loop.simps) (simp split del: if_split)
    show ?thesis
    proof (cases q)
      case None
      then obtain t' where "n1 = rb_top s1" "rb_tree g s1 t'" "red_black t'" "inorder t' = inorder (plug k t)"
        using r(2) by (auto simp: del_round_def)
      then show ?thesis using step None
        by (auto simp: rb_tree_def red_black_def blacken_id intro!: exI [of _ "[]"] exI [of _ t'])
    next
      case (Some p)
      then obtain k2 t2 where kt: "n1 = rptr t2" "p = cptr k2" "del_inv g s1 k2 t2" "inorder (plug k2 t2) = inorder (plug k t)"
        "del_measure k2 t2 < del_measure k t" using r(2) by (auto simp: del_round_def)
      from less.hyps [OF kt(5,3)] show ?thesis using step Some kt by (simp only: option.case)
    qed
  qed
qed

lemma rb_erase_color_spec:
  assumes "del_inv g s k t"
  shows "\<exists>s' t'. rb_erase_color s (rptr t) (cptr k) = Some s' \<and> rb_tree g s' t' \<and> red_black t' \<and> inorder t' = inorder (plug k t)"
proof -
  obtain s1 n k1 t1 where l: "erase_loop s (rptr t) (cptr k) = Some (s1, n)" "rb_tree g s1 (plug k1 t1)" "n = rptr t1"
    "red_black (plug k1 (blacken t1))" "inorder (plug k1 t1) = inorder (plug k t)"
    using erase_loop_spec [OF assms] by blast
  show ?thesis
  proof (cases t1)
    case Tip
    then show ?thesis using l by (intro exI [of _ s1] exI [of _ "plug k1 t1"]) (simp add: rb_erase_color_def)
  next
    case (Br c x a y)
    then obtain s2 where "upd_rb s1 a rb_set_black = Some s2" "rb_tree g s2 (plug k1 (Br Black x a y))"
      using set_black [of g s1 k1 c x a y] l(2) by auto
    moreover have "a \<noteq> 0" using rb_treeD(1) [OF l(2)] Br by (auto simp: rb_valid_def)
    ultimately show ?thesis using l Br
      by (intro exI [of _ s2] exI [of _ "plug k1 (Br Black x a y)"]) (simp add: rb_erase_color_def)
  qed
qed

section \<open>A node with at most one child\<close>

lemma unlink_one:
  assumes t: "rb_tree g s (plug k (Br c l a r))" and lr: "l = Tip \<and> t = r \<or> r = Tip \<and> t = l"
  shows "\<exists>s1 s2. adopt s (rptr t) (cptr k) = Some s1 \<and> relink_left s1 (cptr k) a (rptr t) = Some s2
    \<and> rb_tree (g(a := rb_nodes s a)) s2 (plug k t)"
proof -
  note d = rb_treeD [OF t]
  have v: "rb_valid (before k @ inorder t @ after k)" "rb_valid (inorder t)"
    "a \<noteq> 0" "a \<notin> set (before k) \<union> set (after k)" "a \<notin> set (inorder t)"
    using d(1) lr by (auto simp: rb_valid_def)
  have "links (rb_nodes s) a t" using d(4) lr by auto
  then obtain s1 where s1: "adopt s (rptr t) (cptr k) = Some s1" "links (rb_nodes s1) (cptr k) t" "rb_top s1 = rb_top s"
    "\<And>x. x \<notin> set (inorder t) \<Longrightarrow> rb_nodes s1 x = rb_nodes s x"
    using adopt_spec [of s a t "cptr k"] v(2) aligned_cptr [OF d(1)] by auto
  have disj: "x \<notin> set (inorder t)" if "x \<in> set (before k) \<union> set (after k)" for x
    using that v(1) by (auto simp: rb_valid_def)
  then have "clinks (rb_nodes s1) k a" using clinks_cong [of k "rb_nodes s1" "rb_nodes s" a] s1(4) d(3) by simp
  then obtain s2 where s2: "relink_left s1 (cptr k) a (rptr t) = Some s2" "clinks (rb_nodes s2) k (rptr t)" "rb_top s2 = ctop k (rptr t)"
    "\<And>z. z \<notin> set (before k) \<union> set (after k) \<Longrightarrow> rb_nodes s2 z = rb_nodes s1 z"
    using relink_spec [of s1 k a "rptr t"] rb_valid_context [OF d(1)] v(3,4) s1(3) d(2) by auto
  have "rb_tree (g(a := rb_nodes s a)) s2 (plug k t)"
  proof (rule rb_treeI [OF v(1) s2(3,2)])
    show "links (rb_nodes s2) (cptr k) t"
      using s1(2) s2(4) disj links_cong [of t "rb_nodes s2" "rb_nodes s1" "cptr k"] by blast
    show "rb_nodes s2 x = (g(a := rb_nodes s a)) x" if "x \<notin> set (before k @ inorder t @ after k)" for x
      using that s2(4) [of x] s1(4) [of x] d(5) [of x] lr by (cases "x = a") auto
  qed
  then show ?thesis using s1(1) s2(1) by blast
qed

lemma erase_one_spec:
  assumes t: "rb_tree g s (plug k (Br c l a r))" "red_black (plug k (Br c l a r))" and lr: "l = Tip \<and> t = r \<or> r = Tip \<and> t = l"
  shows "\<exists>s' t'. erase_one s a (rptr t) = Some s' \<and> rb_tree (g(a := rb_nodes s a)) s' t' \<and> red_black t'
    \<and> inorder t' = before k @ inorder t @ after k"
proof -
  obtain n where n: "rbn s a = Some n" "rb_parent n = cptr k" "rb_color n = col c" using rb_tree_node [OF t(1)] .
  obtain s1 s2 where s2: "adopt s (rptr t) (cptr k) = Some s1" "relink_left s1 (cptr k) a (rptr t) = Some s2"
    "rb_tree (g(a := rb_nodes s a)) s2 (plug k t)" using unlink_one [OF t(1) lr] by blast
  have f: "balanced l" "balanced r" "bheight l = bheight r" "c = Red \<longrightarrow> rcol l = Black \<and> rcol r = Black"
    "fits k c (bheight (Br c l a r))" using t(2) by (auto simp: red_black_plug)
  show ?thesis
  proof (cases c)
    case Red
    then have "t = Tip" using f lr by (cases l; cases r) auto
    then have "red_black (plug k t)" using f(5) Red lr fits_Red by (auto simp: red_black_plug)
    then show ?thesis using n s2 Red by (intro exI [of _ s2] exI [of _ "plug k t"]) (simp add: erase_one_def RB_RED_def RB_BLACK_def)
  next
    case Black
    then have "del_inv (g(a := rb_nodes s a)) s2 k t"
      using s2(3) f lr by (cases t) (auto simp: del_inv_def)
    from rb_erase_color_spec [OF this] show ?thesis using n s2(1,2) Black by (simp add: erase_one_def)
  qed
qed

section \<open>A node with two children\<close>

text \<open>The path to the leftmost node, from the top.\<close>

fun spine :: "(rbcolor \<times> u64 \<times> rbt) list \<Rightarrow> rbt \<Rightarrow> rbt" where
  "spine [] t = t"
| "spine ((c, a, r) # ms) t = Br c (spine ms t) a r"

definition spine_frames :: "(rbcolor \<times> u64 \<times> rbt) list \<Rightarrow> frame list" where
  "spine_frames ms = rev (map (\<lambda>(c, a, r). InL c a r) ms)"

lemma plug_append [simp]: "plug (k @ k') t = plug k' (plug k t)"
  by (induction k t rule: plug.induct) auto

lemma plug_spine [simp]: "plug (spine_frames ms) t = spine ms t"
  by (induction ms t rule: spine.induct) (auto simp: spine_frames_def)

lemma left_spine: "t \<noteq> Tip \<Longrightarrow> \<exists>ms d x y. t = spine ms (Br d Tip x y)"
proof (induction t)
  case (Br c l a r)
  show ?case
  proof (cases "l = Tip")
    case True
    then show ?thesis by (intro exI [of _ "[]"]) auto
  next
    case False
    then obtain ms d x y where "l = spine ms (Br d Tip x y)" using Br.IH by blast
    then show ?thesis by (intro exI [of _ "(c, a, r) # ms"]) auto
  qed
qed simp

lemma rptr_spine: "0 \<notin> set (inorder (spine ms (Br d Tip x y))) \<Longrightarrow> rptr (spine ms (Br d Tip x y)) \<noteq> 0"
  by (cases ms) auto

lemma go_left_spec:
  "links (rb_nodes s) p (spine ms (Br d Tip x y)) \<Longrightarrow> 0 \<notin> set (inorder (spine ms (Br d Tip x y))) \<Longrightarrow>
    go_left s (rptr (spine ms (Br d Tip x y))) = Some x"
proof (induction ms arbitrary: p)
  case Nil
  then show ?case by (subst go_left.simps) (auto simp: rbn_def elim!: cellE)
next
  case (Cons m ms)
  obtain c a r where m: "m = (c, a, r)" by (cases m)
  then have "go_left s (rptr (spine ms (Br d Tip x y))) = Some x" "rptr (spine ms (Br d Tip x y)) \<noteq> 0"
    using Cons rptr_spine by auto
  then show ?case using Cons.prems m by (subst go_left.simps) (auto simp: rbn_def elim!: cellE)
qed

definition spine_parent :: "u64 \<Rightarrow> (rbcolor \<times> u64 \<times> rbt) list \<Rightarrow> u64" where
  "spine_parent p ms = (if ms = [] then p else fst (snd (last ms)))"

lemma spine_parent_Cons: "spine_parent p (m # ms) = spine_parent (fst (snd m)) ms"
  by (simp add: spine_parent_def)

lemma links_spine_end:
  "links h p (spine ms (Br d Tip x y)) \<Longrightarrow> cell h x d (spine_parent p ms) 0 (rptr y) \<and> links h x y"
  by (induction ms arbitrary: p) (auto simp: spine_parent_Cons, auto simp: spine_parent_def)

fun uppers :: "(rbcolor \<times> u64 \<times> rbt) list \<Rightarrow> u64 list" where
  "uppers [] = []"
| "uppers ((c, a, r) # ms) = uppers ms @ a # inorder r"

lemma inorder_spine: "inorder (spine ms t) = inorder t @ uppers ms"
  by (induction ms t rule: spine.induct) auto

lemma spine_parent_in: "ms \<noteq> [] \<Longrightarrow> spine_parent p ms \<in> set (uppers ms)"
proof (induction ms arbitrary: p)
  case (Cons m ms)
  then show ?case by (cases m; cases "ms = []") (auto simp: spine_parent_def)
qed simp

lemma spine_unlink:
  assumes "links h p (spine ms (Br d Tip x y))" "rb_valid (inorder (spine ms (Br d Tip x y)))" "ms \<noteq> []"
    and "links h' (spine_parent p ms) y" "h (spine_parent p ms) = Some n" "h' (spine_parent p ms) = Some (set_left (rptr y) n)"
    and "\<And>z. z \<in> set (uppers ms) \<Longrightarrow> z \<noteq> spine_parent p ms \<Longrightarrow> h' z = h z"
  shows "links h' p (spine ms y)"
  using assms
proof (induction ms arbitrary: p)
  case (Cons m ms)
  obtain c a r where m: "m = (c, a, r)" by (cases m)
  have v: "rb_valid (inorder (spine ms (Br d Tip x y)) @ a # inorder r)" using Cons.prems(2) m by simp
  then have ar: "a \<notin> set (inorder r)" "spine_parent a ms \<notin> set (inorder r)"
    using spine_parent_in [of ms a] by (cases "ms = []"; auto simp: rb_valid_def inorder_spine spine_parent_def disjoint_iff)+
  have r: "links h' a r" using Cons.prems(1,7) m ar(2) links_cong [of r h' h a] by (auto simp: spine_parent_Cons)
  show ?case
  proof (cases "ms = []")
    case True
    then show ?thesis using Cons.prems m r by (auto simp: spine_parent_def cell_def)
  next
    case False
    have "a \<noteq> spine_parent a ms" using v spine_parent_in [OF False, of a] by (auto simp: rb_valid_def inorder_spine)
    then have "cell h' a c p (rptr (spine ms y)) (rptr r)"
      using Cons.prems(1,7) m False by (cases ms) (auto simp: spine_parent_Cons cell_def)
    moreover have "links h' a (spine ms y)"
      using Cons.IH [of a] Cons.prems m False v by (auto simp: spine_parent_Cons rb_valid_def)
    ultimately show ?thesis using m r by simp
  qed
qed simp

lemma spine_parent_node:
  "links h p (spine ms t) \<Longrightarrow> ms \<noteq> [] \<Longrightarrow> \<exists>n. h (spine_parent p ms) = Some n"
proof (induction ms arbitrary: p)
  case (Cons m ms)
  then show ?case by (cases m; cases "ms = []") (auto simp: spine_parent_Cons cell_def, auto simp: spine_parent_def)
qed simp

lemma unlink_succ_spec:
  assumes l: "links (rb_nodes s) a (spine ms (Br d Tip x y))" and v: "rb_valid (a # inorder (spine ms (Br d Tip x y)))"
    and a: "rb_nodes s a = Some na" "rb_right na = rptr (spine ms (Br d Tip x y))" and x: "rb_nodes s x = Some n"
  shows "\<exists>s' m. unlink_succ s a x n = Some (s', spine_parent x ms) \<and> links (rb_nodes s') x (spine ms y)
    \<and> rb_nodes s' x = Some m \<and> rb_right m = rptr (spine ms y) \<and> rb_top s' = rb_top s
    \<and> (\<forall>z. z \<notin> set (inorder (spine ms (Br d Tip x y))) \<longrightarrow> rb_nodes s' z = rb_nodes s z)"
proof -
  let ?q = "spine_parent a ms"
  have n: "rb_parent n = ?q" "rb_right n = rptr y" and y: "links (rb_nodes s) x y"
    using links_spine_end [OF l] x by (auto elim!: cellE)
  show ?thesis
  proof (cases "ms = []")
    case True
    then show ?thesis using n x y by (auto simp: unlink_succ_def spine_parent_def)
  next
    case False
    have v': "rb_valid (a # x # inorder y @ uppers ms)" using v by (simp add: inorder_spine)
    have q: "?q \<in> set (uppers ms)" "?q \<noteq> a" "?q \<noteq> x" "?q \<notin> set (inorder y)" "?q \<noteq> 0" "aligned ?q"
      using spine_parent_in [OF False, of a] v' by (auto simp: rb_valid_def)
    have nz: "a \<noteq> 0" "x \<noteq> 0" "a \<noteq> x" "aligned x" "rb_valid (inorder y)" "a \<notin> set (inorder y)" "x \<notin> set (inorder y)"
      using v' by (auto simp: rb_valid_def)
    obtain s1 where s1: "adopt s (rptr y) ?q = Some s1" "links (rb_nodes s1) ?q y" "rb_top s1 = rb_top s"
      "\<And>z. z \<notin> set (inorder y) \<Longrightarrow> rb_nodes s1 z = rb_nodes s z"
      using adopt_spec [OF y nz(5) q(6)] by auto
    obtain nq where nq: "rb_nodes s ?q = Some nq" using spine_parent_node [OF l False] by blast
    let ?s2 = "s1\<lparr>rb_nodes := (rb_nodes s1)(?q \<mapsto> set_left (rptr y) nq)\<rparr>"
    let ?s3 = "?s2\<lparr>rb_nodes := (rb_nodes ?s2)(x \<mapsto> set_right (rptr (spine ms y)) n)\<rparr>"
    have x3: "x \<notin> set (inorder (spine ms y))" "a \<notin> set (inorder (spine ms y))" using v' by (auto simp: rb_valid_def inorder_spine)
    have "rb_nodes s1 z = rb_nodes s z" if "z \<in> set (uppers ms)" for z
      using that s1(4) [of z] v' by (auto simp: rb_valid_def)
    then have "links (rb_nodes ?s2) a (spine ms y)"
      using spine_unlink [OF l _ False, of "rb_nodes ?s2" nq] v s1(2) q nq by (auto simp: rb_valid_def)
    then have "links (rb_nodes ?s3) a (spine ms y)" using x3 by simp
    moreover have "rb_valid (inorder (spine ms y))" using v' by (auto simp: rb_valid_def inorder_spine)
    ultimately obtain s4 where s4: "adopt ?s3 (rptr (spine ms y)) x = Some s4" "links (rb_nodes s4) x (spine ms y)"
      "rb_top s4 = rb_top s" "\<And>z. z \<notin> set (inorder (spine ms y)) \<Longrightarrow> rb_nodes s4 z = rb_nodes ?s3 z"
      using adopt_spec [of ?s3 a "spine ms y" x] nz(4) s1(3) by auto
    have top: "rptr (spine ms (Br d Tip x y)) = rptr (spine ms y)" using False by (cases ms) auto
    have "0 \<notin> set (inorder (spine ms (Br d Tip x y)))" using v by (auto simp: rb_valid_def)
    then have "rptr (spine ms y) \<noteq> 0" using rptr_spine [of ms d x y] top by simp
    then have "upd_rb ?s3 (rptr (spine ms y)) (rb_set_parent x) = Some s4" using s4(1) by (simp only: adopt_def if_True not_False_eq_True)
    moreover have "upd_rb s1 ?q (set_left (rptr y)) = Some ?s2" "rbn ?s2 a = Some na" "upd_rb ?s2 x (set_right (rptr (spine ms y))) = Some ?s3"
      using q nz s1(4) [of ?q] s1(4) [of a] s1(4) [of x] nq a x by (simp_all add: upd_rb_def rbn_def)
    ultimately have "unlink_succ s a x n = Some (s4, ?q)" using n q(2) s1(1) a(2) top by (simp add: unlink_succ_def)
    moreover have "?q = spine_parent x ms" using False by (simp add: spine_parent_def)
    moreover have "rb_nodes s4 z = rb_nodes s z" if "z \<notin> set (inorder (spine ms (Br d Tip x y)))" for z
      using that s4(4) [of z] s1(4) [of z] q(1) by (auto simp: inorder_spine)
    ultimately show ?thesis using s4 x3(1) by (auto intro!: exI [of _ s4])
  qed
qed

text \<open>The successor \<open>x\<close>, already taken out of the right subtree, gets the fields of the node \<open>a\<close> it replaces.\<close>

lemma take_place:
  assumes v: "rb_valid (before k @ inorder l @ x # inorder r @ after k)" "a \<notin> set (before k @ inorder l @ x # inorder r @ after k)"
    and k: "clinks (rb_nodes s) k x" "rb_top s = ctop k x"
    and l: "l \<noteq> Tip" "links (rb_nodes s) a l" and r: "links (rb_nodes s) x r"
    and x: "rb_nodes s x = Some m" "rb_right m = rptr r"
    and a: "rb_nodes s a = Some na" "rb_parent na = cptr k" "rb_color na = col c" "rb_left na = rptr l"
    and g: "\<And>z. z \<notin> set (a # before k @ inorder l @ x # inorder r @ after k) \<Longrightarrow> rb_nodes s z = g z"
  shows "\<exists>s3 s4 s5. upd_rb s x (\<lambda>m. m\<lparr>rb_parent_color := rb_parent_color na\<rparr>) = Some s3
    \<and> upd_rb s3 x (set_left (rptr l)) = Some s4 \<and> upd_rb s4 (rptr l) (rb_set_parent x) = Some s5
    \<and> rb_tree (g(a \<mapsto> na)) s5 (plug k (Br c l x r))"
proof -
  let ?s3 = "s\<lparr>rb_nodes := (rb_nodes s)(x \<mapsto> m\<lparr>rb_parent_color := rb_parent_color na\<rparr>)\<rparr>"
  let ?m = "set_left (rptr l) (m\<lparr>rb_parent_color := rb_parent_color na\<rparr>)"
  let ?s4 = "s\<lparr>rb_nodes := (rb_nodes s)(x \<mapsto> ?m)\<rparr>"
  have xs: "x \<noteq> 0" "aligned x" "x \<notin> set (inorder l)" "x \<notin> set (inorder r)" "x \<notin> set (before k)" "x \<notin> set (after k)"
    "rb_valid (inorder l)" "a \<noteq> x" "a \<notin> set (inorder l)" "rptr l \<noteq> 0"
    using v l(1) by (cases l; auto simp: rb_valid_def)+
  have sep: "z \<notin> set (inorder l)" if "z \<in> set (before k) \<union> set (after k) \<union> set (inorder r)" for z
    using that v(1) by (auto simp: rb_valid_def disjoint_iff)
  have m: "rb_parent ?m = cptr k" "rb_color ?m = col c" using a by (simp_all add: rb_parent_def rb_color_def)
  have "links (rb_nodes ?s4) a l" using l(2) xs by simp
  then obtain s5 where s5: "adopt ?s4 (rptr l) x = Some s5" "links (rb_nodes s5) x l" "rb_top s5 = ctop k x"
    "\<And>z. z \<notin> set (inorder l) \<Longrightarrow> rb_nodes s5 z = rb_nodes ?s4 z"
    using adopt_spec [of ?s4 a l x] xs k(2) by auto
  have "rb_tree (g(a \<mapsto> na)) s5 (plug k (Br c l x r))"
  proof (rule rb_treeI)
    show "clinks (rb_nodes s5) k (rptr (Br c l x r))"
      using clinks_cong [of k "rb_nodes s5" "rb_nodes ?s4" x] s5(4) sep k(1) xs by simp
    have "links (rb_nodes s5) x r" using links_cong [of r "rb_nodes s5" "rb_nodes ?s4" x] s5(4) sep r xs by simp
    then show "links (rb_nodes s5) (cptr k) (Br c l x r)" using s5(2) s5(4) [of x] m x(2) xs by (simp add: cell_def)
    show "rb_nodes s5 z = (g(a \<mapsto> na)) z" if "z \<notin> set (before k @ inorder (Br c l x r) @ after k)" for z
      using that s5(4) [of z] g [of z] a(1) xs by (cases "z = a") auto
  qed (use v s5(3) in simp_all)
  moreover have "upd_rb s x (\<lambda>m. m\<lparr>rb_parent_color := rb_parent_color na\<rparr>) = Some ?s3" "upd_rb ?s3 x (set_left (rptr l)) = Some ?s4"
    "upd_rb ?s4 (rptr l) (rb_set_parent x) = Some s5" using x xs s5(1) by (simp_all add: upd_rb_def rbn_def adopt_def)
  ultimately show ?thesis by blast
qed

lemma erase_two_unlink:
  assumes t: "rb_tree g s (plug k (Br c l a (spine ms (Br d Tip x y))))" and l: "l \<noteq> Tip"
  shows "\<exists>s'. erase_two s a = (if d = Black then rb_erase_color s' (rptr y) (spine_parent x ms) else Some s')
    \<and> rb_tree (g(a := rb_nodes s a)) s' (plug k (Br c l x (spine ms y)))"
proof -
  let ?r = "spine ms (Br d Tip x y)"
  note d = rb_treeD [OF t]
  have v: "rb_valid (before k @ inorder l @ a # inorder ?r @ after k)" using d(1) by simp
  then have v': "rb_valid (before k @ inorder l @ x # inorder (spine ms y) @ after k)"
    "a \<notin> set (before k @ inorder l @ x # inorder (spine ms y) @ after k)" "a \<noteq> 0" "x \<noteq> 0" "0 \<notin> set (inorder ?r)"
    by (auto simp: rb_valid_def inorder_spine)
  obtain na where na: "rb_nodes s a = Some na" "rb_parent na = cptr k" "rb_color na = col c" "rb_left na = rptr l" "rb_right na = rptr ?r"
    using d(4) by (auto elim: cellE)
  have go: "go_left s (rptr ?r) = Some x" using go_left_spec d(4) v'(5) by auto
  obtain s1 where s1: "relink_left s (cptr k) a x = Some s1" "clinks (rb_nodes s1) k x" "rb_top s1 = ctop k x"
    "\<And>z. z \<notin> set (before k) \<union> set (after k) \<Longrightarrow> rb_nodes s1 z = rb_nodes s z"
    using relink_spec [of s k a x] rb_valid_context [OF d(1)] d(2,3) v'(2,3) by auto
  have sep: "z \<notin> set (before k) \<union> set (after k)" if "z \<in> insert a (set (inorder l) \<union> set (inorder ?r))" for z
    using that v by (auto simp: rb_valid_def disjoint_iff)
  have sep2: "z \<notin> set (inorder ?r)" if "z \<in> insert a (set (before k) \<union> set (after k) \<union> set (inorder l))" for z
    using that v by (auto simp: rb_valid_def disjoint_iff)
  have l1: "links (rb_nodes s1) a l" "links (rb_nodes s1) a ?r" "rb_nodes s1 a = Some na"
    using links_cong [of l "rb_nodes s1" "rb_nodes s" a] links_cong [of ?r "rb_nodes s1" "rb_nodes s" a] s1(4) sep d(4) na by auto
  obtain n where n: "rb_nodes s1 x = Some n" "rb_color n = col d" "rb_right n = rptr y"
    using links_spine_end [OF l1(2)] by (auto elim: cellE)
  obtain s2 m where s2: "unlink_succ s1 a x n = Some (s2, spine_parent x ms)" "links (rb_nodes s2) x (spine ms y)"
    "rb_nodes s2 x = Some m" "rb_right m = rptr (spine ms y)" "rb_top s2 = rb_top s1"
    "\<And>z. z \<notin> set (inorder ?r) \<Longrightarrow> rb_nodes s2 z = rb_nodes s1 z"
    using unlink_succ_spec [OF l1(2) _ l1(3) na(5) n(1)] v by (auto simp: rb_valid_def)
  have k2: "clinks (rb_nodes s2) k x" "links (rb_nodes s2) a l" "rb_nodes s2 a = Some na"
    using clinks_cong [of k "rb_nodes s2" "rb_nodes s1" x] links_cong [of l "rb_nodes s2" "rb_nodes s1" a] s2(6) sep2 s1(2) l1 by auto
  have out: "rb_nodes s2 z = g z" if "z \<notin> set (a # before k @ inorder l @ x # inorder (spine ms y) @ after k)" for z
    using that s2(6) [of z] s1(4) [of z] d(5) [of z] by (auto simp: inorder_spine)
  obtain s3 s4 s5 where s5: "upd_rb s2 x (\<lambda>m. m\<lparr>rb_parent_color := rb_parent_color na\<rparr>) = Some s3"
    "upd_rb s3 x (set_left (rptr l)) = Some s4" "upd_rb s4 (rptr l) (rb_set_parent x) = Some s5"
    "rb_tree (g(a \<mapsto> na)) s5 (plug k (Br c l x (spine ms y)))"
    using take_place [OF v'(1,2) k2(1) _ l k2(2) s2(2,3,4) k2(3) na(2,3,4), of g] s2(5) s1(3) out by auto
  have "rbn s a = Some na" "rbn s1 x = Some n" "rbn s2 a = Some na" using na n k2 v' by (simp_all add: rbn_def)
  then have "erase_two s a = (if d = Black then rb_erase_color s5 (rptr y) (spine_parent x ms) else Some s5)"
    using na go s1(1) s2(1) n s5 by (cases d) (simp_all add: erase_two_def RB_RED_def RB_BLACK_def)
  then show ?thesis using s5(4) na(1) by auto
qed

lemma fits_address: "fits (k @ InR c l a # k') d h \<longleftrightarrow> fits (k @ InR c l x # k') d h"
  by (induction k d h rule: fits.induct) auto

lemma cptr_spine: "cptr (spine_frames ms @ InR c l x # k) = spine_parent x ms"
proof (cases ms rule: rev_cases)
  case (snoc ms' m)
  then show ?thesis by (cases m) (simp add: spine_frames_def spine_parent_def)
qed (simp add: spine_frames_def spine_parent_def)

lemma erase_two_spec:
  assumes t: "rb_tree g s (plug k (Br c l a r))" "red_black (plug k (Br c l a r))" and lr: "l \<noteq> Tip" "r \<noteq> Tip"
  shows "\<exists>s' t'. erase_two s a = Some s' \<and> rb_tree (g(a := rb_nodes s a)) s' t' \<and> red_black t'
    \<and> inorder t' = before k @ inorder l @ inorder r @ after k"
proof -
  obtain ms d x y where r: "r = spine ms (Br d Tip x y)" using left_spine [OF lr(2)] by blast
  let ?k = "\<lambda>z. spine_frames ms @ InR c l z # k"
  obtain s1 where s1: "erase_two s a = (if d = Black then rb_erase_color s1 (rptr y) (spine_parent x ms) else Some s1)"
    "rb_tree (g(a := rb_nodes s a)) s1 (plug (?k x) y)"
    using erase_two_unlink [of g s k c l a ms d x y] t(1) lr(1) r by auto
  have "red_black (plug (?k a) (Br d Tip x y))" using t(2) r by simp
  then have b: "balanced y" "bheight y = 0" "d = Red \<longrightarrow> rcol y = Black" "fits (?k x) d (bheight (Br d Tip x y))"
    using fits_address [of "spine_frames ms" c l a k d _ x]
    unfolding red_black_plug balanced.simps bheight.simps rcol.simps by auto
  have i: "inorder (plug (?k x) y) = before k @ inorder l @ inorder r @ after k" using r by (simp add: inorder_spine)
  show ?thesis
  proof (cases d)
    case Red
    then have "y = Tip" using b by (cases y) auto
    then have "red_black (plug (?k x) y)" using b Red fits_Red [of "?k x" 0] by (simp add: red_black_plug del: plug_append)
    then show ?thesis using s1 i Red by (intro exI [of _ s1] exI [of _ "plug (?k x) y"]) simp
  next
    case Black
    then have "del_inv (g(a := rb_nodes s a)) s1 (?k x) y"
      using s1(2) b by (cases y) (auto simp: del_inv_def)
    from rb_erase_color_spec [OF this] show ?thesis using s1(1) Black unfolding i cptr_spine by simp
  qed
qed

lemma rb_erase_spec:
  assumes t: "rb_tree g s t" "red_black t" and a: "a \<in> set (inorder t)"
  shows "\<exists>s' t'. rb_erase s a = Some s' \<and> rb_tree (g(a := rb_nodes s a)) s' t' \<and> red_black t' \<and> inorder t' = remove1 a (inorder t)"
proof -
  obtain k c l r where k: "t = plug k (Br c l a r)" using in_plugE [OF a] .
  note tr = t [unfolded k]
  obtain n where n: "rbn s a = Some n" "rb_left n = rptr l" "rb_right n = rptr r" using rb_tree_node [OF tr(1)] .
  have "distinct (before k @ inorder l @ a # inorder r @ after k)" using rb_treeD(1) [OF tr(1)] by (simp add: rb_valid_def)
  then have i: "remove1 a (inorder t) = before k @ inorder l @ inorder r @ after k"
    using k by (simp add: remove1_append)
  have z: "rptr u = 0 \<longleftrightarrow> u = Tip" if "u = l \<or> u = r" for u
    using rb_treeD(1) [OF tr(1)] that by (cases u) (auto simp: rb_valid_def)
  show ?thesis
  proof (cases "l = Tip \<or> r = Tip")
    case True
    then show ?thesis using erase_one_spec [OF tr, of l] erase_one_spec [OF tr, of r] n z i
      by (cases "l = Tip") (auto simp: rb_erase_def)
  next
    case False
    then show ?thesis using erase_two_spec [OF tr] n z i by (auto simp: rb_erase_def)
  qed
qed

end
