(* ===== verification/Rbtree_Props.thy ===== *)
theory Rbtree_Props
  imports Rbtree_Erase
begin

text \<open>
  The walks over a red-black tree, the replacement of a node, and the balance of the tree.
  The locale \<open>rb_client\<close> is the interface to its users, which search the place of a new node themselves.
\<close>

section \<open>Walks\<close>

lemma go_left_hd:
  "links (rb_nodes s) p t \<Longrightarrow> 0 \<notin> set (inorder t) \<Longrightarrow> t \<noteq> Tip \<Longrightarrow> go_left s (rptr t) = Some (hd (inorder t))"
proof (induction t arbitrary: p)
  case (Br c l a r)
  show ?case
  proof (cases "l = Tip")
    case True
    then show ?thesis using Br.prems by (subst go_left.simps) (auto simp: rbn_def elim!: cellE)
  next
    case False
    then have "go_left s (rptr l) = Some (hd (inorder l))" "inorder l \<noteq> []" "rptr l \<noteq> 0" using Br by (cases l; auto)+
    then show ?thesis using Br.prems by (subst go_left.simps) (auto simp: rbn_def elim!: cellE)
  qed
qed simp

lemma go_right_last:
  "links (rb_nodes s) p t \<Longrightarrow> 0 \<notin> set (inorder t) \<Longrightarrow> t \<noteq> Tip \<Longrightarrow> go_right s (rptr t) = Some (last (inorder t))"
proof (induction t arbitrary: p)
  case (Br c l a r)
  show ?case
  proof (cases "r = Tip")
    case True
    then show ?thesis using Br.prems by (subst go_right.simps) (auto simp: rbn_def elim!: cellE)
  next
    case False
    then have "go_right s (rptr r) = Some (last (inorder r))" "inorder r \<noteq> []" "rptr r \<noteq> 0" using Br by (cases r; auto)+
    then show ?thesis using Br.prems by (subst go_right.simps) (auto simp: rbn_def elim!: cellE)
  qed
qed simp

text \<open>The climb ends at the first node after, or before, the subtree.\<close>

lemma rptr_sibling:
  assumes "rb_tree g s (plug (f # k) t)" "t \<noteq> Tip" "f = InL c a w \<or> f = InR c w a"
  shows "rptr t \<noteq> rptr w" "a \<noteq> 0"
proof -
  have t: "rptr t \<in> set (inorder t)" using assms(2) by (cases t) auto
  have v: "rb_valid (before (f # k) @ inorder t @ after (f # k))" by (rule rb_treeD(1) [OF assms(1)])
  then have "set (inorder t) \<inter> set (inorder w) = {}" "rptr t \<noteq> 0"
    using assms(3) t by (auto simp: rb_valid_def Int_Un_distrib Int_commute)
  then show "rptr t \<noteq> rptr w" using t rptr_in [of w] by (metis disjoint_iff)
  show "a \<noteq> 0" using v assms(3) by (auto simp: rb_valid_def)
qed

lemma up_from_right_spec:
  "rb_tree g s (plug k t) \<Longrightarrow> t \<noteq> Tip \<Longrightarrow> up_from_right s (rptr t) = Some (hd (after k @ [0]))"
proof (induction k arbitrary: t)
  case Nil
  obtain c l a r where t: "t = Br c l a r" using Nil.prems(2) by (cases t) auto
  obtain n where "rbn s (rptr t) = Some n" "rb_parent n = 0" using rb_tree_node [of g s "[]" c l a r] Nil.prems(1) t by auto
  then show ?case by (subst up_from_right.simps) simp
next
  case (Cons f k)
  obtain c l a r where t: "t = Br c l a r" using Cons.prems(2) by (cases t) auto
  then obtain n where n: "rbn s (rptr t) = Some n" "rb_parent n = cptr (f # k)"
    using rb_tree_node [of g s "f # k" c l a r] Cons.prems(1) by auto
  obtain pn where pn: "rbn s (cptr [f]) = Some pn"
    "\<And>c a r. f = InL c a r \<Longrightarrow> rb_right pn = rptr r" "\<And>c l a. f = InR c l a \<Longrightarrow> rb_right pn = rptr t"
    using parent_node [OF Cons.prems(1)] by auto
  show ?case
  proof (cases f)
    case (InL c p w)
    then show ?thesis using n pn rptr_sibling [OF Cons.prems, of c p w] by (subst up_from_right.simps) simp
  next
    case (InR c w p)
    then have "up_from_right s p = Some (hd (after k @ [0]))" using Cons.IH [of "Br c w p t"] Cons.prems(1) by simp
    then show ?thesis using n pn InR rptr_sibling [OF Cons.prems, of c p w] by (subst up_from_right.simps) simp
  qed
qed

lemma up_from_left_spec:
  "rb_tree g s (plug k t) \<Longrightarrow> t \<noteq> Tip \<Longrightarrow> up_from_left s (rptr t) = Some (last (0 # before k))"
proof (induction k arbitrary: t)
  case Nil
  obtain c l a r where t: "t = Br c l a r" using Nil.prems(2) by (cases t) auto
  obtain n where "rbn s (rptr t) = Some n" "rb_parent n = 0" using rb_tree_node [of g s "[]" c l a r] Nil.prems(1) t by auto
  then show ?case by (subst up_from_left.simps) simp
next
  case (Cons f k)
  obtain c l a r where t: "t = Br c l a r" using Cons.prems(2) by (cases t) auto
  then obtain n where n: "rbn s (rptr t) = Some n" "rb_parent n = cptr (f # k)"
    using rb_tree_node [of g s "f # k" c l a r] Cons.prems(1) by auto
  obtain pn where pn: "rbn s (cptr [f]) = Some pn"
    "\<And>c a r. f = InL c a r \<Longrightarrow> rb_left pn = rptr t" "\<And>c l a. f = InR c l a \<Longrightarrow> rb_left pn = rptr l"
    using parent_node [OF Cons.prems(1)] by auto
  show ?case
  proof (cases f)
    case (InL c p w)
    then have "up_from_left s p = Some (last (0 # before k))" using Cons.IH [of "Br c t p w"] Cons.prems(1) by simp
    then show ?thesis using n pn InL rptr_sibling [OF Cons.prems, of c p w] by (subst up_from_left.simps) simp
  next
    case (InR c w p)
    then show ?thesis using n pn rptr_sibling [OF Cons.prems, of c p w] by (subst up_from_left.simps) simp
  qed
qed

lemma rptr_Tip: "0 \<notin> set (inorder t) \<Longrightarrow> (rptr t = 0 \<longleftrightarrow> t = Tip) \<and> (inorder t = [] \<longleftrightarrow> t = Tip)"
  by (cases t) auto

lemma rb_next_spec:
  assumes t: "rb_tree g s t" "inorder t = xs @ a # ys"
  shows "rb_next s a = Some (hd (ys @ [0]))" "rb_prev s a = Some (last (0 # xs))"
proof -
  have "a \<in> set (inorder t)" using t(2) by simp
  then obtain k c l r where k: "t = plug k (Br c l a r)" by (rule in_plugE)
  note tr = t(1) [unfolded k]
  have "distinct (xs @ a # ys)" using t by (simp add: rb_tree_def rb_valid_def)
  then have "a \<notin> set xs" "a \<notin> set ys" by simp_all
  moreover have "xs @ a # ys = (before k @ inorder l) @ a # (inorder r @ after k)" using t(2) k by simp
  ultimately have ys: "ys = inorder r @ after k" "xs = before k @ inorder l"
    using append_Cons_eq_iff [of a xs ys "before k @ inorder l" "inorder r @ after k"] by simp_all
  obtain n where n: "rbn s a = Some n" "rb_parent n = cptr k" "rb_left n = rptr l" "rb_right n = rptr r"
    using rb_tree_node [OF tr] .
  have v: "rb_valid (before k @ inorder l @ a # inorder r @ after k)" using rb_treeD(1) [OF tr] by simp
  then have z: "0 \<notin> set (inorder l)" "0 \<notin> set (inorder r)" by (auto simp: rb_valid_def)
  have "a \<noteq> 0" "a \<notin> set (before k) \<union> set (after k)" using v by (auto simp: rb_valid_def)
  then have p: "cptr k \<noteq> a" using cptr_in [of k] by metis
  have ln: "links (rb_nodes s) a l" "links (rb_nodes s) a r" using rb_treeD(4) [OF tr] by auto
  show "rb_next s a = Some (hd (ys @ [0]))"
    using n p ys(1) go_left_hd [OF ln(2) z(2)] up_from_right_spec [OF tr] rptr_Tip [OF z(2)] by (simp add: rb_next_def hd_append)
  show "rb_prev s a = Some (last (0 # xs))"
    using n p ys(2) go_right_last [OF ln(1) z(1)] up_from_left_spec [OF tr] rptr_Tip [OF z(1)] by (simp add: rb_prev_def last_append)
qed

lemma rb_first_last_spec:
  assumes t: "rb_tree g s t"
  shows "rb_first s = Some (hd (inorder t @ [0]))" "rb_last s = Some (last (0 # inorder t))"
proof -
  have tr: "rb_tree g s (plug [] t)" using t by simp
  have z: "0 \<notin> set (inorder t)" using rb_treeD(1) [OF tr] by (auto simp: rb_valid_def)
  have ln: "links (rb_nodes s) 0 t" "rb_top s = rptr t" using t by (simp_all add: rb_tree_def)
  show "rb_first s = Some (hd (inorder t @ [0]))" "rb_last s = Some (last (0 # inorder t))"
    using ln(2) go_left_hd [OF ln(1) z] go_right_last [OF ln(1) z] rptr_Tip [OF z]
    by (cases "t = Tip"; simp add: rb_first_def rb_last_def hd_append)+
qed

section \<open>Replacing a node\<close>

lemma rb_replace_node_spec:
  assumes t: "rb_tree g s (plug k (Br c l a r))"
    and x: "x \<noteq> 0" "aligned x" "x \<notin> set (inorder (plug k (Br c l a r)))" "g x \<noteq> None"
  shows "\<exists>s'. rb_replace_node s a x = Some s' \<and> rb_tree (g(a := rb_nodes s a)) s' (plug k (Br c l x r))"
proof -
  note d = rb_treeD [OF t]
  have v: "rb_valid (before k @ inorder l @ a # inorder r @ after k)" using d(1) by simp
  have xs: "x \<noteq> a" "x \<notin> set (inorder l)" "x \<notin> set (inorder r)" "x \<notin> set (before k)" "x \<notin> set (after k)" using x(3) by auto
  have as: "a \<noteq> 0" "a \<notin> set (inorder l)" "a \<notin> set (inorder r)" "a \<notin> set (before k)" "a \<notin> set (after k)"
    "rb_valid (inorder l)" "rb_valid (inorder r)" using v by (auto simp: rb_valid_def)
  obtain na where na: "rb_nodes s a = Some na" "rb_parent na = cptr k" "rb_color na = col c" "rb_left na = rptr l" "rb_right na = rptr r"
    using d(4) by (auto elim: cellE)
  obtain s1 where s1: "relink_left s (cptr k) a x = Some s1" "clinks (rb_nodes s1) k x" "rb_top s1 = ctop k x"
    "\<And>z. z \<notin> set (before k) \<union> set (after k) \<Longrightarrow> rb_nodes s1 z = rb_nodes s z"
    using relink_spec [of s k a x] rb_valid_context [OF d(1)] d(2,3) as by auto
  have sep: "z \<notin> set (before k) \<union> set (after k)" if "z \<in> set (inorder l) \<union> set (inorder r)" for z
    using that v by (auto simp: rb_valid_def disjoint_iff)
  have l1: "links (rb_nodes s1) a l" "links (rb_nodes s1) a r"
    using links_cong [of l "rb_nodes s1" "rb_nodes s" a] links_cong [of r "rb_nodes s1" "rb_nodes s" a] s1(4) sep d(4) by auto
  obtain s2 where s2: "adopt s1 (rptr l) x = Some s2" "links (rb_nodes s2) x l" "rb_top s2 = rb_top s1"
    "\<And>z. z \<notin> set (inorder l) \<Longrightarrow> rb_nodes s2 z = rb_nodes s1 z" using adopt_spec [OF l1(1) as(6) x(2)] by auto
  have lr: "z \<notin> set (inorder l)" if "z \<in> set (inorder r)" for z using that v by (auto simp: rb_valid_def)
  then have "links (rb_nodes s2) a r" using links_cong [of r "rb_nodes s2" "rb_nodes s1" a] s2(4) l1(2) by simp
  then obtain s3 where s3: "adopt s2 (rptr r) x = Some s3" "links (rb_nodes s3) x r" "rb_top s3 = rb_top s2"
    "\<And>z. z \<notin> set (inorder r) \<Longrightarrow> rb_nodes s3 z = rb_nodes s2 z" using adopt_spec [of s2 a r x] as(7) x(2) by auto
  have out: "rb_nodes s3 z = rb_nodes s1 z" if "z \<notin> set (inorder l)" "z \<notin> set (inorder r)" for z using that s2(4) s3(4) by simp
  let ?s4 = "s3\<lparr>rb_nodes := (rb_nodes s3)(x \<mapsto> na)\<rparr>"
  have a3: "rb_nodes s1 a = Some na" "rb_nodes s2 a = Some na" "rb_nodes s3 a = Some na"
    using s1(4) [of a] s2(4) [of a] s3(4) [of a] na(1) as by auto
  have "rb_tree (g(a := rb_nodes s a)) ?s4 (plug k (Br c l x r))"
  proof (rule rb_treeI)
    show "rb_valid (before k @ inorder (Br c l x r) @ after k)" using v x xs by (auto simp: rb_valid_def)
    show "rb_top ?s4 = ctop k (rptr (Br c l x r))" using s1(3) s2(3) s3(3) by simp
    have "clinks (rb_nodes s3) k x" using clinks_cong [of k "rb_nodes s3" "rb_nodes s1" x] out sep s1(2) by blast
    then show "clinks (rb_nodes ?s4) k (rptr (Br c l x r))" using xs by simp
    have "links (rb_nodes s3) x l" using links_cong [of l "rb_nodes s3" "rb_nodes s2" x] s3(4) lr s2(2) by blast
    then show "links (rb_nodes ?s4) (cptr k) (Br c l x r)" using s3(2) xs na by simp
    show "rb_nodes ?s4 z = (g(a := rb_nodes s a)) z" if "z \<notin> set (before k @ inorder (Br c l x r) @ after k)" for z
      using that out [of z] s1(4) [of z] d(5) [of z] a3 na(1) by (cases "z = a") auto
  qed
  moreover have "rb_nodes s3 x \<noteq> None" using out [of x] s1(4) [of x] d(5) [of x] xs x(4) by auto
  then have "rb_replace_node s a x = Some ?s4"
    using s1(1) s2(1) s3(1) na a3 as x(1) by (auto simp: rb_replace_node_def rbn_def upd_rb_def)
  ultimately show ?thesis by blast
qed

section \<open>Balance\<close>

lemma bheight_size: "balanced t \<Longrightarrow> 2 ^ bheight t \<le> length (inorder t) + 1"
proof (induction t)
  case (Br c l a r)
  then have "2 ^ bheight l \<le> length (inorder l) + 1" "2 ^ bheight l \<le> length (inorder r) + 1" by auto
  then have "2 * 2 ^ bheight l \<le> length (inorder l) + length (inorder r) + 2" by linarith
  then show ?case using Br.prems by auto
qed simp

fun top_height :: "frame list \<Rightarrow> nat \<Rightarrow> nat" where
  "top_height [] h = h"
| "top_height (InL c a r # k) h = top_height k (if c = Black then Suc h else h)"
| "top_height (InR c l a # k) h = top_height k (if c = Black then Suc h else h)"

lemma bheight_plug: "fits k c (bheight t) \<Longrightarrow> bheight (plug k t) = top_height k (bheight t)"
  by (induction k t arbitrary: c rule: plug.induct) auto

lemma depth_top_height: "fits k c h \<Longrightarrow> length k + 2 * h + (if c = Red then 1 else 0) \<le> 2 * top_height k h"
  by (induction k c h rule: fits.induct) (auto split: if_splits)

lemma rb_depth_spec:
  assumes "red_black (plug k t)"
  shows "2 ^ ((length k + 1) div 2) \<le> length (inorder (plug k t)) + 1"
proof -
  have f: "fits k (rcol t) (bheight t)" using assms by (simp add: red_black_plug)
  have "length k \<le> 2 * bheight (plug k t)" using depth_top_height [OF f] bheight_plug [OF f] by simp
  then have "(length k + 1) div 2 \<le> bheight (plug k t)" by simp
  then have "2 ^ ((length k + 1) div 2) \<le> (2 :: nat) ^ bheight (plug k t)" by (rule power_increasing) simp
  moreover have "balanced (plug k t)" using assms by (simp add: red_black_def)
  ultimately show ?thesis using bheight_size le_trans by blast
qed

section \<open>Users of the trees\<close>

lemma load_link_of:
  assumes "rb_tree g s (plug k t)"
  shows "load_link s (link_of k) = Some (rptr t)"
proof (cases k)
  case Nil
  then show ?thesis using assms by (simp add: rb_tree_def)
next
  case (Cons f k')
  then show ?thesis using parent_node [of g s f k' t] assms by (cases f) auto
qed

text \<open>
  A user keeps the nodes ordered by a key. It walks from the root to the place of the new node, remembers whether it ever went
  right, and links the node there; it removes nodes, and keeps a pointer to the first one. What is required is that its
  walk is the usual loop over the tree of its state.
\<close>

locale rb_client =
  fixes walk :: "'c \<Rightarrow> u64 \<Rightarrow> rb_link \<Rightarrow> u64 \<Rightarrow> bool \<Rightarrow> (rb_link \<times> u64 \<times> bool) option"
    and tree_of :: "'c \<Rightarrow> rb_state"
    and key :: "'c \<Rightarrow> u64 \<Rightarrow> int"
  assumes walk_eq: "walk c x link parent leftmost = do {
     p \<leftarrow> load_link (tree_of c) link;
     if p = 0 then Some (link, parent, leftmost)
     else if key c x < key c p then walk c x (Link_left p) p leftmost
     else walk c x (Link_right p) p False }"
begin

definition in_order :: "'c \<Rightarrow> u64 list \<Rightarrow> bool" where
  "in_order c xs \<longleftrightarrow> sorted (map (key c) xs)"

lemma walk_spec:
  assumes "rb_tree g (tree_of c) (plug k t)" "in_order c (inorder (plug k t))"
    and "\<forall>a \<in> set (before k). key c a \<le> key c x" "\<forall>a \<in> set (after k). key c x < key c a"
    and "leftmost \<longleftrightarrow> before k = []"
  shows "\<exists>k'. walk c x (link_of k) (cptr k) leftmost = Some (link_of k', cptr k', before k' = []) \<and> plug k' Tip = plug k t
    \<and> (\<forall>a \<in> set (before k'). key c a \<le> key c x) \<and> (\<forall>a \<in> set (after k'). key c x < key c a)"
  using assms
proof (induction t arbitrary: k leftmost)
  case Tip
  then show ?case using load_link_of [OF Tip.prems(1)] by (subst walk_eq) (auto intro: exI [of _ k])
next
  case (Br d l a r)
  have load: "load_link (tree_of c) (link_of k) = Some a" "a \<noteq> 0"
    using load_link_of [OF Br.prems(1)] rb_treeD(1) [OF Br.prems(1)] by (auto simp: rb_valid_def)
  have srt: "\<forall>b \<in> set (inorder l). key c b \<le> key c a" "\<forall>b \<in> set (inorder r). key c a \<le> key c b"
    using Br.prems(2) by (auto simp: in_order_def sorted_append)
  show ?case
  proof (cases "key c x < key c a")
    case True
    have "\<exists>k'. walk c x (Link_left a) a leftmost = Some (link_of k', cptr k', before k' = []) \<and> plug k' Tip = plug k (Br d l a r)
      \<and> (\<forall>a \<in> set (before k'). key c a \<le> key c x) \<and> (\<forall>a \<in> set (after k'). key c x < key c a)"
      using Br.IH(1) [of "InL d a r # k" leftmost] Br.prems True srt by fastforce
    then show ?thesis using True load by (subst walk_eq) simp
  next
    case False
    have "\<exists>k'. walk c x (Link_right a) a False = Some (link_of k', cptr k', before k' = []) \<and> plug k' Tip = plug k (Br d l a r)
      \<and> (\<forall>a \<in> set (before k'). key c a \<le> key c x) \<and> (\<forall>a \<in> set (after k'). key c x < key c a)"
      using Br.IH(2) [of "InR d l a # k" False] Br.prems False srt by fastforce
    then show ?thesis using False load by (subst walk_eq) simp
  qed
qed

text \<open>The whole insertion: where the walk ends, the linked node and the repaired tree.\<close>

lemma enqueue_spec:
  assumes t: "rb_tree g (tree_of c) t" "red_black t" "in_order c (inorder t)"
    and x: "x \<noteq> 0" "aligned x" "x \<notin> set (inorder t)" "g x \<noteq> None"
  shows "\<exists>link parent leftmost s1 s' t' xs ys. walk c x Link_root 0 True = Some (link, parent, leftmost)
    \<and> rb_link_node (tree_of c) x parent link = Some s1 \<and> rb_insert_color s1 x = Some s'
    \<and> rb_tree g s' t' \<and> red_black t' \<and> inorder t = xs @ ys \<and> inorder t' = xs @ x # ys \<and> (leftmost \<longleftrightarrow> xs = [])
    \<and> in_order c (inorder t')"
proof -
  obtain k where k: "walk c x Link_root 0 True = Some (link_of k, cptr k, before k = [])" "plug k Tip = t"
    "\<forall>a \<in> set (before k). key c a \<le> key c x" "\<forall>a \<in> set (after k). key c x < key c a"
    using walk_spec [of g c "[]" t x True] t by auto
  obtain s1 s' t' where s': "rb_link_node (tree_of c) x (cptr k) (link_of k) = Some s1" "rb_insert_color s1 x = Some s'"
    "rb_tree g s' t'" "red_black t'" "inorder t' = before k @ x # after k"
    using rb_insert_spec [of g "tree_of c" k x] t k(2) x by auto
  have t': "inorder t = before k @ after k" using k(2) by auto
  then have "in_order c (inorder t')" using t(3) k(3,4) s'(5) by (auto simp: in_order_def sorted_append less_imp_le)
  then show ?thesis using k(1) s' t'
    by (intro exI [of _ "link_of k"] exI [of _ "cptr k"] exI [of _ "before k = []"] exI [of _ s1] exI [of _ s'] exI [of _ t']
        exI [of _ "before k"] exI [of _ "after k"]) simp
qed

text \<open>A removal, with the pointer to the first node.\<close>

lemma dequeue_spec:
  assumes t: "rb_tree g s t" "red_black t" "in_order c (inorder t)" and a: "a \<in> set (inorder t)"
    and first: "first = hd (inorder t @ [0])"
  shows "\<exists>s' t' n. rb_next s a = Some n \<and> rb_erase s a = Some s' \<and> rb_tree (g(a := rb_nodes s a)) s' t' \<and> red_black t'
    \<and> inorder t' = remove1 a (inorder t) \<and> in_order c (inorder t')
    \<and> (if first = a then n else first) = hd (inorder t' @ [0])"
proof -
  obtain s' t' where s': "rb_erase s a = Some s'" "rb_tree (g(a := rb_nodes s a)) s' t'" "red_black t'" "inorder t' = remove1 a (inorder t)"
    using rb_erase_spec [OF t(1,2) a] by blast
  obtain xs ys where xs: "inorder t = xs @ a # ys" "a \<notin> set xs" using split_list_first [OF a] by blast
  then have t': "inorder t' = xs @ ys" using s'(4) by (simp add: remove1_append)
  have "rb_next s a = Some (hd (ys @ [0]))" using rb_next_spec(1) [OF t(1) xs(1)] .
  moreover have "(if first = a then hd (ys @ [0]) else first) = hd (inorder t' @ [0])"
    using first xs t' by (cases xs) auto
  moreover have "in_order c (inorder t')" using t(3) xs(1) t' by (simp add: in_order_def sorted_append)
  ultimately show ?thesis using s' by auto
qed

end

end
