(* ===== verification/Sched_Fair.thy ===== *)
theory Sched_Fair
  imports Rbtree_Props
begin

text \<open>
  The run queue of the fair scheduling class, kernel/sched_fair.c: the entities that wait for the processor are the nodes of a
  red-black tree ordered by their virtual run time, with a pointer to the first one; the running entity is not in the
  tree. The configuration is that of the repository: no group scheduling, no statistics;
  the high-resolution tick is switched off by its feature \<^verbatim>\<open>HRTICK\<close>, so its timer is never active. An entity is named by the address of its
  \<^verbatim>\<open>run_node\<close>, from which \<^verbatim>\<open>rb_entry\<close> computes its own; the null pointer is 0. Virtual run times are 64-bit
  words that are compared by the sign of their difference. The list of the queued tasks is the sequence of its elements.
\<close>

section \<open>State\<close>

record load_weight =
  weight :: u64
  inv_weight :: u64

text \<open>The last three fields are those of the task that the entity belongs to.\<close>

record sched_entity =
  se_load :: load_weight
  se_on_rq :: bool
  exec_start :: u64
  sum_exec_runtime :: u64
  vruntime :: u64
  prev_sum_exec_runtime :: u64
  avg_overlap :: u64
  avg_wakeup :: u64
  avg_running :: u64
  policy :: u32
  prio :: int
  fair_class :: bool

text \<open>The last four fields are those of the processor's run queue \<^verbatim>\<open>struct rq\<close>; \<open>need_resched\<close> is the flag of its running task.\<close>

record cfs_rq =
  cfs_load :: load_weight
  nr_running :: u64
  min_vr :: u64
  timeline :: rb_state
  rb_leftmost :: u64
  cfs_tasks :: "u64 list"
  cfs_curr :: u64
  cfs_next :: u64
  cfs_last :: u64
  ents :: "u64 \<Rightarrow> sched_entity"
  rq_load :: load_weight
  rq_curr :: u64
  rq_idle :: u64
  need_resched :: bool

text \<open>The tunable values and the features of kernel/sched_features.h that the code tests.\<close>

record sched_cfg =
  sysctl_sched_latency :: u32
  sysctl_sched_min_granularity :: u32
  sched_nr_latency :: u32
  sysctl_sched_child_runs_first :: bool
  sysctl_sched_compat_yield :: bool
  sysctl_sched_wakeup_granularity :: u32
  sysctl_sched_migration_cost :: u32
  FAIR_SLEEPERS :: bool
  GENTLE_FAIR_SLEEPERS :: bool
  NORMALIZED_SLEEPER :: bool
  START_DEBIT :: bool
  WAKEUP_PREEMPT :: bool
  ADAPTIVE_GRAN :: bool
  ASYM_GRAN :: bool
  WAKEUP_SYNC :: bool
  WAKEUP_OVERLAP :: bool
  WAKEUP_RUNNING :: bool
  NEXT_BUDDY :: bool
  LAST_BUDDY :: bool

definition SCHED_NORMAL :: u32 where "SCHED_NORMAL = 0"
definition SCHED_BATCH :: u32 where "SCHED_BATCH = 3"
definition SCHED_IDLE :: u32 where "SCHED_IDLE = 5"

text \<open>The values the kernel starts with.\<close>

definition default_cfg :: sched_cfg where
  "default_cfg = \<lparr>sysctl_sched_latency = 5000000, sysctl_sched_min_granularity = 1000000, sched_nr_latency = 5,
     sysctl_sched_child_runs_first = False, sysctl_sched_compat_yield = False, sysctl_sched_wakeup_granularity = 1000000,
     sysctl_sched_migration_cost = 500000, FAIR_SLEEPERS = True, GENTLE_FAIR_SLEEPERS = True, NORMALIZED_SLEEPER = False,
     START_DEBIT = True, WAKEUP_PREEMPT = True, ADAPTIVE_GRAN = True, ASYM_GRAN = True, WAKEUP_SYNC = False,
     WAKEUP_OVERLAP = False, WAKEUP_RUNNING = False, NEXT_BUDDY = False, LAST_BUDDY = True\<rparr>"

definition vr :: "cfs_rq \<Rightarrow> u64 \<Rightarrow> u64" where
  "vr c a = vruntime (ents c a)"

definition upd_se :: "cfs_rq \<Rightarrow> u64 \<Rightarrow> (sched_entity \<Rightarrow> sched_entity) \<Rightarrow> cfs_rq" where
  "upd_se c a f = c\<lparr>ents := (ents c)(a := f (ents c a))\<rparr>"

definition init_cfs_rq :: "cfs_rq \<Rightarrow> cfs_rq" where
  "init_cfs_rq c = c\<lparr>timeline := (timeline c)\<lparr>rb_top := RB_ROOT\<rparr>, cfs_tasks := [], min_vr := - 1048576\<rparr>"

text \<open>\<^verbatim>\<open>resched_task\<close> on the running task: the flag, without the interrupt that makes another processor look at it.\<close>

definition resched_curr :: "cfs_rq \<Rightarrow> cfs_rq" where
  "resched_curr c = c\<lparr>need_resched := True\<rparr>"

section \<open>Virtual time\<close>

definition max_vruntime :: "u64 \<Rightarrow> u64 \<Rightarrow> u64" where
  "max_vruntime m v = (if sint (v - m) > 0 then v else m)"

definition min_vruntime :: "u64 \<Rightarrow> u64 \<Rightarrow> u64" where
  "min_vruntime m v = (if sint (v - m) < 0 then v else m)"

definition entity_before :: "cfs_rq \<Rightarrow> u64 \<Rightarrow> u64 \<Rightarrow> bool" where
  "entity_before c a b \<longleftrightarrow> sint (vr c a - vr c b) < 0"

definition entity_key :: "cfs_rq \<Rightarrow> u64 \<Rightarrow> int" where
  "entity_key c se = sint (vr c se - min_vr c)"

definition update_min_vruntime :: "cfs_rq \<Rightarrow> cfs_rq" where
  "update_min_vruntime c =
     (let v0 = min_vr c;
          v1 = (if cfs_curr c \<noteq> 0 then vr c (cfs_curr c) else v0);
          v2 = (if rb_leftmost c \<noteq> 0 then
                  (if cfs_curr c = 0 then vr c (rb_leftmost c) else min_vruntime v1 (vr c (rb_leftmost c)))
                else v1)
      in c\<lparr>min_vr := max_vruntime (min_vr c) v2\<rparr>)"

section \<open>The tree\<close>

partial_function (option) enqueue_walk ::
  "cfs_rq \<Rightarrow> u64 \<Rightarrow> rb_link \<Rightarrow> u64 \<Rightarrow> bool \<Rightarrow> (rb_link \<times> u64 \<times> bool) option" where
  "enqueue_walk c se link parent leftmost = do {
     p \<leftarrow> load_link (timeline c) link;
     if p = 0 then Some (link, parent, leftmost)
     else if entity_key c se < entity_key c p then enqueue_walk c se (Link_left p) p leftmost
     else enqueue_walk c se (Link_right p) p False }"

declare enqueue_walk.simps [code]

definition enqueue_node :: "cfs_rq \<Rightarrow> u64 \<Rightarrow> cfs_rq option" where
  "enqueue_node c se = do {
     (link, parent, leftmost) \<leftarrow> enqueue_walk c se Link_root 0 True;
     let c1 = (if leftmost then c\<lparr>rb_leftmost := se\<rparr> else c);
     s1 \<leftarrow> rb_link_node (timeline c1) se parent link;
     s2 \<leftarrow> rb_insert_color s1 se;
     Some (c1\<lparr>timeline := s2\<rparr>) }"

definition dequeue_node :: "cfs_rq \<Rightarrow> u64 \<Rightarrow> cfs_rq option" where
  "dequeue_node c se = do {
     c1 \<leftarrow> (if rb_leftmost c = se then map_option (\<lambda>n. c\<lparr>rb_leftmost := n\<rparr>) (rb_next (timeline c) se) else Some c);
     s1 \<leftarrow> rb_erase (timeline c1) se;
     Some (c1\<lparr>timeline := s1\<rparr>) }"

definition pick_next_node :: "cfs_rq \<Rightarrow> u64" where
  "pick_next_node c = rb_leftmost c"

definition pick_last_node :: "cfs_rq \<Rightarrow> u64 option" where
  "pick_last_node c = rb_last (timeline c)"

section \<open>Run time\<close>

definition NICE_0_LOAD :: u64 where "NICE_0_LOAD = 1024"
definition WMULT_CONST :: u64 where "WMULT_CONST = 4294967296"

definition SRR :: "u64 \<Rightarrow> nat \<Rightarrow> u64" where
  "SRR x y = drop_bit y (x + push_bit (y - 1) 1)"

definition calc_inv_weight :: "load_weight \<Rightarrow> load_weight" where
  "calc_inv_weight lw =
     (if inv_weight lw = 0 then
        lw\<lparr>inv_weight := (if weight lw \<ge> WMULT_CONST then 1 else 1 + (WMULT_CONST - weight lw div 2) div (weight lw + 1))\<rparr>
      else lw)"

definition calc_delta_mine :: "u64 \<Rightarrow> u64 \<Rightarrow> load_weight \<Rightarrow> u64 \<times> load_weight" where
  "calc_delta_mine delta_exec w lw =
     (let lw1 = calc_inv_weight lw;
          tmp = delta_exec * w;
          tmp1 = (if tmp > WMULT_CONST then SRR (SRR tmp 16 * inv_weight lw1) 16 else SRR (tmp * inv_weight lw1) 32)
      in (min tmp1 9223372036854775807, lw1))"

definition calc_delta_fair :: "cfs_rq \<Rightarrow> u64 \<Rightarrow> u64 \<Rightarrow> u64 \<times> cfs_rq" where
  "calc_delta_fair c delta se =
     (if weight (se_load (ents c se)) \<noteq> NICE_0_LOAD then
        (let r = calc_delta_mine delta NICE_0_LOAD (se_load (ents c se)) in (fst r, upd_se c se (\<lambda>e. e\<lparr>se_load := snd r\<rparr>)))
      else (delta, c))"

definition update_load_add :: "load_weight \<Rightarrow> u64 \<Rightarrow> load_weight" where
  "update_load_add lw inc = lw\<lparr>weight := weight lw + inc, inv_weight := 0\<rparr>"

definition update_load_sub :: "load_weight \<Rightarrow> u64 \<Rightarrow> load_weight" where
  "update_load_sub lw dec = lw\<lparr>weight := weight lw - dec, inv_weight := 0\<rparr>"

definition sched_period :: "sched_cfg \<Rightarrow> u64 \<Rightarrow> u64" where
  "sched_period cfg nr =
     (if nr > ucast (sched_nr_latency cfg) then ucast (sysctl_sched_min_granularity cfg) * nr else ucast (sysctl_sched_latency cfg))"

definition sched_slice :: "sched_cfg \<Rightarrow> cfs_rq \<Rightarrow> u64 \<Rightarrow> u64 \<times> cfs_rq" where
  "sched_slice cfg c se =
     (let e = ents c se;
          slice = sched_period cfg (nr_running c + (if se_on_rq e then 0 else 1))
      in if se_on_rq e then (let r = calc_delta_mine slice (weight (se_load e)) (cfs_load c) in (fst r, c\<lparr>cfs_load := snd r\<rparr>))
         else (fst (calc_delta_mine slice (weight (se_load e)) (update_load_add (cfs_load c) (weight (se_load e)))), c))"

definition sched_vslice :: "sched_cfg \<Rightarrow> cfs_rq \<Rightarrow> u64 \<Rightarrow> u64 \<times> cfs_rq" where
  "sched_vslice cfg c se = (let r = sched_slice cfg c se in calc_delta_fair (snd r) (fst r) se)"

text \<open>\<^verbatim>\<open>__update_curr\<close>, up to the update of the minimum: the running entity is charged.\<close>

definition charge :: "cfs_rq \<Rightarrow> u64 \<Rightarrow> cfs_rq" where
  "charge c delta_exec =
     (let cur = cfs_curr c;
          c1 = upd_se c cur (\<lambda>e. e\<lparr>sum_exec_runtime := sum_exec_runtime e + delta_exec\<rparr>);
          r = calc_delta_fair c1 delta_exec cur
      in upd_se (snd r) cur (\<lambda>e. e\<lparr>vruntime := vruntime e + fst r\<rparr>))"

definition update_curr :: "cfs_rq \<Rightarrow> u64 \<Rightarrow> cfs_rq" where
  "update_curr c now =
     (if cfs_curr c = 0 then c
      else let delta_exec = now - exec_start (ents c (cfs_curr c))
           in if delta_exec = 0 then c
              else upd_se (update_min_vruntime (charge c delta_exec)) (cfs_curr c) (\<lambda>e. e\<lparr>exec_start := now\<rparr>))"

section \<open>Queueing\<close>

definition account_entity_enqueue :: "cfs_rq \<Rightarrow> u64 \<Rightarrow> cfs_rq" where
  "account_entity_enqueue c se =
     upd_se (c\<lparr>cfs_load := update_load_add (cfs_load c) (weight (se_load (ents c se))), rq_load := update_load_add (rq_load c) (weight (se_load (ents c se))),
       cfs_tasks := se # cfs_tasks c, nr_running := nr_running c + 1\<rparr>)
       se (\<lambda>e. e\<lparr>se_on_rq := True\<rparr>)"

definition account_entity_dequeue :: "cfs_rq \<Rightarrow> u64 \<Rightarrow> cfs_rq" where
  "account_entity_dequeue c se =
     upd_se (c\<lparr>cfs_load := update_load_sub (cfs_load c) (weight (se_load (ents c se))), rq_load := update_load_sub (rq_load c) (weight (se_load (ents c se))),
       cfs_tasks := remove1 se (cfs_tasks c), nr_running := nr_running c - 1\<rparr>)
       se (\<lambda>e. e\<lparr>se_on_rq := False\<rparr>)"

text \<open>\<^verbatim>\<open>place_entity\<close>: the time that a sleeper is placed before the others.\<close>

definition sleeper_thresh :: "sched_cfg \<Rightarrow> cfs_rq \<Rightarrow> u64 \<Rightarrow> u64 \<times> cfs_rq" where
  "sleeper_thresh cfg c se =
     (let r = (if NORMALIZED_SLEEPER cfg \<and> policy (ents c se) \<noteq> SCHED_IDLE
               then calc_delta_fair c (ucast (sysctl_sched_latency cfg)) se else (ucast (sysctl_sched_latency cfg), c))
      in (if GENTLE_FAIR_SLEEPERS cfg then drop_bit 1 (fst r) else fst r, snd r))"

definition place_entity :: "sched_cfg \<Rightarrow> cfs_rq \<Rightarrow> u64 \<Rightarrow> bool \<Rightarrow> cfs_rq" where
  "place_entity cfg c se initial =
     (let v = min_vr c;
          r1 = (if initial \<and> START_DEBIT cfg then (let r = sched_vslice cfg c se in (v + fst r, snd r)) else (v, c));
          r2 = (if \<not> initial \<and> FAIR_SLEEPERS cfg then (let r = sleeper_thresh cfg (snd r1) se in (fst r1 - fst r, snd r)) else r1)
      in upd_se (snd r2) se (\<lambda>e. e\<lparr>vruntime := max_vruntime (vruntime e) (fst r2)\<rparr>))"

definition ENQUEUE_WAKEUP :: u32 where "ENQUEUE_WAKEUP = 1"
definition ENQUEUE_MIGRATE :: u32 where "ENQUEUE_MIGRATE = 2"

text \<open>\<^verbatim>\<open>enqueue_entity\<close>: an entity from another queue comes with a relative virtual run time.\<close>

definition normalize_vruntime :: "cfs_rq \<Rightarrow> u64 \<Rightarrow> u32 \<Rightarrow> cfs_rq" where
  "normalize_vruntime c se flags =
     (if flags AND ENQUEUE_WAKEUP = 0 \<or> flags AND ENQUEUE_MIGRATE \<noteq> 0
      then upd_se c se (\<lambda>e. e\<lparr>vruntime := vruntime e + min_vr c\<rparr>) else c)"

definition enqueue_prepare :: "sched_cfg \<Rightarrow> cfs_rq \<Rightarrow> u64 \<Rightarrow> u64 \<Rightarrow> u32 \<Rightarrow> cfs_rq" where
  "enqueue_prepare cfg c now se flags =
     (let c2 = update_curr (normalize_vruntime c se flags) now;
          c3 = account_entity_enqueue c2 se
      in if flags AND ENQUEUE_WAKEUP \<noteq> 0 then place_entity cfg c3 se False else c3)"

definition enqueue_entity :: "sched_cfg \<Rightarrow> cfs_rq \<Rightarrow> u64 \<Rightarrow> u64 \<Rightarrow> u32 \<Rightarrow> cfs_rq option" where
  "enqueue_entity cfg c now se flags =
     (let c1 = enqueue_prepare cfg c now se flags in if se \<noteq> cfs_curr c1 then enqueue_node c1 se else Some c1)"

definition clear_entity_buddies :: "cfs_rq \<Rightarrow> u64 \<Rightarrow> cfs_rq" where
  "clear_entity_buddies c se =
     (let c1 = (if se = 0 \<or> cfs_last c = se then c\<lparr>cfs_last := 0\<rparr> else c)
      in if se = 0 \<or> cfs_next c1 = se then c1\<lparr>cfs_next := 0\<rparr> else c1)"

definition clear_buddies :: "cfs_rq \<Rightarrow> u64 \<Rightarrow> cfs_rq" where
  "clear_buddies c se = (if se \<noteq> 0 then clear_entity_buddies c se else c)"

definition dequeue_entity :: "cfs_rq \<Rightarrow> u64 \<Rightarrow> u64 \<Rightarrow> bool \<Rightarrow> cfs_rq option" where
  "dequeue_entity c now se sleep = do {
     let c1 = clear_buddies (update_curr c now) se;
     c2 \<leftarrow> (if se \<noteq> cfs_curr c1 then dequeue_node c1 se else Some c1);
     let c3 = update_min_vruntime (account_entity_dequeue c2 se);
     Some (if sleep then c3 else upd_se c3 se (\<lambda>e. e\<lparr>vruntime := vruntime e - min_vr c3\<rparr>)) }"

definition check_preempt_tick :: "sched_cfg \<Rightarrow> cfs_rq \<Rightarrow> u64 \<Rightarrow> cfs_rq option" where
  "check_preempt_tick cfg c cur =
     (let r = sched_slice cfg c cur; ideal_runtime = fst r; c1 = snd r;
          delta_exec = sum_exec_runtime (ents c1 cur) - prev_sum_exec_runtime (ents c1 cur)
      in if delta_exec > ideal_runtime then Some (clear_buddies (resched_curr c1) cur)
         else if \<not> WAKEUP_PREEMPT cfg then Some c1
         else if delta_exec < ucast (sysctl_sched_min_granularity cfg) then Some c1
         else if nr_running c1 > 1 then
           (let se = pick_next_node c1; delta = vr c1 cur - vr c1 se
            in if se = 0 then None
               else if sint delta < 0 then Some c1
               else Some (if delta > ideal_runtime then resched_curr c1 else c1))
         else Some c1)"

definition set_next_entity :: "cfs_rq \<Rightarrow> u64 \<Rightarrow> u64 \<Rightarrow> cfs_rq option" where
  "set_next_entity c now se = do {
     c1 \<leftarrow> (if se_on_rq (ents c se) then dequeue_node c se else Some c);
     let c2 = upd_se c1 se (\<lambda>e. e\<lparr>exec_start := now\<rparr>);
     Some (upd_se (c2\<lparr>cfs_curr := se\<rparr>) se (\<lambda>e. e\<lparr>prev_sum_exec_runtime := sum_exec_runtime e\<rparr>)) }"

definition put_prev_entity :: "cfs_rq \<Rightarrow> u64 \<Rightarrow> u64 \<Rightarrow> cfs_rq option" where
  "put_prev_entity c now prev = do {
     let c1 = (if se_on_rq (ents c prev) then update_curr c now else c);
     c2 \<leftarrow> (if se_on_rq (ents c1 prev) then enqueue_node c1 prev else Some c1);
     Some (c2\<lparr>cfs_curr := 0\<rparr>) }"

section \<open>Picking the next entity\<close>

definition adaptive_gran :: "sched_cfg \<Rightarrow> cfs_rq \<Rightarrow> u64 \<Rightarrow> u64 \<Rightarrow> u64" where
  "adaptive_gran cfg c cur se =
     (let this_run = sum_exec_runtime (ents c cur) - prev_sum_exec_runtime (ents c cur);
          expected_wakeup = 2 * avg_wakeup (ents c se) * nr_running c;
          gran = (if this_run < expected_wakeup then expected_wakeup - this_run else 0)
      in if sint gran < sint (ucast (sysctl_sched_wakeup_granularity cfg) :: u64) then gran else ucast (sysctl_sched_wakeup_granularity cfg))"

definition wakeup_gran :: "sched_cfg \<Rightarrow> cfs_rq \<Rightarrow> u64 \<Rightarrow> u64 \<Rightarrow> u64 \<times> cfs_rq" where
  "wakeup_gran cfg c cur se =
     (let gran = (if cfs_curr c \<noteq> 0 \<and> ADAPTIVE_GRAN cfg then adaptive_gran cfg c cur se
                  else ucast (sysctl_sched_wakeup_granularity cfg));
          e = (if ASYM_GRAN cfg then se else cur)
      in if weight (se_load (ents c e)) \<noteq> NICE_0_LOAD then calc_delta_fair c gran e else (gran, c))"

definition wakeup_preempt_entity :: "sched_cfg \<Rightarrow> cfs_rq \<Rightarrow> u64 \<Rightarrow> u64 \<Rightarrow> (int \<times> cfs_rq) option" where
  "wakeup_preempt_entity cfg c cur se =
     (if cur = 0 \<or> se = 0 then None
      else let vdiff = sint (vr c cur - vr c se)
           in if vdiff \<le> 0 then Some (- 1, c)
              else let r = wakeup_gran cfg c cur se
                   in Some (if vdiff > sint (fst r) then 1 else 0, snd r))"

definition pick_next_entity :: "sched_cfg \<Rightarrow> cfs_rq \<Rightarrow> (u64 \<times> cfs_rq) option" where
  "pick_next_entity cfg c = do {
     let left = pick_next_node c;
     (p, c1) \<leftarrow> (if cfs_next c \<noteq> 0 then wakeup_preempt_entity cfg c (cfs_next c) left else Some (1, c));
     let se = (if p < 1 then cfs_next c else left);
     (q, c2) \<leftarrow> (if cfs_last c1 \<noteq> 0 then wakeup_preempt_entity cfg c1 (cfs_last c1) left else Some (1, c1));
     let se2 = (if q < 1 then cfs_last c1 else se);
     Some (se2, clear_buddies c2 se2) }"

section \<open>Operations on tasks\<close>

definition entity_tick :: "sched_cfg \<Rightarrow> cfs_rq \<Rightarrow> u64 \<Rightarrow> u64 \<Rightarrow> cfs_rq option" where
  "entity_tick cfg c now cur =
     (let c1 = update_curr c now
      in if nr_running c1 > 1 \<or> \<not> WAKEUP_PREEMPT cfg then check_preempt_tick cfg c1 cur else Some c1)"

definition enqueue_flags :: "bool \<Rightarrow> bool \<Rightarrow> u32" where
  "enqueue_flags wakeup waking = (if wakeup then ENQUEUE_WAKEUP else 0) OR (if waking then ENQUEUE_MIGRATE else 0)"

definition enqueue_task_fair :: "sched_cfg \<Rightarrow> cfs_rq \<Rightarrow> u64 \<Rightarrow> u64 \<Rightarrow> bool \<Rightarrow> bool \<Rightarrow> cfs_rq option" where
  "enqueue_task_fair cfg c now se wakeup waking =
     (if se_on_rq (ents c se) then Some c else enqueue_entity cfg c now se (enqueue_flags wakeup waking))"

definition dequeue_task_fair :: "cfs_rq \<Rightarrow> u64 \<Rightarrow> u64 \<Rightarrow> bool \<Rightarrow> cfs_rq option" where
  "dequeue_task_fair c now se sleep = dequeue_entity c now se sleep"

definition yield_task_fair :: "sched_cfg \<Rightarrow> cfs_rq \<Rightarrow> u64 \<Rightarrow> cfs_rq option" where
  "yield_task_fair cfg c now =
     (let se = rq_curr c
      in if nr_running c = 1 then Some c
         else let c1 = clear_buddies c se
              in if \<not> sysctl_sched_compat_yield cfg \<and> policy (ents c1 se) \<noteq> SCHED_BATCH then Some (update_curr c1 now)
                 else do {
                   rightmost \<leftarrow> pick_last_node c1;
                   Some (if rightmost = 0 \<or> entity_before c1 rightmost se then c1
                         else upd_se c1 se (\<lambda>e. e\<lparr>vruntime := vr c1 rightmost + 1\<rparr>)) })"

definition task_waking_fair :: "cfs_rq \<Rightarrow> u64 \<Rightarrow> cfs_rq" where
  "task_waking_fair c se = upd_se c se (\<lambda>e. e\<lparr>vruntime := vruntime e - min_vr c\<rparr>)"

definition set_last_buddy :: "cfs_rq \<Rightarrow> u64 \<Rightarrow> cfs_rq" where
  "set_last_buddy c se = (if policy (ents c se) \<noteq> SCHED_IDLE then c\<lparr>cfs_last := se\<rparr> else c)"

definition set_next_buddy :: "cfs_rq \<Rightarrow> u64 \<Rightarrow> cfs_rq" where
  "set_next_buddy c se = (if policy (ents c se) \<noteq> SCHED_IDLE then c\<lparr>cfs_next := se\<rparr> else c)"

definition MAX_RT_PRIO :: int where "MAX_RT_PRIO = 100"

definition rt_prio :: "int \<Rightarrow> bool" where
  "rt_prio p \<longleftrightarrow> p < MAX_RT_PRIO"

definition WF_SYNC :: u32 where "WF_SYNC = 1"
definition WF_FORK :: u32 where "WF_FORK = 2"

text \<open>\<^verbatim>\<open>check_preempt_wakeup\<close>, from the test of the feature \<^verbatim>\<open>WAKEUP_PREEMPT\<close> on.\<close>

definition preempt_by_vruntime :: "sched_cfg \<Rightarrow> cfs_rq \<Rightarrow> u64 \<Rightarrow> bool \<Rightarrow> cfs_rq option" where
  "preempt_by_vruntime cfg c pse scale =
     (let se = rq_curr c
      in if \<not> WAKEUP_PREEMPT cfg then Some c
         else do {
           (r, c1) \<leftarrow> wakeup_preempt_entity cfg c se pse;
           if r = 1 then
             let c2 = resched_curr c1
             in if \<not> se_on_rq (ents c2 se) \<or> se = rq_idle c2 then Some c2
                else Some (if LAST_BUDDY cfg \<and> scale then set_last_buddy c2 se else c2)
           else Some c1 })"

definition check_preempt_wakeup :: "sched_cfg \<Rightarrow> cfs_rq \<Rightarrow> u64 \<Rightarrow> u64 \<Rightarrow> u32 \<Rightarrow> cfs_rq option" where
  "check_preempt_wakeup cfg c now pse wake_flags =
     (let se = rq_curr c;
          sync = (wake_flags AND WF_SYNC \<noteq> 0);
          scale = (nr_running c \<ge> ucast (sched_nr_latency cfg));
          c1 = update_curr c now;
          p = ents c1 pse
      in if rt_prio (prio p) then Some (resched_curr c1)
         else if \<not> fair_class p then Some c1
         else if se = pse then Some c1
         else let c2 = (if NEXT_BUDDY cfg \<and> scale \<and> wake_flags AND WF_FORK = 0 then set_next_buddy c1 pse else c1)
              in if need_resched c2 then Some c2
                 else if policy p \<noteq> SCHED_NORMAL then Some c2
                 else if policy (ents c2 se) = SCHED_IDLE then Some (resched_curr c2)
                 else if WAKEUP_SYNC cfg \<and> sync
                   \<or> WAKEUP_OVERLAP cfg \<and> avg_overlap (ents c2 se) < ucast (sysctl_sched_migration_cost cfg)
                     \<and> avg_overlap p < ucast (sysctl_sched_migration_cost cfg) then Some (resched_curr c2)
                 else if WAKEUP_RUNNING cfg \<and> avg_running p < avg_running (ents c2 se) then Some (resched_curr (set_next_buddy c2 pse))
                 else preempt_by_vruntime cfg c2 pse scale)"

definition pick_next_task_fair :: "sched_cfg \<Rightarrow> cfs_rq \<Rightarrow> u64 \<Rightarrow> (u64 \<times> cfs_rq) option" where
  "pick_next_task_fair cfg c now =
     (if nr_running c = 0 then Some (0, c)
      else do {
        (se, c1) \<leftarrow> pick_next_entity cfg c;
        c2 \<leftarrow> set_next_entity c1 now se;
        Some (se, c2) })"

definition put_prev_task_fair :: "cfs_rq \<Rightarrow> u64 \<Rightarrow> u64 \<Rightarrow> cfs_rq option" where
  "put_prev_task_fair c now prev = put_prev_entity c now prev"

definition task_tick_fair :: "sched_cfg \<Rightarrow> cfs_rq \<Rightarrow> u64 \<Rightarrow> u64 \<Rightarrow> cfs_rq option" where
  "task_tick_fair cfg c now cur = entity_tick cfg c now cur"

definition task_fork_fair :: "sched_cfg \<Rightarrow> cfs_rq \<Rightarrow> u64 \<Rightarrow> u64 \<Rightarrow> cfs_rq" where
  "task_fork_fair cfg c now se =
     (let cur = cfs_curr c;
          c1 = update_curr c now;
          c2 = (if cur \<noteq> 0 then upd_se c1 se (\<lambda>e. e\<lparr>vruntime := vr c1 cur\<rparr>) else c1);
          c3 = place_entity cfg c2 se True;
          c4 = (if sysctl_sched_child_runs_first cfg \<and> cur \<noteq> 0 \<and> entity_before c3 cur se
                then resched_curr (upd_se (upd_se c3 cur (\<lambda>e. e\<lparr>vruntime := vr c3 se\<rparr>)) se (\<lambda>e. e\<lparr>vruntime := vr c3 cur\<rparr>))
                else c3)
      in upd_se c4 se (\<lambda>e. e\<lparr>vruntime := vruntime e - min_vr c4\<rparr>))"

definition set_curr_task_fair :: "cfs_rq \<Rightarrow> u64 \<Rightarrow> cfs_rq option" where
  "set_curr_task_fair c now = set_next_entity c now (rq_curr c)"

end
