(* ===== verification/Sched_Queue.thy ===== *)
theory Sched_Queue
  imports Sched_Fair
begin

text \<open>
  The run queue of the fair class as an ordered sequence: the tree holds the entities that are queued and not running,
  sorted by their virtual run time, \<^verbatim>\<open>rb_leftmost\<close> is the first of them, and every operation keeps this. The client
  lemmas of the red-black tree come from the interpretation of its interface.
\<close>

section \<open>The order of the queue\<close>

interpretation cfs: rb_client enqueue_walk timeline entity_key
  by unfold_locales (rule enqueue_walk.simps)

text \<open>Virtual run times are compared by their difference, which is meaningful while they stay within a quarter of the
  range of each other.\<close>

definition in_window :: "int \<Rightarrow> bool" where
  "in_window k \<longleftrightarrow> - 4611686018427387904 < k \<and> k < 4611686018427387904"

lemma sint_u64: "- 9223372036854775808 \<le> k \<Longrightarrow> k < 9223372036854775808 \<Longrightarrow> sint (word_of_int k :: u64) = k"
  by (simp add: int_word_sint)

lemma sint_window:
  assumes "in_window (sint x)" "in_window (sint y)"
  shows "sint (x - y :: u64) = sint x - sint y"
proof -
  have "x - y = word_of_int (sint x - sint y)" by simp
  then show ?thesis using assms by (simp only:) (rule sint_u64, auto simp: in_window_def)
qed

definition holds_tree :: "cfs_rq \<Rightarrow> u64 set \<Rightarrow> rbt \<Rightarrow> bool" where
  "holds_tree c A t \<longleftrightarrow> rb_tree (rb_nodes (timeline c)) (timeline c) t \<and> red_black t \<and> A \<subseteq> dom (rb_nodes (timeline c))
     \<and> rb_leftmost c = hd (inorder t @ [0])"

definition ordered :: "cfs_rq \<Rightarrow> u64 list \<Rightarrow> bool" where
  "ordered c xs \<longleftrightarrow> sorted (map (entity_key c) xs) \<and> (\<forall>a \<in> set xs. in_window (entity_key c a))"

lemma ordered_cong: "min_vr c' = min_vr c \<Longrightarrow> (\<And>a. a \<in> set xs \<Longrightarrow> vr c' a = vr c a) \<Longrightarrow> ordered c' xs \<longleftrightarrow> ordered c xs"
proof -
  assume "min_vr c' = min_vr c" "\<And>a. a \<in> set xs \<Longrightarrow> vr c' a = vr c a"
  then have "entity_key c' a = entity_key c a" if "a \<in> set xs" for a using that by (simp add: entity_key_def)
  then show ?thesis by (auto simp: ordered_def cong: map_cong)
qed

text \<open>The minimum moves forward, not past the first entity, and the keys move with it.\<close>

lemma key_diff:
  assumes "in_window (sint (v - m))" "in_window (sint (w - m))"
  shows "sint (v - w :: u64) = sint (v - m) - sint (w - m)"
  using sint_window [OF assms] by (simp add: algebra_simps)

lemma update_min_target:
  assumes o: "ordered c xs" and l: "rb_leftmost c = hd (xs @ [0])" "0 \<notin> set xs"
    and cur: "cfs_curr c = 0 \<or> in_window (entity_key c (cfs_curr c))"
  obtains v where "update_min_vruntime c = c\<lparr>min_vr := max_vruntime (min_vr c) v\<rparr>" "in_window (sint (v - min_vr c))"
    "\<And>a. a \<in> set xs \<or> a = cfs_curr c \<and> a \<noteq> 0 \<Longrightarrow> sint (v - min_vr c) \<le> entity_key c a \<and> in_window (entity_key c a)"
proof -
  have w: "in_window (entity_key c a)" if "a \<in> set xs \<or> a = cfs_curr c \<and> a \<noteq> 0" for a using that o cur by (auto simp: ordered_def)
  have 0: "in_window 0" by (simp add: in_window_def)
  have k: "sint (vr c a - min_vr c) = entity_key c a" for a by (simp add: entity_key_def)
  show ?thesis
  proof (cases xs)
    case Nil
    show ?thesis
    proof (cases "cfs_curr c = 0")
      case True
      show ?thesis by (rule that [of "min_vr c"]) (use True Nil l 0 in \<open>simp_all add: update_min_vruntime_def\<close>)
    next
      case False
      show ?thesis by (rule that [of "vr c (cfs_curr c)"]) (use False Nil l w in \<open>auto simp: update_min_vruntime_def k\<close>)
    qed
  next
    case (Cons x ys)
    then have x: "rb_leftmost c = x" "x \<noteq> 0" "x \<in> set xs" using l by auto
    have le: "entity_key c x \<le> entity_key c a" if "a \<in> set xs" for a using that o Cons by (auto simp: ordered_def)
    show ?thesis
    proof (cases "cfs_curr c = 0")
      case True
      show ?thesis by (rule that [of "vr c x"]) (use True x w le in \<open>auto simp: update_min_vruntime_def k\<close>)
    next
      case False
      let ?u = "cfs_curr c"
      let ?v = "min_vruntime (vr c ?u) (vr c x)"
      have wx: "in_window (entity_key c x)" "in_window (entity_key c ?u)" using w x False by auto
      then have "sint (vr c x - vr c ?u) = entity_key c x - entity_key c ?u"
        using key_diff [of "vr c x" "min_vr c" "vr c ?u"] by (simp add: k)
      then have v: "sint (?v - min_vr c) = min (entity_key c x) (entity_key c ?u)" by (simp add: min_vruntime_def k min_def)
      show ?thesis
      proof (rule that [of ?v])
        show "update_min_vruntime c = c\<lparr>min_vr := max_vruntime (min_vr c) ?v\<rparr>" using x False by (simp add: update_min_vruntime_def)
        show "in_window (sint (?v - min_vr c))" using wx v by (simp add: min_def)
        show "sint (?v - min_vr c) \<le> entity_key c a \<and> in_window (entity_key c a)" if "a \<in> set xs \<or> a = ?u \<and> a \<noteq> 0" for a
          using that le [of a] w [OF that] v by auto
      qed
    qed
  qed
qed

lemma update_min_shift:
  assumes "ordered c xs" "rb_leftmost c = hd (xs @ [0])" "0 \<notin> set xs" "cfs_curr c = 0 \<or> in_window (entity_key c (cfs_curr c))"
  obtains d where "0 \<le> d" "in_window d" "d = sint (min_vr (update_min_vruntime c) - min_vr c)"
    "\<And>a. a \<in> set xs \<or> a = cfs_curr c \<and> a \<noteq> 0 \<Longrightarrow> entity_key (update_min_vruntime c) a = entity_key c a - d \<and> in_window (entity_key c a - d)"
    "ordered (update_min_vruntime c) xs"
proof -
  obtain v where v: "update_min_vruntime c = c\<lparr>min_vr := max_vruntime (min_vr c) v\<rparr>" "in_window (sint (v - min_vr c))"
    "\<And>a. a \<in> set xs \<or> a = cfs_curr c \<and> a \<noteq> 0 \<Longrightarrow> sint (v - min_vr c) \<le> entity_key c a \<and> in_window (entity_key c a)"
    using update_min_target [OF assms] by blast
  define d where "d = sint (min_vr (update_min_vruntime c) - min_vr c)"
  have d: "d = (if sint (v - min_vr c) > 0 then sint (v - min_vr c) else 0)" by (simp add: d_def v(1) max_vruntime_def)
  have k: "entity_key (update_min_vruntime c) a = entity_key c a - d \<and> in_window (entity_key c a - d)"
    if "a \<in> set xs \<or> a = cfs_curr c \<and> a \<noteq> 0" for a
  proof -
    have "entity_key (update_min_vruntime c) a = entity_key c a - d"
      using d v(1) v(2) v(3) [OF that] key_diff [of "vr c a" "min_vr c" v] by (auto simp: entity_key_def max_vruntime_def vr_def)
    then show ?thesis using d v(3) [OF that] by (auto simp: in_window_def)
  qed
  have "sorted (map (\<lambda>x. x - d) (map (entity_key c) xs))" using assms(1) by (simp add: ordered_def sorted_wrt_map)
  moreover have "map (entity_key (update_min_vruntime c)) xs = map (\<lambda>x. x - d) (map (entity_key c) xs)" using k by simp
  ultimately have "sorted (map (entity_key (update_min_vruntime c)) xs)" by (simp only:)
  then have "ordered (update_min_vruntime c) xs" using k by (simp add: ordered_def)
  moreover have "in_window d" "0 \<le> d" using d v(2) by (auto simp: in_window_def)
  ultimately show ?thesis using that [of d] k d_def by blast
qed

section \<open>The tree and the queue\<close>

lemma rb_tree_self: "rb_tree g s t \<Longrightarrow> rb_tree (rb_nodes s) s t"
  by (simp add: rb_tree_def)

lemma rb_tree_dom:
  assumes "rb_tree g s t" "A \<subseteq> dom g \<union> set (inorder t)"
  shows "A \<subseteq> dom (rb_nodes s)"
proof
  fix a assume a: "a \<in> A"
  show "a \<in> dom (rb_nodes s)"
  proof (cases "a \<in> set (inorder t)")
    case True
    then obtain k c l r where "t = plug k (Br c l a r)" by (rule in_plugE)
    then obtain n where "rbn s a = Some n" using rb_tree_node [of g s k c l a r] assms(1) by auto
    then show ?thesis by (auto simp: rbn_def split: if_splits)
  next
    case False
    then show ?thesis using assms a by (auto simp: rb_tree_def)
  qed
qed

text \<open>The run queue holds the tree \<open>t\<close>, whose nodes are the entities of \<open>A\<close> that are queued and not running.\<close>

definition cfs_queue :: "u64 set \<Rightarrow> cfs_rq \<Rightarrow> rbt \<Rightarrow> bool" where
  "cfs_queue A c t \<longleftrightarrow> holds_tree c A t \<and> ordered c (inorder t)
     \<and> set (inorder t) = {a \<in> A. se_on_rq (ents c a) \<and> a \<noteq> cfs_curr c}
     \<and> nr_running c = of_nat (length (inorder t) + (if cfs_curr c \<in> A \<and> se_on_rq (ents c (cfs_curr c)) then 1 else 0))"

lemma in_order_eq: "cfs.in_order c xs \<longleftrightarrow> sorted (map (entity_key c) xs)"
  by (simp add: cfs.in_order_def)

lemma enqueue_node_spec:
  assumes h: "holds_tree c A t" "ordered c (inorder t)" and a: "a \<in> A" "a \<notin> set (inorder t)" "a \<noteq> 0" "aligned a"
    and w: "in_window (entity_key c a)"
  shows "\<exists>s l t'. enqueue_node c a = Some (c\<lparr>timeline := s, rb_leftmost := l\<rparr>)
    \<and> holds_tree (c\<lparr>timeline := s, rb_leftmost := l\<rparr>) A t' \<and> ordered c (inorder t')
    \<and> set (inorder t') = insert a (set (inorder t)) \<and> length (inorder t') = Suc (length (inorder t))"
proof -
  have g: "rb_nodes (timeline c) a \<noteq> None" using h a(1) by (auto simp: holds_tree_def)
  have o: "cfs.in_order c (inorder t)" using h(2) by (simp add: ordered_def in_order_eq)
  have tr: "rb_tree (rb_nodes (timeline c)) (timeline c) t" "red_black t" using h(1) by (simp_all add: holds_tree_def)
  obtain link parent leftmost s1 s' t' xs ys where e: "enqueue_walk c a Link_root 0 True = Some (link, parent, leftmost)"
    "rb_link_node (timeline c) a parent link = Some s1" "rb_insert_color s1 a = Some s'"
    "rb_tree (rb_nodes (timeline c)) s' t'" "red_black t'" "inorder t = xs @ ys" "inorder t' = xs @ a # ys" "leftmost \<longleftrightarrow> xs = []"
    "cfs.in_order c (inorder t')"
    using cfs.enqueue_spec [OF tr o a(3,4,2) g] by blast
  let ?l = "if leftmost then a else rb_leftmost c"
  have "enqueue_node c a = Some (c\<lparr>timeline := s', rb_leftmost := ?l\<rparr>)"
    using e(1-3) by (auto simp: enqueue_node_def Let_def)
  moreover have "?l = hd (inorder t' @ [0])" using h(1) e(6-8) by (cases xs) (auto simp: holds_tree_def)
  moreover have "A \<subseteq> dom (rb_nodes s')" using rb_tree_dom [OF e(4), of A] h(1) by (auto simp: holds_tree_def)
  moreover have "ordered c (inorder t')" using e(6,7,9) h(2) w by (auto simp: ordered_def in_order_eq)
  ultimately show ?thesis using e(4-7) rb_tree_self
    by (intro exI [of _ s'] exI [of _ ?l] exI [of _ t']) (auto simp: holds_tree_def)
qed

lemma dequeue_node_spec:
  assumes h: "holds_tree c A t" "ordered c (inorder t)" and a: "a \<in> set (inorder t)"
  shows "\<exists>s l t'. dequeue_node c a = Some (c\<lparr>timeline := s, rb_leftmost := l\<rparr>)
    \<and> holds_tree (c\<lparr>timeline := s, rb_leftmost := l\<rparr>) A t' \<and> ordered c (inorder t')
    \<and> inorder t' = remove1 a (inorder t) \<and> set (inorder t') = set (inorder t) - {a} \<and> Suc (length (inorder t')) = length (inorder t)"
proof -
  have o: "cfs.in_order c (inorder t)" using h(2) by (simp add: ordered_def in_order_eq)
  have d: "distinct (inorder t)" using h(1) by (simp add: holds_tree_def rb_tree_def rb_valid_def)
  obtain s' t' n where e: "rb_next (timeline c) a = Some n" "rb_erase (timeline c) a = Some s'"
    "rb_tree ((rb_nodes (timeline c))(a := rb_nodes (timeline c) a)) s' t'" "red_black t'" "inorder t' = remove1 a (inorder t)"
    "cfs.in_order c (inorder t')" "(if rb_leftmost c = a then n else rb_leftmost c) = hd (inorder t' @ [0])"
    using cfs.dequeue_spec [OF _ _ o a] h(1) unfolding holds_tree_def by blast
  let ?l = "if rb_leftmost c = a then n else rb_leftmost c"
  have "dequeue_node c a = Some (c\<lparr>timeline := s', rb_leftmost := ?l\<rparr>)" using e(1,2) by (simp add: dequeue_node_def)
  moreover have "A \<subseteq> dom (rb_nodes s')" using rb_tree_dom [OF e(3), of A] h(1) by (auto simp: holds_tree_def)
  moreover have st: "set (inorder t') = set (inorder t) - {a}" using e(5) d by simp
  moreover have "ordered c (inorder t')" using e(6) h(2) st by (auto simp: ordered_def in_order_eq)
  moreover have "Suc (length (inorder t')) = length (inorder t)"
    using e(5) a by (simp add: length_remove1) (metis One_nat_def Suc_pred length_pos_if_in_set)
  ultimately show ?thesis using e(3-5,7) rb_tree_self
    by (intro exI [of _ s'] exI [of _ ?l] exI [of _ t']) (auto simp: holds_tree_def)
qed

section \<open>Operations on the queue\<close>

text \<open>The running entity after it is charged for the time up to \<open>now\<close>; that it is then within the window of the queue is what an
  update relies on.\<close>

definition charged :: "cfs_rq \<Rightarrow> u64 \<Rightarrow> cfs_rq" where
  "charged c now = (let d = now - exec_start (ents c (cfs_curr c)) in if d = 0 then c else charge c d)"

definition cur_ok :: "cfs_rq \<Rightarrow> u64 \<Rightarrow> bool" where
  "cur_ok c now \<longleftrightarrow> cfs_curr c = 0 \<or> in_window (entity_key (charged c now) (cfs_curr c))"

named_theorems cfs_frame \<open>what an operation leaves alone\<close>

lemma upd_se_frame [cfs_frame]:
  "timeline (upd_se c a f) = timeline c" "rb_leftmost (upd_se c a f) = rb_leftmost c" "min_vr (upd_se c a f) = min_vr c"
  "cfs_curr (upd_se c a f) = cfs_curr c" "nr_running (upd_se c a f) = nr_running c"
  "ents (upd_se c a f) b = (if b = a then f (ents c a) else ents c b)"
  by (simp_all add: upd_se_def)

lemma calc_delta_fair_frame [cfs_frame]:
  "timeline (snd (calc_delta_fair c d a)) = timeline c" "rb_leftmost (snd (calc_delta_fair c d a)) = rb_leftmost c"
  "min_vr (snd (calc_delta_fair c d a)) = min_vr c" "cfs_curr (snd (calc_delta_fair c d a)) = cfs_curr c"
  "nr_running (snd (calc_delta_fair c d a)) = nr_running c" "vruntime (ents (snd (calc_delta_fair c d a)) b) = vruntime (ents c b)"
  "se_on_rq (ents (snd (calc_delta_fair c d a)) b) = se_on_rq (ents c b)"
  by (simp_all add: calc_delta_fair_def Let_def upd_se_def)

lemma charge_frame [cfs_frame]:
  "timeline (charge c d) = timeline c" "rb_leftmost (charge c d) = rb_leftmost c" "min_vr (charge c d) = min_vr c"
  "cfs_curr (charge c d) = cfs_curr c" "nr_running (charge c d) = nr_running c" "se_on_rq (ents (charge c d) b) = se_on_rq (ents c b)"
  "b \<noteq> cfs_curr c \<Longrightarrow> vruntime (ents (charge c d) b) = vruntime (ents c b)"
  by (simp_all add: charge_def Let_def cfs_frame)

lemma update_min_frame [cfs_frame]:
  "timeline (update_min_vruntime c) = timeline c" "rb_leftmost (update_min_vruntime c) = rb_leftmost c"
  "cfs_curr (update_min_vruntime c) = cfs_curr c" "nr_running (update_min_vruntime c) = nr_running c"
  "ents (update_min_vruntime c) = ents c"
  by (simp_all add: update_min_vruntime_def Let_def)

lemma clear_buddies_frame [cfs_frame]:
  "timeline (clear_buddies c a) = timeline c" "rb_leftmost (clear_buddies c a) = rb_leftmost c" "min_vr (clear_buddies c a) = min_vr c"
  "cfs_curr (clear_buddies c a) = cfs_curr c" "nr_running (clear_buddies c a) = nr_running c" "ents (clear_buddies c a) = ents c"
  by (simp_all add: clear_buddies_def clear_entity_buddies_def Let_def)

lemma sched_slice_frame [cfs_frame]:
  "timeline (snd (sched_slice cfg c a)) = timeline c" "rb_leftmost (snd (sched_slice cfg c a)) = rb_leftmost c"
  "min_vr (snd (sched_slice cfg c a)) = min_vr c" "cfs_curr (snd (sched_slice cfg c a)) = cfs_curr c"
  "nr_running (snd (sched_slice cfg c a)) = nr_running c" "ents (snd (sched_slice cfg c a)) = ents c"
  by (simp_all add: sched_slice_def Let_def)

lemma place_entity_frame [cfs_frame]:
  "timeline (place_entity cfg c a i) = timeline c" "rb_leftmost (place_entity cfg c a i) = rb_leftmost c"
  "min_vr (place_entity cfg c a i) = min_vr c" "cfs_curr (place_entity cfg c a i) = cfs_curr c"
  "nr_running (place_entity cfg c a i) = nr_running c" "se_on_rq (ents (place_entity cfg c a i) b) = se_on_rq (ents c b)"
  "b \<noteq> a \<Longrightarrow> vruntime (ents (place_entity cfg c a i) b) = vruntime (ents c b)"
  by (simp_all add: place_entity_def sleeper_thresh_def sched_vslice_def Let_def cfs_frame)

lemma cfs_queue_cong:
  assumes "timeline c' = timeline c" "rb_leftmost c' = rb_leftmost c" "min_vr c' = min_vr c" "cfs_curr c' = cfs_curr c"
    "nr_running c' = nr_running c" "\<And>a. se_on_rq (ents c' a) = se_on_rq (ents c a)"
    "\<And>a. a \<in> set (inorder t) \<Longrightarrow> vruntime (ents c' a) = vruntime (ents c a)"
  shows "cfs_queue A c' t \<longleftrightarrow> cfs_queue A c t"
  using assms ordered_cong [of c' c "inorder t"] by (simp add: cfs_queue_def holds_tree_def vr_def)

lemma cfs_queueD:
  assumes "cfs_queue A c t"
  shows "holds_tree c A t" "ordered c (inorder t)" "rb_leftmost c = hd (inorder t @ [0])" "0 \<notin> set (inorder t)"
    "\<And>a. a \<in> set (inorder t) \<longleftrightarrow> a \<in> A \<and> se_on_rq (ents c a) \<and> a \<noteq> cfs_curr c"
    "cfs_curr c \<notin> set (inorder t)"
  using assms by (auto simp: cfs_queue_def holds_tree_def rb_tree_def rb_valid_def)

text \<open>What holds after an update of the minimum, from which the following operation starts.\<close>

definition advanced :: "u64 set \<Rightarrow> cfs_rq \<Rightarrow> cfs_rq \<Rightarrow> rbt \<Rightarrow> bool" where
  "advanced A c c' t \<longleftrightarrow> cfs_queue A c' t \<and> 0 \<le> sint (min_vr c' - min_vr c) \<and> in_window (sint (min_vr c' - min_vr c)) \<and> cfs_curr c' = cfs_curr c
     \<and> (\<forall>a. se_on_rq (ents c' a) = se_on_rq (ents c a)) \<and> (cfs_curr c \<noteq> 0 \<longrightarrow> in_window (entity_key c' (cfs_curr c)))"

lemma update_min_queue:
  assumes q: "cfs_queue A c t" and w: "cfs_curr c = 0 \<or> in_window (entity_key c (cfs_curr c))"
  shows "advanced A c (update_min_vruntime c) t"
proof -
  note d = cfs_queueD [OF q]
  obtain e where "0 \<le> e" "in_window e" "e = sint (min_vr (update_min_vruntime c) - min_vr c)"
    "\<And>a. a \<in> set (inorder t) \<or> a = cfs_curr c \<and> a \<noteq> 0 \<Longrightarrow>
       entity_key (update_min_vruntime c) a = entity_key c a - e \<and> in_window (entity_key c a - e)"
    "ordered (update_min_vruntime c) (inorder t)"
    using update_min_shift [OF d(2-4) w] by blast
  then show ?thesis using q by (simp add: advanced_def cfs_queue_def holds_tree_def cfs_frame)
qed

lemma update_curr_queue:
  assumes q: "cfs_queue A c t" and ok: "cur_ok c now"
  shows "advanced A c (update_curr c now) t"
proof (cases "cfs_curr c = 0 \<or> now = exec_start (ents c (cfs_curr c))")
  case True
  then have "update_curr c now = c" by (auto simp: update_curr_def Let_def)
  moreover have "cfs_curr c \<noteq> 0 \<Longrightarrow> charged c now = c" using True by (simp add: charged_def)
  ultimately show ?thesis using q ok by (auto simp: advanced_def cur_ok_def in_window_def)
next
  case False
  let ?d = "now - exec_start (ents c (cfs_curr c))"
  have c1: "cfs_queue A (charge c ?d) t" using q cfs_queueD(6) [OF q]
    by (subst cfs_queue_cong) (auto simp: cfs_frame intro!: charge_frame(7))
  have "in_window (entity_key (charge c ?d) (cfs_curr (charge c ?d)))"
    using ok False by (auto simp: cur_ok_def charged_def Let_def cfs_frame split: if_splits)
  then have a: "advanced A (charge c ?d) (update_min_vruntime (charge c ?d)) t" using update_min_queue [OF c1] by simp
  have e: "update_curr c now = upd_se (update_min_vruntime (charge c ?d)) (cfs_curr c) (\<lambda>e. e\<lparr>exec_start := now\<rparr>)"
    using False by (simp add: update_curr_def Let_def)
  have "cfs_queue A (update_curr c now) t \<longleftrightarrow> cfs_queue A (update_min_vruntime (charge c ?d)) t" unfolding e
    by (rule cfs_queue_cong) (auto simp: cfs_frame)
  then show ?thesis using a by (auto simp: advanced_def e cfs_frame entity_key_def vr_def)
qed

text \<open>The set of entities: aligned addresses, none of them null.\<close>

definition entities :: "u64 set \<Rightarrow> bool" where
  "entities A \<longleftrightarrow> (\<forall>a \<in> A. a \<noteq> 0 \<and> aligned a)"

lemma normalize_frame [cfs_frame]:
  "timeline (normalize_vruntime c a f) = timeline c" "rb_leftmost (normalize_vruntime c a f) = rb_leftmost c"
  "min_vr (normalize_vruntime c a f) = min_vr c" "cfs_curr (normalize_vruntime c a f) = cfs_curr c"
  "nr_running (normalize_vruntime c a f) = nr_running c" "se_on_rq (ents (normalize_vruntime c a f) b) = se_on_rq (ents c b)"
  "b \<noteq> a \<Longrightarrow> vruntime (ents (normalize_vruntime c a f) b) = vruntime (ents c b)"
  by (simp_all add: normalize_vruntime_def cfs_frame)

text \<open>Up to the insertion into the tree, an enqueued entity is accounted for and placed, but not in the tree.\<close>

lemma enqueue_prepare_spec:
  fixes cfg
  assumes q: "cfs_queue A c t" and a: "a \<in> A" "\<not> se_on_rq (ents c a)" and ok: "cur_ok (normalize_vruntime c a flags) now"
  defines "c' \<equiv> enqueue_prepare cfg c now a flags"
  shows "holds_tree c' A t" "ordered c' (inorder t)" "cfs_curr c' = cfs_curr c"
    "nr_running c' = of_nat (length (inorder t) + (if cfs_curr c \<in> A \<and> se_on_rq (ents c (cfs_curr c)) then 2 else 1))"
    "\<And>b. se_on_rq (ents c' b) \<longleftrightarrow> se_on_rq (ents c b) \<or> b = a" "0 \<le> sint (min_vr c' - min_vr c)"
proof -
  let ?c1 = "normalize_vruntime c a flags"
  let ?c2 = "update_curr ?c1 now"
  let ?c3 = "account_entity_enqueue ?c2 a"
  have na: "a \<notin> set (inorder t)" using cfs_queueD(5) [OF q] a by simp
  then have "cfs_queue A ?c1 t" using q by (subst cfs_queue_cong) (auto simp: cfs_frame intro!: normalize_frame(7))
  from update_curr_queue [OF this ok] have adv: "advanced A ?c1 ?c2 t" .
  have fr: "timeline c' = timeline ?c2" "rb_leftmost c' = rb_leftmost ?c2" "min_vr c' = min_vr ?c2" "cfs_curr c' = cfs_curr ?c2"
    "nr_running c' = nr_running ?c2 + 1" "se_on_rq (ents c' b) \<longleftrightarrow> se_on_rq (ents ?c2 b) \<or> b = a"
    "b \<noteq> a \<Longrightarrow> vruntime (ents c' b) = vruntime (ents ?c2 b)" for b
    by (simp_all add: c'_def enqueue_prepare_def Let_def account_entity_enqueue_def cfs_frame)
  have q2: "cfs_queue A ?c2 t" using adv by (simp add: advanced_def)
  show "holds_tree c' A t" using cfs_queueD(1) [OF q2] fr by (simp add: holds_tree_def)
  have "ordered c' (inorder t) \<longleftrightarrow> ordered ?c2 (inorder t)" using na fr by (intro ordered_cong) (auto simp: vr_def intro!: fr(7))
  then show "ordered c' (inorder t)" using cfs_queueD(2) [OF q2] by simp
  show "cfs_curr c' = cfs_curr c" using adv fr by (simp add: advanced_def cfs_frame)
  show "se_on_rq (ents c' b) \<longleftrightarrow> se_on_rq (ents c b) \<or> b = a" for b using adv fr by (simp add: advanced_def cfs_frame)
  show "0 \<le> sint (min_vr c' - min_vr c)" using adv fr by (simp add: advanced_def cfs_frame)
  show "nr_running c' = of_nat (length (inorder t) + (if cfs_curr c \<in> A \<and> se_on_rq (ents c (cfs_curr c)) then 2 else 1))"
    using q2 adv fr by (simp add: cfs_queue_def advanced_def cfs_frame)
qed

lemma enqueue_entity_queue:
  assumes q: "cfs_queue A c t" and A: "entities A" and a: "a \<in> A" "\<not> se_on_rq (ents c a)"
    and ok: "cur_ok (normalize_vruntime c a flags) now" "in_window (entity_key (enqueue_prepare cfg c now a flags) a)"
  shows "\<exists>c' t'. enqueue_entity cfg c now a flags = Some c' \<and> cfs_queue A c' t' \<and> 0 \<le> sint (min_vr c' - min_vr c)"
proof -
  let ?c = "enqueue_prepare cfg c now a flags"
  note p = enqueue_prepare_spec [where cfg = cfg, OF q a ok(1)]
  have set: "\<And>b. b \<in> set (inorder t) \<longleftrightarrow> b \<in> A \<and> se_on_rq (ents c b) \<and> b \<noteq> cfs_curr c" by (rule cfs_queueD(5) [OF q])
  then have na: "a \<notin> set (inorder t)" using a by simp
  show ?thesis
  proof (cases "a = cfs_curr c")
    case True
    then have "cfs_queue A ?c t" using p a set by (auto simp: cfs_queue_def)
    then show ?thesis using True p by (auto simp: enqueue_entity_def Let_def)
  next
    case False
    obtain s l t' where e: "enqueue_node ?c a = Some (?c\<lparr>timeline := s, rb_leftmost := l\<rparr>)"
      "holds_tree (?c\<lparr>timeline := s, rb_leftmost := l\<rparr>) A t'" "ordered ?c (inorder t')"
      "set (inorder t') = insert a (set (inorder t))" "length (inorder t') = Suc (length (inorder t))"
      using enqueue_node_spec [OF p(1,2) a(1) na _ _ ok(2)] A a(1) by (auto simp: entities_def)
    have "cfs_queue A (?c\<lparr>timeline := s, rb_leftmost := l\<rparr>) t'"
      using e p a set False ordered_cong [of "?c\<lparr>timeline := s, rb_leftmost := l\<rparr>" ?c "inorder t'"]
      by (auto simp: cfs_queue_def vr_def)
    then show ?thesis using e(1) p False by (auto simp: enqueue_entity_def Let_def)
  qed
qed

lemma forward_trans:
  assumes "0 \<le> sint (y - x :: u64)" "in_window (sint (y - x))" "0 \<le> sint (z - y)" "in_window (sint (z - y))"
  shows "0 \<le> sint (z - x)"
proof -
  have "z - x = word_of_int (sint (z - y) + sint (y - x))" by simp
  moreover have "sint (word_of_int (sint (z - y) + sint (y - x)) :: u64) = sint (z - y) + sint (y - x)"
    using assms by (intro sint_u64) (auto simp: in_window_def)
  ultimately show ?thesis using assms by simp
qed

text \<open>Taking an entity out of the tree, if it is there, and out of the account.\<close>

lemma dequeue_account:
  assumes q: "cfs_queue A c t" and a: "a \<in> A" "se_on_rq (ents c a)"
  obtains c' t' where "(if a \<noteq> cfs_curr c then dequeue_node c a else Some c) = Some c'" "cfs_queue A (account_entity_dequeue c' a) t'"
    "a \<notin> set (inorder t')" "cfs_curr c' = cfs_curr c" "min_vr c' = min_vr c" "ents c' = ents c"
proof (cases "a = cfs_curr c")
  case True
  have "cfs_queue A (account_entity_dequeue c a) t"
    using q a True ordered_cong [of "account_entity_dequeue c a" c "inorder t"]
    by (auto simp: cfs_queue_def holds_tree_def account_entity_dequeue_def cfs_frame vr_def)
  then show ?thesis using that [of c t] True cfs_queueD(6) [OF q] by simp
next
  case False
  then have "a \<in> set (inorder t)" using cfs_queueD(5) [OF q] a by simp
  then obtain s l t' where e: "dequeue_node c a = Some (c\<lparr>timeline := s, rb_leftmost := l\<rparr>)"
    "holds_tree (c\<lparr>timeline := s, rb_leftmost := l\<rparr>) A t'" "ordered c (inorder t')"
    "set (inorder t') = set (inorder t) - {a}" "Suc (length (inorder t')) = length (inorder t)"
    using dequeue_node_spec [OF cfs_queueD(1,2) [OF q]] by blast
  let ?c = "c\<lparr>timeline := s, rb_leftmost := l\<rparr>"
  have "length (inorder t) = Suc (length (inorder t'))" using e(5) by simp
  then have "cfs_queue A (account_entity_dequeue ?c a) t'"
    using q a e(2-4) False ordered_cong [of "account_entity_dequeue ?c a" c "inorder t'"]
    by (auto simp: cfs_queue_def holds_tree_def account_entity_dequeue_def cfs_frame vr_def)
  then show ?thesis using that [of ?c t'] e False by simp
qed

lemma dequeue_entity_queue:
  assumes q: "cfs_queue A c t" and a: "a \<in> A" "se_on_rq (ents c a)" and ok: "cur_ok c now"
  shows "\<exists>c' t'. dequeue_entity c now a sleep = Some c' \<and> cfs_queue A c' t' \<and> 0 \<le> sint (min_vr c' - min_vr c)"
proof -
  let ?c1 = "clear_buddies (update_curr c now) a"
  have adv: "advanced A c (update_curr c now) t" using update_curr_queue [OF q ok] .
  have "cfs_queue A ?c1 t \<longleftrightarrow> cfs_queue A (update_curr c now) t" by (rule cfs_queue_cong) (auto simp: cfs_frame)
  then have q1: "cfs_queue A ?c1 t" using adv by (simp add: advanced_def)
  have c1: "cfs_curr ?c1 = cfs_curr c" "se_on_rq (ents ?c1 a)" "cfs_curr c \<noteq> 0 \<Longrightarrow> in_window (entity_key ?c1 (cfs_curr c))"
    "0 \<le> sint (min_vr ?c1 - min_vr c)" "in_window (sint (min_vr ?c1 - min_vr c))"
    using adv a by (simp_all add: advanced_def cfs_frame entity_key_def vr_def)
  obtain c2 t' where c2: "(if a \<noteq> cfs_curr ?c1 then dequeue_node ?c1 a else Some ?c1) = Some c2"
    "cfs_queue A (account_entity_dequeue c2 a) t'" "a \<notin> set (inorder t')" "cfs_curr c2 = cfs_curr ?c1" "min_vr c2 = min_vr ?c1" "ents c2 = ents ?c1"
    using dequeue_account [OF q1 a(1) c1(2)] by metis
  let ?c3 = "account_entity_dequeue c2 a"
  have c3: "cfs_curr ?c3 = cfs_curr c" "min_vr ?c3 = min_vr ?c1" "vr ?c3 b = vr ?c1 b" for b
    using c1(1) c2(4-6) by (simp_all add: account_entity_dequeue_def cfs_frame vr_def)
  have adv2: "advanced A ?c3 (update_min_vruntime ?c3) t'"
    using update_min_queue [OF c2(2)] c1(3) c3 by (auto simp: entity_key_def)
  then have m: "0 \<le> sint (min_vr (update_min_vruntime ?c3) - min_vr c)"
    using forward_trans [OF c1(4,5), of "min_vr (update_min_vruntime ?c3)"] c3(2) by (simp add: advanced_def)
  let ?c4 = "upd_se (update_min_vruntime ?c3) a (\<lambda>e. e\<lparr>vruntime := vruntime e - min_vr (update_min_vruntime ?c3)\<rparr>)"
  have "cfs_queue A ?c4 t' \<longleftrightarrow> cfs_queue A (update_min_vruntime ?c3) t'"
    using c2(3) by (intro cfs_queue_cong) (auto simp: cfs_frame)
  then have "cfs_queue A (if sleep then update_min_vruntime ?c3 else ?c4) t'" using adv2 by (simp add: advanced_def)
  moreover have "dequeue_entity c now a sleep = Some (if sleep then update_min_vruntime ?c3 else ?c4)"
    using c2(1) by (simp only: dequeue_entity_def Let_def bind.bind_lunit)
  moreover have "0 \<le> sint (min_vr (if sleep then update_min_vruntime ?c3 else ?c4) - min_vr c)" using m by (simp add: cfs_frame)
  ultimately show ?thesis by blast
qed

lemma set_next_entity_queue:
  assumes q: "cfs_queue A c t" and A: "entities A" and a: "a \<in> A" and n: "cfs_curr c = 0"
  shows "\<exists>c' t'. set_next_entity c now a = Some c' \<and> cfs_queue A c' t' \<and> min_vr c' = min_vr c"
proof -
  have A0: "0 \<notin> A" using A by (auto simp: entities_def)
  note d = cfs_queueD [OF q]
  let ?f = "\<lambda>c1. upd_se ((upd_se c1 a (\<lambda>e. e\<lparr>exec_start := now\<rparr>))\<lparr>cfs_curr := a\<rparr>) a (\<lambda>e. e\<lparr>prev_sum_exec_runtime := sum_exec_runtime e\<rparr>)"
  have f: "timeline (?f x) = timeline x" "rb_leftmost (?f x) = rb_leftmost x" "min_vr (?f x) = min_vr x" "cfs_curr (?f x) = a"
    "nr_running (?f x) = nr_running x" "se_on_rq (ents (?f x) b) = se_on_rq (ents x b)" "vr (?f x) b = vr x b" for x b
    by (simp_all add: upd_se_def vr_def)
  show ?thesis
  proof (cases "se_on_rq (ents c a)")
    case False
    then have "cfs_queue A (?f c) t"
      using q n A0 ordered_cong [of "?f c" c "inorder t"] f by (auto simp: cfs_queue_def holds_tree_def)
    then show ?thesis using False f by (auto simp: set_next_entity_def Let_def)
  next
    case True
    then have "a \<in> set (inorder t)" using d(5) a n A0 by auto
    then obtain s l t' where e: "dequeue_node c a = Some (c\<lparr>timeline := s, rb_leftmost := l\<rparr>)"
      "holds_tree (c\<lparr>timeline := s, rb_leftmost := l\<rparr>) A t'" "ordered c (inorder t')"
      "set (inorder t') = set (inorder t) - {a}" "Suc (length (inorder t')) = length (inorder t)"
      using dequeue_node_spec [OF d(1,2)] by blast
    let ?c = "c\<lparr>timeline := s, rb_leftmost := l\<rparr>"
    have "length (inorder t) = Suc (length (inorder t'))" using e(5) by simp
    then have "cfs_queue A (?f ?c) t'"
      using q a e(2-4) n A0 True ordered_cong [of "?f ?c" c "inorder t'"] f [of ?c] by (auto simp: cfs_queue_def holds_tree_def vr_def)
    then show ?thesis using True e(1) f by (auto simp: set_next_entity_def Let_def)
  qed
qed

lemma put_prev_entity_queue:
  assumes q: "cfs_queue A c t" and A: "entities A" and a: "cfs_curr c \<in> A" and ok: "se_on_rq (ents c (cfs_curr c)) \<Longrightarrow> cur_ok c now"
  shows "\<exists>c' t'. put_prev_entity c now (cfs_curr c) = Some c' \<and> cfs_queue A c' t' \<and> 0 \<le> sint (min_vr c' - min_vr c)"
proof (cases "se_on_rq (ents c (cfs_curr c))")
  case False
  then have "cfs_queue A (c\<lparr>cfs_curr := 0\<rparr>) t"
    using q A a ordered_cong [of "c\<lparr>cfs_curr := 0\<rparr>" c "inorder t"] by (auto simp: cfs_queue_def holds_tree_def entities_def vr_def)
  then show ?thesis using False by (auto simp: put_prev_entity_def)
next
  case True
  let ?c = "update_curr c now"
  let ?a = "cfs_curr c"
  have adv: "advanced A c ?c t" using update_curr_queue [OF q ok [OF True]] .
  then have q1: "cfs_queue A ?c t" "cfs_curr ?c = ?a" "se_on_rq (ents ?c ?a)" "0 \<le> sint (min_vr ?c - min_vr c)"
    "in_window (entity_key ?c ?a)" using True A a by (auto simp: advanced_def entities_def)
  obtain s l t' where e: "enqueue_node ?c ?a = Some (?c\<lparr>timeline := s, rb_leftmost := l\<rparr>)"
    "holds_tree (?c\<lparr>timeline := s, rb_leftmost := l\<rparr>) A t'" "ordered ?c (inorder t')"
    "set (inorder t') = insert ?a (set (inorder t))" "length (inorder t') = Suc (length (inorder t))"
    using enqueue_node_spec [OF cfs_queueD(1,2) [OF q1(1)] a _ _ _ q1(5)] cfs_queueD(6) [OF q1(1)] q1(2) A a
    by (auto simp: entities_def)
  let ?c' = "?c\<lparr>timeline := s, rb_leftmost := l, cfs_curr := 0\<rparr>"
  have "cfs_queue A ?c' t'"
    using q1 e(2-5) A a ordered_cong [of ?c' ?c "inorder t'"] by (auto simp: cfs_queue_def holds_tree_def entities_def vr_def)
  then show ?thesis using True q1(3,4) e(1) by (auto simp: put_prev_entity_def Let_def)
qed

end
