(* ===== verification/Sched_Account.thy ===== *)
theory Sched_Account
  imports Sched_Queue
begin

text \<open>
  What the fair class counts: the list of the queued tasks, their number and the sum of their weights, and the two buddies, which are
  queued tasks or null.
\<close>

section \<open>What an operation counts\<close>

text \<open>The part of the state that the accounts depend on.\<close>

definition acct :: "cfs_rq \<Rightarrow> u64 list \<times> u64 \<times> (u64 \<Rightarrow> bool \<times> u64)" where
  "acct c = (cfs_tasks c, weight (cfs_load c), (\<lambda>a. (se_on_rq (ents c a), weight (se_load (ents c a)))))"

definition buds :: "cfs_rq \<Rightarrow> u64 \<times> u64" where
  "buds c = (cfs_next c, cfs_last c)"

definition accounts :: "u64 set \<Rightarrow> cfs_rq \<Rightarrow> bool" where
  "accounts A c \<longleftrightarrow> distinct (cfs_tasks c) \<and> set (cfs_tasks c) = {a \<in> A. se_on_rq (ents c a)}
     \<and> weight (cfs_load c) = (\<Sum>a\<leftarrow>cfs_tasks c. weight (se_load (ents c a)))"

definition buddies :: "u64 set \<Rightarrow> cfs_rq \<Rightarrow> bool" where
  "buddies A c \<longleftrightarrow> (\<forall>b \<in> {cfs_next c, cfs_last c}. b \<noteq> 0 \<longrightarrow> b \<in> A \<and> se_on_rq (ents c b))"

lemma acctD:
  assumes "acct c' = acct c"
  shows "cfs_tasks c' = cfs_tasks c" "weight (cfs_load c') = weight (cfs_load c)" "se_on_rq (ents c' a) = se_on_rq (ents c a)"
    "weight (se_load (ents c' a)) = weight (se_load (ents c a))"
  using assms by (auto simp: acct_def fun_eq_iff)

lemma accounts_cong: "acct c' = acct c \<Longrightarrow> accounts A c' \<longleftrightarrow> accounts A c"
  by (simp add: accounts_def acctD [of c' c])

lemma buddies_cong: "acct c' = acct c \<Longrightarrow> buds c' = buds c \<Longrightarrow> buddies A c' \<longleftrightarrow> buddies A c"
  by (simp add: buddies_def buds_def acctD [of c' c])

named_theorems acct_frame \<open>what leaves the accounts and the buddies alone\<close>

lemma acct_fields [acct_frame]:
  "acct (c\<lparr>timeline := s\<rparr>) = acct c" "acct (c\<lparr>rb_leftmost := l\<rparr>) = acct c" "acct (c\<lparr>min_vr := m\<rparr>) = acct c"
  "acct (c\<lparr>cfs_curr := l\<rparr>) = acct c" "acct (c\<lparr>cfs_next := l\<rparr>) = acct c" "acct (c\<lparr>cfs_last := l\<rparr>) = acct c"
  "acct (c\<lparr>rq_curr := l\<rparr>) = acct c" "acct (c\<lparr>need_resched := f\<rparr>) = acct c"
  "buds (c\<lparr>timeline := s\<rparr>) = buds c" "buds (c\<lparr>rb_leftmost := l\<rparr>) = buds c" "buds (c\<lparr>min_vr := m\<rparr>) = buds c"
  "buds (c\<lparr>cfs_curr := l\<rparr>) = buds c" "buds (c\<lparr>rq_curr := l\<rparr>) = buds c" "buds (c\<lparr>need_resched := f\<rparr>) = buds c"
  by (simp_all add: acct_def buds_def)

lemma acct_upd_se [acct_frame]:
  "se_on_rq (f (ents c a)) = se_on_rq (ents c a) \<Longrightarrow> weight (se_load (f (ents c a))) = weight (se_load (ents c a)) \<Longrightarrow>
   acct (upd_se c a f) = acct c"
  "buds (upd_se c a f) = buds c"
  by (auto simp: acct_def buds_def upd_se_def fun_eq_iff)

lemma calc_inv_weight_weight [simp]: "weight (calc_inv_weight lw) = weight lw"
  by (simp add: calc_inv_weight_def)

lemma calc_delta_mine_weight [simp]: "weight (snd (calc_delta_mine d w lw)) = weight lw"
  by (simp add: calc_delta_mine_def Let_def)

lemma acct_delta_fair [acct_frame]:
  "acct (snd (calc_delta_fair c d a)) = acct c" "buds (snd (calc_delta_fair c d a)) = buds c"
  by (simp_all add: calc_delta_fair_def Let_def acct_frame)

lemma acct_charge [acct_frame]: "acct (charge c d) = acct c" "buds (charge c d) = buds c"
  by (simp_all add: charge_def Let_def acct_frame)

lemma acct_update_min [acct_frame]: "acct (update_min_vruntime c) = acct c" "buds (update_min_vruntime c) = buds c"
  by (simp_all add: update_min_vruntime_def Let_def acct_frame)

lemma acct_update_curr [acct_frame]: "acct (update_curr c now) = acct c" "buds (update_curr c now) = buds c"
  by (simp_all add: update_curr_def Let_def acct_frame)

lemma acct_sched_slice [acct_frame]: "acct (snd (sched_slice cfg c a)) = acct c" "buds (snd (sched_slice cfg c a)) = buds c"
  by (simp_all add: sched_slice_def Let_def acct_def buds_def)

lemma acct_place_entity [acct_frame]: "acct (place_entity cfg c a i) = acct c" "buds (place_entity cfg c a i) = buds c"
  by (simp_all add: place_entity_def sleeper_thresh_def sched_vslice_def Let_def acct_frame)

lemma acct_normalize [acct_frame]: "acct (normalize_vruntime c a f) = acct c" "buds (normalize_vruntime c a f) = buds c"
  by (simp_all add: normalize_vruntime_def acct_frame)

lemma acct_resched [acct_frame]: "acct (resched_curr c) = acct c" "buds (resched_curr c) = buds c"
  by (simp_all add: resched_curr_def acct_frame)

lemma acct_clear_buddies [acct_frame]: "acct (clear_buddies c a) = acct c"
  by (simp add: clear_buddies_def clear_entity_buddies_def Let_def acct_frame)

lemma acct_set_buddy [acct_frame]: "acct (set_last_buddy c a) = acct c" "acct (set_next_buddy c a) = acct c"
  by (simp_all add: set_last_buddy_def set_next_buddy_def acct_frame)

lemma acct_enqueue_node: "enqueue_node c a = Some c' \<Longrightarrow> acct c' = acct c \<and> buds c' = buds c"
  by (auto simp: enqueue_node_def Let_def acct_frame split: Option.bind_splits if_splits)

lemma acct_dequeue_node: "dequeue_node c a = Some c' \<Longrightarrow> acct c' = acct c \<and> buds c' = buds c"
  by (auto simp: dequeue_node_def acct_frame split: Option.bind_splits if_splits)

lemma buddies_clear:
  assumes "buddies A c"
  shows "buddies A (clear_buddies c a)" "a \<noteq> 0 \<Longrightarrow> a \<notin> {cfs_next (clear_buddies c a), cfs_last (clear_buddies c a)}"
  using assms by (auto simp: buddies_def clear_buddies_def clear_entity_buddies_def Let_def)

section \<open>Every operation keeps the accounts\<close>

lemma account_enqueue_fields:
  "cfs_tasks (account_entity_enqueue c a) = a # cfs_tasks c" "buds (account_entity_enqueue c a) = buds c"
  "weight (cfs_load (account_entity_enqueue c a)) = weight (cfs_load c) + weight (se_load (ents c a))"
  "se_on_rq (ents (account_entity_enqueue c a) b) \<longleftrightarrow> b = a \<or> se_on_rq (ents c b)"
  "weight (se_load (ents (account_entity_enqueue c a) b)) = weight (se_load (ents c b))"
  by (simp_all add: account_entity_enqueue_def update_load_add_def upd_se_def buds_def)

lemma account_dequeue_fields:
  "cfs_tasks (account_entity_dequeue c a) = remove1 a (cfs_tasks c)" "buds (account_entity_dequeue c a) = buds c"
  "weight (cfs_load (account_entity_dequeue c a)) = weight (cfs_load c) - weight (se_load (ents c a))"
  "se_on_rq (ents (account_entity_dequeue c a) b) \<longleftrightarrow> b \<noteq> a \<and> se_on_rq (ents c b)"
  "weight (se_load (ents (account_entity_dequeue c a) b)) = weight (se_load (ents c b))"
  by (simp_all add: account_entity_dequeue_def update_load_sub_def upd_se_def buds_def)

lemma accounts_enqueue:
  assumes "accounts A c" "a \<in> A" "\<not> se_on_rq (ents c a)"
  shows "accounts A (account_entity_enqueue c a)"
  using assms by (auto simp: accounts_def account_enqueue_fields add.commute)

lemma sum_list_remove1: "a \<in> set xs \<Longrightarrow> (\<Sum>b\<leftarrow>remove1 a xs. f b :: u64) = (\<Sum>b\<leftarrow>xs. f b) - f a"
  by (induction xs) auto

lemma accounts_dequeue:
  assumes "accounts A c" "a \<in> A" "se_on_rq (ents c a)"
  shows "accounts A (account_entity_dequeue c a)"
proof -
  have a: "a \<in> set (cfs_tasks c)" using assms by (simp add: accounts_def)
  then show ?thesis using assms sum_list_remove1 [OF a, of "\<lambda>b. weight (se_load (ents c b))"]
    by (auto simp: accounts_def account_dequeue_fields)
qed

lemma enqueue_entity_accounts:
  assumes c: "accounts A c" "buddies A c" and a: "a \<in> A" "\<not> se_on_rq (ents c a)" and e: "enqueue_entity cfg c now a flags = Some c'"
  shows "accounts A c'" "buddies A c'"
proof -
  let ?c1 = "update_curr (normalize_vruntime c a flags) now"
  let ?c2 = "account_entity_enqueue ?c1 a"
  have f: "acct ?c1 = acct c" "buds ?c1 = buds c" by (simp_all add: acct_frame)
  then have "accounts A ?c2" using c a by (intro accounts_enqueue) (simp_all add: accounts_cong [OF f(1)] acctD [OF f(1)])
  moreover have "buddies A ?c1" using c(2) buddies_cong [OF f] by simp
  then have "buddies A ?c2" using a(1) using account_enqueue_fields(2) [of ?c1 a] by (auto simp: buddies_def buds_def account_enqueue_fields(4))
  moreover have "acct c' = acct ?c2 \<and> buds c' = buds ?c2"
  proof -
    let ?c3 = "enqueue_prepare cfg c now a flags"
    have "acct c' = acct ?c3 \<and> buds c' = buds ?c3"
      using e acct_enqueue_node [of ?c3 a c'] by (auto simp: enqueue_entity_def Let_def split: if_splits)
    then show ?thesis by (simp add: enqueue_prepare_def Let_def acct_frame)
  qed
  ultimately show "accounts A c'" "buddies A c'" using accounts_cong buddies_cong by blast+
qed

lemma dequeue_entity_accounts:
  assumes c: "accounts A c" "buddies A c" and a: "a \<in> A" "a \<noteq> 0" "se_on_rq (ents c a)" and e: "dequeue_entity c now a sleep = Some c'"
  shows "accounts A c'" "buddies A c'"
proof -
  let ?c0 = "update_curr c now"
  let ?c1 = "clear_buddies ?c0 a"
  obtain c2 where c2: "(if a \<noteq> cfs_curr ?c1 then dequeue_node ?c1 a else Some ?c1) = Some c2"
    and c': "acct c' = acct (account_entity_dequeue c2 a)" "buds c' = buds (account_entity_dequeue c2 a)"
    using e by (auto simp: dequeue_entity_def Let_def acct_frame split: Option.bind_splits)
  have "acct c2 = acct ?c1 \<and> buds c2 = buds ?c1" using c2 acct_dequeue_node [of ?c1 a c2] by (auto split: if_splits)
  then have f: "acct c2 = acct c" "buds c2 = buds ?c1" by (simp_all add: acct_frame)
  have "accounts A c2" using c accounts_cong [OF f(1)] by simp
  then have ac: "accounts A (account_entity_dequeue c2 a)" using a acctD [OF f(1)] by (intro accounts_dequeue) simp_all
  have "buddies A ?c0" using c(2) buddies_cong [of ?c0 c] by (simp add: acct_frame)
  note b = buddies_clear [OF this, of a]
  have "buddies A c2" using b(1) buddies_cong [OF _ f(2)] f(1) by (simp add: acct_frame)
  then have "buddies A (account_entity_dequeue c2 a)"
    using b(2) a f(2) account_dequeue_fields(2) [of c2 a] by (auto simp: buddies_def buds_def account_dequeue_fields(4))
  then show "accounts A c'" "buddies A c'" using ac c' accounts_cong buddies_cong by blast+
qed

lemma acct_set_next_entity:
  assumes "set_next_entity c now a = Some c'"
  shows "acct c' = acct c" "buds c' = buds c"
proof -
  obtain c1 where c1: "(if se_on_rq (ents c a) then dequeue_node c a else Some c) = Some c1"
    and "acct c' = acct c1" "buds c' = buds c1"
    using assms by (auto simp: set_next_entity_def Let_def acct_frame split: Option.bind_splits)
  then show "acct c' = acct c" "buds c' = buds c" using acct_dequeue_node [of c a c1] by (auto split: if_splits)
qed

lemma acct_put_prev_entity:
  assumes "put_prev_entity c now a = Some c'"
  shows "acct c' = acct c" "buds c' = buds c"
proof -
  let ?c1 = "if se_on_rq (ents c a) then update_curr c now else c"
  obtain c2 where c2: "(if se_on_rq (ents ?c1 a) then enqueue_node ?c1 a else Some ?c1) = Some c2"
    and "acct c' = acct c2" "buds c' = buds c2"
    using assms by (auto simp: put_prev_entity_def Let_def acct_frame split: Option.bind_splits)
  moreover have "acct c2 = acct ?c1 \<and> buds c2 = buds ?c1"
    using c2 acct_enqueue_node [of ?c1 a c2] by (cases "se_on_rq (ents ?c1 a)") auto
  ultimately show "acct c' = acct c" "buds c' = buds c" by (auto simp: acct_frame)
qed

end
