(* ===== verification/Sched_Pick.thy ===== *)
theory Sched_Pick
  imports Sched_Account
begin

text \<open>
  The choice of the next entity: the first of the tree, or a buddy that is ahead of it by no more than the wake-up granularity. The
  comparison computes inverse weights on demand, which changes nothing that a later comparison reads.
\<close>

section \<open>Inverse weights\<close>

definition inv_filled :: "cfs_rq \<Rightarrow> cfs_rq \<Rightarrow> bool" where
  "inv_filled c c' \<longleftrightarrow> (\<exists>P. c' = c\<lparr>ents := (\<lambda>a. if P a then (ents c a)\<lparr>se_load := calc_inv_weight (se_load (ents c a))\<rparr> else ents c a)\<rparr>)"

lemma calc_inv_weight_idem [simp]: "calc_inv_weight (calc_inv_weight lw) = calc_inv_weight lw"
  by (simp add: calc_inv_weight_def)

lemma calc_delta_mine_inv [simp]: "calc_delta_mine d w (calc_inv_weight lw) = calc_delta_mine d w lw"
  by (simp add: calc_delta_mine_def)

lemma inv_filled_refl: "inv_filled c c"
  by (auto simp: inv_filled_def intro!: exI [of _ "\<lambda>_. False"])

lemma inv_filled_trans: "inv_filled c c1 \<Longrightarrow> inv_filled c1 c2 \<Longrightarrow> inv_filled c c2"
proof -
  assume "inv_filled c c1" "inv_filled c1 c2"
  then obtain P Q where c1: "c1 = c\<lparr>ents := (\<lambda>a. if P a then (ents c a)\<lparr>se_load := calc_inv_weight (se_load (ents c a))\<rparr> else ents c a)\<rparr>"
    and c2: "c2 = c1\<lparr>ents := (\<lambda>a. if Q a then (ents c1 a)\<lparr>se_load := calc_inv_weight (se_load (ents c1 a))\<rparr> else ents c1 a)\<rparr>"
    by (auto simp: inv_filled_def)
  have "ents c2 = (\<lambda>a. if P a \<or> Q a then (ents c a)\<lparr>se_load := calc_inv_weight (se_load (ents c a))\<rparr> else ents c a)"
    by (auto simp: c1 c2 fun_eq_iff)
  then show ?thesis by (auto simp: inv_filled_def c1 c2 intro!: exI [of _ "\<lambda>a. P a \<or> Q a"])
qed

lemma inv_filledD:
  assumes "inv_filled c c'"
  shows "timeline c' = timeline c" "rb_leftmost c' = rb_leftmost c" "min_vr c' = min_vr c" "cfs_curr c' = cfs_curr c"
    "nr_running c' = nr_running c" "se_on_rq (ents c' a) = se_on_rq (ents c a)" "vruntime (ents c' a) = vruntime (ents c a)"
    "vr c' a = vr c a" "acct c' = acct c" "buds c' = buds c" "cfs_next c' = cfs_next c" "cfs_last c' = cfs_last c"
    "rq_curr c' = rq_curr c" "rq_idle c' = rq_idle c" "policy (ents c' a) = policy (ents c a)"
    "need_resched c' = need_resched c"
  using assms by (auto simp: inv_filled_def vr_def acct_def buds_def fun_eq_iff split: if_splits)

lemma calc_delta_fair_filled: "inv_filled c (snd (calc_delta_fair c d a))"
  unfolding inv_filled_def
  by (rule exI [of _ "\<lambda>b. b = a \<and> weight (se_load (ents c a)) \<noteq> NICE_0_LOAD"])
    (auto simp: calc_delta_fair_def Let_def upd_se_def calc_delta_mine_def fun_eq_iff)

lemma calc_delta_fair_inv: "inv_filled c c' \<Longrightarrow> fst (calc_delta_fair c' d a) = fst (calc_delta_fair c d a)"
  by (auto simp: inv_filled_def calc_delta_fair_def Let_def split: if_splits)

lemma wakeup_gran_filled: "inv_filled c (snd (wakeup_gran cfg c a b))"
  using calc_delta_fair_filled inv_filled_refl by (auto simp: wakeup_gran_def Let_def)

lemma wakeup_gran_inv:
  assumes "inv_filled c c'"
  shows "fst (wakeup_gran cfg c' a b) = fst (wakeup_gran cfg c a b)"
proof -
  have w: "weight (se_load (ents c' x)) = weight (se_load (ents c x))" for x using acctD(4) [OF inv_filledD(9) [OF assms]] .
  have "adaptive_gran cfg c' a b = adaptive_gran cfg c a b" using assms by (auto simp: inv_filled_def adaptive_gran_def)
  then show ?thesis using inv_filledD(4) [OF assms] by (simp add: wakeup_gran_def Let_def w calc_delta_fair_inv [OF assms])
qed

section \<open>Comparison\<close>

text \<open>How far an entity may be ahead of the first one of the tree and still be chosen.\<close>

definition buddy_slack :: "sched_cfg \<Rightarrow> cfs_rq \<Rightarrow> u64 \<Rightarrow> u64 \<Rightarrow> int" where
  "buddy_slack cfg c a b = max 0 (sint (fst (wakeup_gran cfg c a b)))"

lemma wakeup_preempt_spec:
  assumes "a \<noteq> 0" "b \<noteq> 0"
  obtains r c' where "wakeup_preempt_entity cfg c a b = Some (r, c')" "inv_filled c c'"
    "r < 1 \<longleftrightarrow> sint (vr c a - vr c b) \<le> buddy_slack cfg c a b"
proof (cases "sint (vr c a - vr c b) \<le> 0")
  case True
  then show ?thesis using that [of "- 1" c] assms inv_filled_refl by (simp add: wakeup_preempt_entity_def buddy_slack_def)
next
  case False
  let ?r = "if sint (vr c a - vr c b) > sint (fst (wakeup_gran cfg c a b)) then 1 else 0 :: int"
  have "wakeup_preempt_entity cfg c a b = Some (?r, snd (wakeup_gran cfg c a b))"
    using False assms by (simp add: wakeup_preempt_entity_def Let_def)
  moreover have "?r < 1 \<longleftrightarrow> sint (vr c a - vr c b) \<le> buddy_slack cfg c a b" using False by (auto simp: buddy_slack_def)
  ultimately show ?thesis using that wakeup_gran_filled [of c cfg a b] by blast
qed

lemma buddy_slack_inv: "inv_filled c c' \<Longrightarrow> buddy_slack cfg c' a b = buddy_slack cfg c a b"
  by (simp add: buddy_slack_def wakeup_gran_inv)

text \<open>One buddy: it takes the place of the entity chosen so far, or not.\<close>

lemma try_buddy:
  assumes c: "inv_filled c c1" and l: "l \<noteq> 0"
  obtains r c2 where "(if b \<noteq> 0 then wakeup_preempt_entity cfg c1 b l else Some (1, c1)) = Some (r, c2)" "inv_filled c c2"
    "r < 1 \<Longrightarrow> b \<noteq> 0 \<and> sint (vr c b - vr c l) \<le> buddy_slack cfg c b l"
proof (cases "b = 0")
  case True
  then show ?thesis using that [of 1 c1] c by simp
next
  case False
  obtain r c2 where "wakeup_preempt_entity cfg c1 b l = Some (r, c2)" "inv_filled c1 c2"
    "r < 1 \<longleftrightarrow> sint (vr c1 b - vr c1 l) \<le> buddy_slack cfg c1 b l"
    using wakeup_preempt_spec [OF False l] by metis
  then show ?thesis using that [of r c2] False inv_filled_trans [OF c] inv_filledD(8) [OF c] buddy_slack_inv [OF c] by simp
qed

lemma pick_next_entity_spec:
  assumes l: "rb_leftmost c \<noteq> 0"
  obtains p c1 where "pick_next_entity cfg c = Some (p, clear_buddies c1 p)" "inv_filled c c1" "p \<noteq> 0"
    "p \<in> {rb_leftmost c, cfs_next c, cfs_last c}"
    "p = rb_leftmost c \<or> sint (vr c p - vr c (rb_leftmost c)) \<le> buddy_slack cfg c p (rb_leftmost c)"
proof -
  let ?l = "rb_leftmost c"
  obtain r c1 where 1: "(if cfs_next c \<noteq> 0 then wakeup_preempt_entity cfg c (cfs_next c) ?l else Some (1, c)) = Some (r, c1)" "inv_filled c c1"
    "r < 1 \<Longrightarrow> cfs_next c \<noteq> 0 \<and> sint (vr c (cfs_next c) - vr c ?l) \<le> buddy_slack cfg c (cfs_next c) ?l"
    using try_buddy [OF inv_filled_refl l] by metis
  have la: "cfs_last c1 = cfs_last c" using inv_filledD(12) [OF 1(2)] .
  obtain q c2 where 2: "(if cfs_last c \<noteq> 0 then wakeup_preempt_entity cfg c1 (cfs_last c) ?l else Some (1, c1)) = Some (q, c2)" "inv_filled c c2"
    "q < 1 \<Longrightarrow> cfs_last c \<noteq> 0 \<and> sint (vr c (cfs_last c) - vr c ?l) \<le> buddy_slack cfg c (cfs_last c) ?l"
    using try_buddy [OF 1(2) l] by metis
  let ?p = "if q < 1 then cfs_last c else if r < 1 then cfs_next c else ?l"
  have "pick_next_entity cfg c = Some (?p, clear_buddies c2 ?p)"
    unfolding pick_next_entity_def pick_next_node_def Let_def 1(1) bind.bind_lunit prod.case la 2(1) by simp
  then show ?thesis using that [of ?p c2] 1(3) 2(2,3) l by auto
qed

end
