(* ===== verification/Sched_Machine.thy ===== *)
theory Sched_Machine
  imports Sched_Pick
begin

text \<open>
  The operations of the fair class in sequence: each of them returns, keeps the queue sorted and the accounts right, and never moves
  the minimum of the virtual run times back. What the rest of the scheduler owes the class is stated for each operation.
\<close>

section \<open>Invariant\<close>

definition cfs_inv :: "u64 set \<Rightarrow> cfs_rq \<Rightarrow> bool" where
  "cfs_inv A c \<longleftrightarrow> (\<exists>t. cfs_queue A c t) \<and> accounts A c \<and> buddies A c"

text \<open>The operation returns, the invariant holds and the minimum is not behind the one before.\<close>

definition keeps :: "u64 set \<Rightarrow> cfs_rq \<Rightarrow> cfs_rq option \<Rightarrow> bool" where
  "keeps A c r \<longleftrightarrow> (\<exists>c'. r = Some c' \<and> cfs_inv A c' \<and> 0 \<le> sint (min_vr c' - min_vr c))"

lemma keepsI: "r = Some c' \<Longrightarrow> cfs_queue A c' t \<Longrightarrow> accounts A c' \<Longrightarrow> buddies A c' \<Longrightarrow> 0 \<le> sint (min_vr c' - min_vr c) \<Longrightarrow> keeps A c r"
  by (auto simp: keeps_def cfs_inv_def)

text \<open>A change that leaves the tree, the accounts and the times of the queued tasks alone.\<close>

definition quiet :: "rbt \<Rightarrow> cfs_rq \<Rightarrow> cfs_rq \<Rightarrow> bool" where
  "quiet t c c' \<longleftrightarrow> timeline c' = timeline c \<and> rb_leftmost c' = rb_leftmost c \<and> min_vr c' = min_vr c \<and> cfs_curr c' = cfs_curr c
     \<and> nr_running c' = nr_running c \<and> acct c' = acct c \<and> (\<forall>a \<in> set (inorder t). vruntime (ents c' a) = vruntime (ents c a))"

lemma quiet_queue: "quiet t c c' \<Longrightarrow> cfs_queue A c t \<Longrightarrow> cfs_queue A c' t"
  using cfs_queue_cong [of c' c t A] acctD(3) unfolding quiet_def by blast

lemma quiet_accounts: "quiet t c c' \<Longrightarrow> accounts A c \<Longrightarrow> accounts A c'"
  using accounts_cong [of c' c A] by (simp add: quiet_def)

lemma quiet_refl: "quiet t c c"
  by (simp add: quiet_def)

lemma quiet_trans: "quiet t c c1 \<Longrightarrow> quiet t c1 c2 \<Longrightarrow> quiet t c c2"
  by (simp add: quiet_def)

lemma quiet_filled: "inv_filled c c' \<Longrightarrow> quiet t c c'"
  by (simp add: quiet_def inv_filledD)

lemma quiet_resched: "quiet t c (resched_curr c)"
  by (simp add: quiet_def resched_curr_def acct_frame)

lemma quiet_slice: "quiet t c (snd (sched_slice cfg c a))"
  by (simp add: quiet_def cfs_frame acct_frame)

lemma quiet_clear: "quiet t c (clear_buddies c a)"
  by (simp add: quiet_def cfs_frame acct_frame)

lemma quiet_set_buddy: "quiet t c (set_last_buddy c a)" "quiet t c (set_next_buddy c a)"
  by (simp_all add: quiet_def set_last_buddy_def set_next_buddy_def acct_frame)

lemma quiet_upd_se:
  "a \<notin> set (inorder t) \<Longrightarrow> se_on_rq (f (ents c a)) = se_on_rq (ents c a) \<Longrightarrow> weight (se_load (f (ents c a))) = weight (se_load (ents c a)) \<Longrightarrow>
   quiet t c (upd_se c a f)"
  by (auto simp: quiet_def cfs_frame acct_frame)

lemmas quiet_intros = quiet_refl quiet_filled quiet_resched quiet_slice quiet_clear quiet_set_buddy quiet_upd_se

lemma buddies_quiet: "quiet t c c' \<Longrightarrow> buds c' = buds c \<Longrightarrow> buddies A c \<Longrightarrow> buddies A c'"
  using buddies_cong [of c' c A] by (simp add: quiet_def)

lemma buddies_set_buddy:
  assumes "buddies A c" "a \<in> A" "se_on_rq (ents c a)"
  shows "buddies A (set_last_buddy c a)" "buddies A (set_next_buddy c a)"
  using assms by (simp_all add: buddies_def set_last_buddy_def set_next_buddy_def)

text \<open>The time of the running task may be brought up to date and then something quiet done.\<close>

lemma keeps_update_curr:
  assumes q: "cfs_queue A c t" "accounts A c" and ok: "cur_ok c now" and r: "r = Some c'" "quiet t (update_curr c now) c'" "buddies A c'"
  shows "keeps A c r"
proof -
  have "advanced A c (update_curr c now) t" using update_curr_queue [OF q(1) ok] .
  then have "cfs_queue A c' t" "0 \<le> sint (min_vr c' - min_vr c)" using r(2) quiet_queue [OF r(2)] by (auto simp: advanced_def quiet_def)
  moreover have "accounts A (update_curr c now)" using q(2) accounts_cong [of "update_curr c now" c] by (simp add: acct_frame)
  ultimately show ?thesis using keepsI [OF r(1)] quiet_accounts [OF r(2)] r(3) by blast
qed

lemma keeps_quiet:
  assumes i: "cfs_inv A c" and f: "\<And>t. cfs_queue A c t \<Longrightarrow> quiet t c c'" and b: "buddies A c'"
  shows "keeps A c (Some c')"
proof -
  obtain t where t: "cfs_queue A c t" "accounts A c" using i by (auto simp: cfs_inv_def)
  have "min_vr c' = min_vr c" using f [OF t(1)] by (simp add: quiet_def)
  then show ?thesis using keepsI [OF refl quiet_queue [OF f [OF t(1)] t(1)] quiet_accounts [OF f [OF t(1)] t(2)] b] by simp
qed

lemma buddies_update_curr: "buddies A c \<Longrightarrow> buddies A (update_curr c now)"
  using buddies_cong [of "update_curr c now" c A] by (simp add: acct_frame)

section \<open>Operations\<close>

lemma enqueue_task_keeps:
  assumes i: "cfs_inv A c" and A: "entities A" "a \<in> A"
    and ok: "\<not> se_on_rq (ents c a) \<Longrightarrow> cur_ok (normalize_vruntime c a (enqueue_flags w k)) now
      \<and> in_window (entity_key (enqueue_prepare cfg c now a (enqueue_flags w k)) a)"
  shows "keeps A c (enqueue_task_fair cfg c now a w k)"
proof (cases "se_on_rq (ents c a)")
  case True
  then show ?thesis using i by (simp add: enqueue_task_fair_def keeps_def)
next
  case False
  obtain t where t: "cfs_queue A c t" "accounts A c" "buddies A c" using i by (auto simp: cfs_inv_def)
  obtain c' t' where c': "enqueue_entity cfg c now a (enqueue_flags w k) = Some c'" "cfs_queue A c' t'" "0 \<le> sint (min_vr c' - min_vr c)"
    using enqueue_entity_queue [OF t(1) A False] ok [OF False] by blast
  show ?thesis
    using keepsI [OF c'(1,2) enqueue_entity_accounts [OF t(2,3) A(2) False c'(1)] c'(3)] False by (simp add: enqueue_task_fair_def)
qed

lemma dequeue_task_keeps:
  assumes i: "cfs_inv A c" and A: "entities A" "a \<in> A" "se_on_rq (ents c a)" and ok: "cur_ok c now"
  shows "keeps A c (dequeue_task_fair c now a sleep)"
proof -
  obtain t where t: "cfs_queue A c t" "accounts A c" "buddies A c" using i by (auto simp: cfs_inv_def)
  obtain c' t' where c': "dequeue_entity c now a sleep = Some c'" "cfs_queue A c' t'" "0 \<le> sint (min_vr c' - min_vr c)"
    using dequeue_entity_queue [OF t(1) A(2,3) ok] by blast
  have "a \<noteq> 0" using A by (auto simp: entities_def)
  from keepsI [OF c'(1,2) dequeue_entity_accounts [OF t(2,3) A(2) this A(3) c'(1)] c'(3)]
  show ?thesis by (simp add: dequeue_task_fair_def)
qed

lemma put_prev_keeps:
  assumes i: "cfs_inv A c" and A: "entities A" "cfs_curr c \<in> A" and ok: "se_on_rq (ents c (cfs_curr c)) \<Longrightarrow> cur_ok c now"
  shows "keeps A c (put_prev_task_fair c now (cfs_curr c))"
proof -
  obtain t where t: "cfs_queue A c t" "accounts A c" "buddies A c" using i by (auto simp: cfs_inv_def)
  obtain c' t' where c': "put_prev_entity c now (cfs_curr c) = Some c'" "cfs_queue A c' t'" "0 \<le> sint (min_vr c' - min_vr c)"
    using put_prev_entity_queue [OF t(1) A ok] by blast
  note f = acct_put_prev_entity [OF c'(1)]
  from keepsI [OF c'(1,2) _ _ c'(3)] show ?thesis
    using t(2,3) accounts_cong [OF f(1)] buddies_cong [OF f] by (simp add: put_prev_task_fair_def)
qed

lemma set_next_keeps:
  assumes i: "cfs_inv A c" and A: "entities A" "a \<in> A" and n: "cfs_curr c = 0"
  obtains c' where "set_next_entity c now a = Some c'" "cfs_inv A c'" "min_vr c' = min_vr c" "cfs_curr c' = a"
proof -
  obtain t where t: "cfs_queue A c t" "accounts A c" "buddies A c" using i by (auto simp: cfs_inv_def)
  obtain c' t' where c': "set_next_entity c now a = Some c'" "cfs_queue A c' t'" "min_vr c' = min_vr c"
    using set_next_entity_queue [OF t(1) A n] by blast
  note f = acct_set_next_entity [OF c'(1)]
  have "cfs_curr c' = a" using c'(1) by (auto simp: set_next_entity_def Let_def upd_se_def split: Option.bind_splits)
  then show ?thesis using that [OF c'(1) _ c'(3)] c'(2) t(2,3) accounts_cong [OF f(1)] buddies_cong [OF f] by (auto simp: cfs_inv_def)
qed

lemma cur_ok_cong: "ents c' = ents c \<Longrightarrow> cfs_curr c' = cfs_curr c \<Longrightarrow> min_vr c' = min_vr c \<Longrightarrow> cur_ok c' now \<longleftrightarrow> cur_ok c now"
  by (simp add: cur_ok_def charged_def charge_def calc_delta_fair_def entity_key_def vr_def upd_se_def Let_def)

lemma yield_keeps:
  assumes i: "cfs_inv A c" and n: "rq_curr c = cfs_curr c" and ok: "cur_ok c now"
  shows "keeps A c (yield_task_fair cfg c now)"
proof -
  obtain t where t: "cfs_queue A c t" "accounts A c" "buddies A c" using i by (auto simp: cfs_inv_def)
  let ?se = "cfs_curr c"
  let ?c1 = "clear_buddies c ?se"
  have q1: "quiet t c ?c1" by (rule quiet_clear)
  have b1: "buddies A ?c1" using buddies_clear(1) [OF t(3)] .
  have i1: "cfs_inv A ?c1" using quiet_queue [OF q1 t(1)] quiet_accounts [OF q1 t(2)] b1 by (auto simp: cfs_inv_def)
  have m: "min_vr ?c1 = min_vr c" by (simp add: cfs_frame)
  have ok1: "cur_ok ?c1 now" using ok cur_ok_cong [of ?c1 c now] by (simp add: cfs_frame)
  have u: "keeps A ?c1 (Some (update_curr ?c1 now))"
    by (rule keeps_update_curr [OF quiet_queue [OF q1 t(1)] quiet_accounts [OF q1 t(2)] ok1 refl quiet_refl buddies_update_curr [OF b1]])
  obtain l where l: "pick_last_node ?c1 = Some l"
    using rb_first_last_spec(2) t(1) by (auto simp: pick_last_node_def cfs_queue_def holds_tree_def cfs_frame)
  have nt: "?se \<notin> set (inorder t')" if "cfs_queue A ?c1 t'" for t' using cfs_queueD(6) [OF that] by (simp add: cfs_frame)
  have k1: "keeps A ?c1 (Some ?c1)" using i1 by (simp add: keeps_def)
  have k2: "keeps A ?c1 (Some (upd_se ?c1 ?se (\<lambda>e. e\<lparr>vruntime := v\<rparr>)))" for v
    using b1 nt buddies_cong [of "upd_se ?c1 ?se (\<lambda>e. e\<lparr>vruntime := v\<rparr>)" ?c1 A]
    by (intro keeps_quiet [OF i1] quiet_upd_se) (auto simp: acct_frame)
  have "keeps A ?c1 (yield_task_fair cfg c now) \<or> yield_task_fair cfg c now = Some c"
    using u k1 k2 l by (auto simp: yield_task_fair_def n Let_def)
  then show ?thesis using i m by (auto simp: keeps_def)
qed

lemma waking_keeps:
  assumes i: "cfs_inv A c" and a: "a \<in> A" "\<not> se_on_rq (ents c a)"
  shows "keeps A c (Some (task_waking_fair c a))"
proof (rule keeps_quiet [OF i])
  show "quiet t c (task_waking_fair c a)" if "cfs_queue A c t" for t
    using cfs_queueD(5) [OF that, of a] a by (auto simp: task_waking_fair_def intro!: quiet_upd_se)
  show "buddies A (task_waking_fair c a)" using i buddies_cong [of "task_waking_fair c a" c]
    by (simp add: task_waking_fair_def acct_frame cfs_inv_def)
qed

text \<open>Preemption: flags, buddies and inverse weights change, nothing else.\<close>

definition harmless :: "u64 set \<Rightarrow> rbt \<Rightarrow> cfs_rq \<Rightarrow> cfs_rq option \<Rightarrow> bool" where
  "harmless A t c r \<longleftrightarrow> (\<exists>c'. r = Some c' \<and> quiet t c c' \<and> buddies A c')"

lemma harmlessI: "quiet t c c' \<Longrightarrow> buddies A c' \<Longrightarrow> harmless A t c (Some c')"
  by (simp add: harmless_def)

lemma buddies_resched: "buddies A (resched_curr c) \<longleftrightarrow> buddies A c"
  using buddies_cong [of "resched_curr c" c A] by (simp add: acct_frame)

lemma update_curr_rq: "rq_curr (update_curr c now) = rq_curr c"
  by (simp add: update_curr_def update_min_vruntime_def charge_def calc_delta_fair_def upd_se_def Let_def)

lemma preempt_by_vruntime_harmless:
  assumes b: "buddies A c" and A: "entities A" "rq_curr c \<in> A" "p \<in> A"
  shows "harmless A t c (preempt_by_vruntime cfg c p scale)"
proof -
  let ?se = "rq_curr c"
  have "?se \<noteq> 0" "p \<noteq> 0" using A by (auto simp: entities_def)
  then obtain r c1 where c1: "wakeup_preempt_entity cfg c ?se p = Some (r, c1)" "inv_filled c c1" by (rule wakeup_preempt_spec)
  let ?c2 = "resched_curr c1"
  have q: "quiet t c c1" using quiet_filled [OF c1(2)] .
  have b1: "buddies A c1" using buddies_quiet [OF q inv_filledD(10) [OF c1(2)] b] .
  then have b2: "buddies A ?c2" by (simp add: buddies_resched)
  have q2: "quiet t c ?c2" using quiet_trans [OF q quiet_resched] .
  have l: "se_on_rq (ents ?c2 ?se) \<Longrightarrow> harmless A t c (Some (set_last_buddy ?c2 ?se))"
    using harmlessI [OF quiet_trans [OF q2 quiet_set_buddy(1)]] buddies_set_buddy(1) [OF b2 A(2)] by blast
  show ?thesis
    using c1(1) l harmlessI [OF quiet_refl b] harmlessI [OF q b1] harmlessI [OF q2 b2] by (simp add: preempt_by_vruntime_def Let_def)
qed

lemma harmless_if: "harmless A t c x \<Longrightarrow> harmless A t c y \<Longrightarrow> harmless A t c (if b then x else y)"
  by simp

lemma check_preempt_harmless:
  assumes b: "buddies A c" and A: "entities A" "rq_curr c \<in> A" "p \<in> A" "se_on_rq (ents c p)"
  shows "harmless A t (update_curr c now) (check_preempt_wakeup cfg c now p fl)"
proof -
  let ?c1 = "update_curr c now"
  define c2 where "c2 = (if NEXT_BUDDY cfg \<and> nr_running c \<ge> ucast (sched_nr_latency cfg) \<and> fl AND WF_FORK = 0
    then set_next_buddy ?c1 p else ?c1)"
  have b1: "buddies A ?c1" using buddies_update_curr [OF b] .
  have on: "se_on_rq (ents ?c1 p)" using A(4) acctD(3) [of ?c1 c p] by (simp add: acct_frame)
  have q2: "quiet t ?c1 c2" using quiet_refl quiet_set_buddy(2) by (simp add: c2_def)
  have b2: "buddies A c2" using b1 buddies_set_buddy(2) [OF b1 A(3) on] by (simp add: c2_def)
  have on2: "se_on_rq (ents c2 p)" using on by (simp add: c2_def set_next_buddy_def)
  have rq: "rq_curr c2 = rq_curr c" by (simp add: c2_def update_curr_rq set_next_buddy_def)
  have v: "harmless A t ?c1 (preempt_by_vruntime cfg c2 p scale)" for scale
    using preempt_by_vruntime_harmless [OF b2 A(1) _ A(3), of t cfg scale] A(2) rq quiet_trans [OF q2] by (auto simp: harmless_def)
  have h1: "harmless A t ?c1 (Some ?c1)" "harmless A t ?c1 (Some (resched_curr ?c1))"
    using harmlessI quiet_refl quiet_resched b1 by (simp_all add: buddies_resched)
  have h2: "harmless A t ?c1 (Some c2)" "harmless A t ?c1 (Some (resched_curr c2))" "harmless A t ?c1 (Some (resched_curr (set_next_buddy c2 p)))"
    using harmlessI [OF q2 b2] harmlessI [OF quiet_trans [OF q2 quiet_resched]] b2
      harmlessI [OF quiet_trans [OF q2 quiet_trans [OF quiet_set_buddy(2) quiet_resched]]] buddies_set_buddy(2) [OF b2 A(3) on2]
    by (simp_all only: buddies_resched)
  show ?thesis unfolding check_preempt_wakeup_def Let_def c2_def [symmetric] by (intro harmless_if h1 h2 v)
qed

lemma nr_running_tree:
  assumes q: "cfs_queue A c t" and n: "nr_running c > 1"
  shows "rb_leftmost c \<noteq> 0"
proof -
  have "inorder t \<noteq> []"
  proof
    assume "inorder t = []"
    then have "nr_running c = 0 \<or> nr_running c = 1" using q by (simp add: cfs_queue_def)
    then show False using n by auto
  qed
  then show ?thesis using cfs_queueD(3,4) [OF q] by (cases "inorder t") auto
qed

lemma check_preempt_tick_harmless:
  assumes q: "cfs_queue A c t" and b: "buddies A c"
  shows "harmless A t c (check_preempt_tick cfg c a)"
proof -
  let ?c1 = "snd (sched_slice cfg c a)"
  have q1: "quiet t c ?c1" by (rule quiet_slice)
  have b1: "buddies A ?c1" using buddies_quiet [OF q1 _ b] by (simp add: acct_frame)
  have h: "harmless A t c (Some ?c1)" "harmless A t c (Some (resched_curr ?c1))"
    "harmless A t c (Some (clear_buddies (resched_curr ?c1) a))"
    using harmlessI [OF q1 b1] harmlessI [OF quiet_trans [OF q1 quiet_resched]] b1 buddies_clear(1) [of A "resched_curr ?c1" a]
      harmlessI [OF quiet_trans [OF q1 quiet_trans [OF quiet_resched quiet_clear]]] by (simp_all add: buddies_resched)
  have "nr_running ?c1 > 1 \<Longrightarrow> pick_next_node ?c1 \<noteq> 0"
    using nr_running_tree [OF q] by (simp add: cfs_frame pick_next_node_def)
  then show ?thesis using h by (simp add: check_preempt_tick_def Let_def)
qed

lemma tick_keeps:
  assumes i: "cfs_inv A c" and ok: "cur_ok c now"
  shows "keeps A c (task_tick_fair cfg c now a)"
proof -
  obtain t where t: "cfs_queue A c t" "accounts A c" "buddies A c" using i by (auto simp: cfs_inv_def)
  let ?c1 = "update_curr c now"
  have b1: "buddies A ?c1" using buddies_update_curr [OF t(3)] .
  have "cfs_queue A ?c1 t" using update_curr_queue [OF t(1) ok] by (simp add: advanced_def)
  then have "harmless A t ?c1 (task_tick_fair cfg c now a)"
    using check_preempt_tick_harmless [OF _ b1] harmlessI [OF quiet_refl b1] by (simp add: task_tick_fair_def entity_tick_def Let_def)
  then show ?thesis unfolding harmless_def using keeps_update_curr [OF t(1,2) ok] by blast
qed

lemma preempt_keeps:
  assumes i: "cfs_inv A c" and ok: "cur_ok c now" and A: "entities A" "rq_curr c \<in> A" "p \<in> A" "se_on_rq (ents c p)"
  shows "keeps A c (check_preempt_wakeup cfg c now p fl)"
proof -
  obtain t where t: "cfs_queue A c t" "accounts A c" "buddies A c" using i by (auto simp: cfs_inv_def)
  show ?thesis using check_preempt_harmless [OF t(3) A] keeps_update_curr [OF t(1,2) ok] unfolding harmless_def by blast
qed

lemma quiet_place:
  assumes "a \<notin> set (inorder t)"
  shows "quiet t c (place_entity cfg c a i)"
  using assms by (auto simp: quiet_def cfs_frame acct_frame intro!: place_entity_frame(7))

lemma fork_keeps:
  assumes i: "cfs_inv A c" and ok: "cur_ok c now" and a: "a \<in> A" "\<not> se_on_rq (ents c a)"
  shows "keeps A c (Some (task_fork_fair cfg c now a))"
proof -
  obtain t where t: "cfs_queue A c t" "accounts A c" "buddies A c" using i by (auto simp: cfs_inv_def)
  let ?u = "cfs_curr c"
  have n: "a \<notin> set (inorder t)" "?u \<notin> set (inorder t)" using cfs_queueD(5,6) [OF t(1)] a by auto
  let ?c1 = "update_curr c now"
  define c2 where "c2 = (if ?u \<noteq> 0 then upd_se ?c1 a (\<lambda>e. e\<lparr>vruntime := vr ?c1 ?u\<rparr>) else ?c1)"
  define c3 where "c3 = place_entity cfg c2 a True"
  define c4 where "c4 = (if sysctl_sched_child_runs_first cfg \<and> ?u \<noteq> 0 \<and> entity_before c3 ?u a
    then resched_curr (upd_se (upd_se c3 ?u (\<lambda>e. e\<lparr>vruntime := vr c3 a\<rparr>)) a (\<lambda>e. e\<lparr>vruntime := vr c3 ?u\<rparr>)) else c3)"
  let ?c' = "upd_se c4 a (\<lambda>e. e\<lparr>vruntime := vruntime e - min_vr c4\<rparr>)"
  have q2: "quiet t ?c1 c2" using n by (auto simp: c2_def intro!: quiet_upd_se quiet_refl)
  have q3: "quiet t c2 c3" using quiet_place [OF n(1)] by (simp add: c3_def)
  have q4: "quiet t c3 c4" unfolding c4_def
    using n by (auto intro!: quiet_trans [OF quiet_upd_se quiet_trans [OF quiet_upd_se quiet_resched]] quiet_refl)
  have q5: "quiet t c4 ?c'" using n by (auto intro!: quiet_upd_se)
  have q: "quiet t ?c1 ?c'" using quiet_trans [OF q2 quiet_trans [OF q3 quiet_trans [OF q4 q5]]] .
  have "buds ?c' = buds ?c1" by (simp add: c2_def c3_def c4_def acct_frame)
  then have "buddies A ?c'" using buddies_quiet [OF q _ buddies_update_curr [OF t(3)]] by simp
  moreover have "task_fork_fair cfg c now a = ?c'" by (simp only: task_fork_fair_def Let_def c2_def c3_def c4_def)
  ultimately show ?thesis using keeps_update_curr [OF t(1,2) ok refl q] by simp
qed

lemma reweight_keeps:
  assumes i: "cfs_inv A c" and a: "\<not> se_on_rq (ents c a)"
  shows "keeps A c (Some (upd_se c a (\<lambda>e. e\<lparr>se_load := lw\<rparr>)))"
proof -
  let ?c = "upd_se c a (\<lambda>e. e\<lparr>se_load := lw\<rparr>)"
  obtain t where t: "cfs_queue A c t" "accounts A c" "buddies A c" using i by (auto simp: cfs_inv_def)
  have "a \<notin> set (cfs_tasks c)" using t(2) a by (simp add: accounts_def)
  then have "map (\<lambda>b. weight (se_load (ents ?c b))) (cfs_tasks c) = map (\<lambda>b. weight (se_load (ents c b))) (cfs_tasks c)"
    by (auto simp: upd_se_def)
  moreover have "cfs_tasks ?c = cfs_tasks c" "cfs_load ?c = cfs_load c" "\<And>b. se_on_rq (ents ?c b) = se_on_rq (ents c b)"
    by (simp_all add: upd_se_def)
  ultimately have "accounts A ?c" using t(2) by (simp only: accounts_def)
  moreover have "cfs_queue A ?c t \<longleftrightarrow> cfs_queue A c t" by (rule cfs_queue_cong) (auto simp: cfs_frame)
  moreover have "buddies A ?c" using t(3) by (auto simp: buddies_def upd_se_def)
  ultimately show ?thesis using keepsI [OF refl, of A ?c t c] t(1) by (simp add: cfs_frame)
qed

text \<open>The choice of the next task.\<close>

lemma nr_running_pos:
  assumes q: "cfs_queue A c t" and n: "nr_running c \<noteq> 0" "cfs_curr c = 0" and A: "entities A"
  shows "rb_leftmost c \<noteq> 0" "rb_leftmost c \<in> set (inorder t)"
proof -
  have "cfs_curr c \<notin> A" using n(2) A by (auto simp: entities_def)
  then have "nr_running c = of_nat (length (inorder t))" using q by (simp add: cfs_queue_def)
  then have "inorder t \<noteq> []" using n(1) by auto
  then show "rb_leftmost c \<noteq> 0" "rb_leftmost c \<in> set (inorder t)" using cfs_queueD(3,4) [OF q] by (cases "inorder t"; auto)+
qed

lemma pick_keeps:
  assumes i: "cfs_inv A c" and A: "entities A" and n: "cfs_curr c = 0" "nr_running c \<noteq> 0"
  obtains p c' where "pick_next_task_fair cfg c now = Some (p, c')" "cfs_inv A c'" "min_vr c' = min_vr c" "cfs_curr c' = p"
    "p \<in> A" "se_on_rq (ents c p)" "p \<in> {rb_leftmost c, cfs_next c, cfs_last c}"
    "\<And>a. a \<in> A \<Longrightarrow> se_on_rq (ents c a) \<Longrightarrow> sint (vr c p - vr c a) \<le> (if p = rb_leftmost c then 0 else buddy_slack cfg c p (rb_leftmost c))"
proof -
  obtain t where t: "cfs_queue A c t" "accounts A c" "buddies A c" using i by (auto simp: cfs_inv_def)
  let ?l = "rb_leftmost c"
  note l = nr_running_pos [OF t(1) n(2,1) A]
  obtain p c1 where p: "pick_next_entity cfg c = Some (p, clear_buddies c1 p)" "inv_filled c c1" "p \<noteq> 0" "p \<in> {?l, cfs_next c, cfs_last c}"
    "p = ?l \<or> sint (vr c p - vr c ?l) \<le> buddy_slack cfg c p ?l"
    by (rule pick_next_entity_spec [OF l(1)])
  have pA: "p \<in> A" "se_on_rq (ents c p)" "p \<in> set (inorder t)"
    using p(3,4) l(2) t(3) n(1) cfs_queueD(5) [OF t(1)] by (auto simp: buddies_def)
  let ?c2 = "clear_buddies c1 p"
  have q: "quiet t c c1" using quiet_filled [OF p(2)] .
  have q2: "quiet t c ?c2" using quiet_trans [OF q quiet_clear] .
  have b2: "buddies A ?c2" using buddies_clear(1) [OF buddies_quiet [OF q inv_filledD(10) [OF p(2)] t(3)]] .
  have "cfs_inv A ?c2" using quiet_queue [OF q2 t(1)] quiet_accounts [OF q2 t(2)] b2 by (auto simp: cfs_inv_def)
  moreover have c2: "cfs_curr ?c2 = 0" "min_vr ?c2 = min_vr c" using q2 n(1) by (simp_all add: quiet_def)
  ultimately obtain c' where c': "set_next_entity ?c2 now p = Some c'" "cfs_inv A c'" "min_vr c' = min_vr ?c2" "cfs_curr c' = p"
    using set_next_keeps [OF _ A pA(1)] by metis
  have "pick_next_task_fair cfg c now = Some (p, c')" using n(2) p(1) c'(1) by (simp add: pick_next_task_fair_def)
  moreover have "sint (vr c p - vr c a) \<le> (if p = ?l then 0 else buddy_slack cfg c p ?l)" if a: "a \<in> A" "se_on_rq (ents c a)" for a
  proof -
    have "a \<noteq> 0" using a(1) A by (auto simp: entities_def)
    then have at: "a \<in> set (inorder t)" using a n(1) cfs_queueD(5) [OF t(1)] by simp
    note o = cfs_queueD(2) [OF t(1)]
    have w: "in_window (sint (vr c x - min_vr c))" if "x \<in> set (inorder t)" for x using o that by (simp add: ordered_def entity_key_def)
    have le: "entity_key c ?l \<le> entity_key c a"
      using o at cfs_queueD(3) [OF t(1)] by (cases "inorder t") (auto simp: ordered_def)
    have "sint (vr c p - vr c a) = entity_key c p - entity_key c a" "sint (vr c p - vr c ?l) = entity_key c p - entity_key c ?l"
      using key_diff [OF w [OF pA(3)] w [OF at]] key_diff [OF w [OF pA(3)] w [OF l(2)]] by (simp_all add: entity_key_def)
    then show ?thesis using p(5) le by auto
  qed
  ultimately show ?thesis using that [of p c'] c' c2 pA p(4) by simp
qed

end
