(* ===== verification/Sched_Props.thy ===== *)
theory Sched_Props
  imports Sched_Machine
begin

text \<open>
  Runs of the fair class, and what holds in every state that a run reaches.
\<close>

section \<open>Runs\<close>

text \<open>
  The operations that the rest of the scheduler calls, each at a time of the clock. \<open>Switch\<close> is a context switch, which changes the
  task that the processor runs and clears or keeps its flag; \<open>Reweight\<close> is a new weight of a task that is not queued.
\<close>

datatype fair_op = Enqueue u64 u64 bool bool | Dequeue u64 u64 bool | Yield u64 | Waking u64 | Wakeup_preempt u64 u64 u32
  | Pick u64 | Put u64 | Tick u64 | Fork u64 u64 | Set_curr u64 | Switch u64 bool | Reweight u64 load_weight

fun fair_exec :: "sched_cfg \<Rightarrow> fair_op \<Rightarrow> cfs_rq \<Rightarrow> cfs_rq option" where
  "fair_exec cfg (Enqueue now a wakeup waking) c = enqueue_task_fair cfg c now a wakeup waking"
| "fair_exec cfg (Dequeue now a sleep) c = dequeue_task_fair c now a sleep"
| "fair_exec cfg (Yield now) c = yield_task_fair cfg c now"
| "fair_exec cfg (Waking a) c = Some (task_waking_fair c a)"
| "fair_exec cfg (Wakeup_preempt now p fl) c = check_preempt_wakeup cfg c now p fl"
| "fair_exec cfg (Pick now) c = map_option snd (pick_next_task_fair cfg c now)"
| "fair_exec cfg (Put now) c = put_prev_task_fair c now (cfs_curr c)"
| "fair_exec cfg (Tick now) c = task_tick_fair cfg c now (cfs_curr c)"
| "fair_exec cfg (Fork now a) c = Some (task_fork_fair cfg c now a)"
| "fair_exec cfg (Set_curr now) c = set_curr_task_fair c now"
| "fair_exec cfg (Switch cur f) c = Some (c\<lparr>rq_curr := cur, need_resched := f\<rparr>)"
| "fair_exec cfg (Reweight a lw) c = Some (upd_se c a (\<lambda>e. e\<lparr>se_load := lw\<rparr>))"

text \<open>
  What the callers guarantee: an operation is for a task that is queued or not queued as it expects, nothing runs when a task is
  picked, and the running task, charged up to now, and a task that is placed are within the window of the virtual time.
\<close>

fun fair_allowed :: "sched_cfg \<Rightarrow> u64 set \<Rightarrow> fair_op \<Rightarrow> cfs_rq \<Rightarrow> bool" where
  "fair_allowed cfg A (Enqueue now a wakeup waking) c \<longleftrightarrow> a \<in> A \<and>
     (se_on_rq (ents c a) \<or> cur_ok (normalize_vruntime c a (enqueue_flags wakeup waking)) now
        \<and> in_window (entity_key (enqueue_prepare cfg c now a (enqueue_flags wakeup waking)) a))"
| "fair_allowed cfg A (Dequeue now a sleep) c \<longleftrightarrow> a \<in> A \<and> se_on_rq (ents c a) \<and> cur_ok c now"
| "fair_allowed cfg A (Yield now) c \<longleftrightarrow> rq_curr c = cfs_curr c \<and> cur_ok c now"
| "fair_allowed cfg A (Waking a) c \<longleftrightarrow> a \<in> A \<and> \<not> se_on_rq (ents c a)"
| "fair_allowed cfg A (Wakeup_preempt now p fl) c \<longleftrightarrow> p \<in> A \<and> se_on_rq (ents c p) \<and> rq_curr c \<in> A \<and> cur_ok c now"
| "fair_allowed cfg A (Pick now) c \<longleftrightarrow> cfs_curr c = 0"
| "fair_allowed cfg A (Put now) c \<longleftrightarrow> cfs_curr c \<in> A \<and> (\<not> se_on_rq (ents c (cfs_curr c)) \<or> cur_ok c now)"
| "fair_allowed cfg A (Tick now) c \<longleftrightarrow> cur_ok c now"
| "fair_allowed cfg A (Fork now a) c \<longleftrightarrow> a \<in> A \<and> \<not> se_on_rq (ents c a) \<and> cur_ok c now"
| "fair_allowed cfg A (Set_curr now) c \<longleftrightarrow> cfs_curr c = 0 \<and> rq_curr c \<in> A"
| "fair_allowed cfg A (Switch cur f) c \<longleftrightarrow> True"
| "fair_allowed cfg A (Reweight a lw) c \<longleftrightarrow> \<not> se_on_rq (ents c a)"

inductive fair_run :: "sched_cfg \<Rightarrow> u64 set \<Rightarrow> cfs_rq \<Rightarrow> fair_op list \<Rightarrow> cfs_rq \<Rightarrow> bool" for cfg A c0 where
  run_start: "fair_run cfg A c0 [] c0"
| run_step: "fair_run cfg A c0 ops c \<Longrightarrow> fair_allowed cfg A op c \<Longrightarrow> fair_exec cfg op c = Some c' \<Longrightarrow> fair_run cfg A c0 (ops @ [op]) c'"

text \<open>A queue that \<^verbatim>\<open>init_cfs_rq\<close> has set up: the nodes of the tasks are allocated and no task is queued.\<close>

definition fresh_rq :: "u64 set \<Rightarrow> cfs_rq \<Rightarrow> bool" where
  "fresh_rq A c \<longleftrightarrow> rb_top (timeline c) = 0 \<and> A \<subseteq> dom (rb_nodes (timeline c)) \<and> cfs_tasks c = [] \<and> rb_leftmost c = 0
     \<and> nr_running c = 0 \<and> weight (cfs_load c) = 0 \<and> cfs_curr c = 0 \<and> cfs_next c = 0 \<and> cfs_last c = 0
     \<and> (\<forall>a \<in> A. \<not> se_on_rq (ents c a))"

lemma fresh_inv:
  assumes "fresh_rq A c" "entities A"
  shows "cfs_inv A c"
proof -
  have "cfs_queue A c Tip" using assms
    by (auto simp: fresh_rq_def cfs_queue_def holds_tree_def ordered_def rb_tree_def rb_valid_def red_black_def entities_def)
  moreover have "accounts A c" "buddies A c" using assms by (auto simp: fresh_rq_def accounts_def buddies_def)
  ultimately show ?thesis by (auto simp: cfs_inv_def)
qed

lemma exec_keeps:
  assumes i: "cfs_inv A c" and A: "entities A" and ok: "fair_allowed cfg A op c"
  shows "keeps A c (fair_exec cfg op c)"
proof (cases op)
  case (Pick now)
  then have n: "cfs_curr c = 0" using ok by simp
  show ?thesis
  proof (cases "nr_running c = 0")
    case True
    then show ?thesis using Pick i by (simp add: pick_next_task_fair_def keeps_def)
  next
    case False
    show ?thesis by (rule pick_keeps [OF i A n False, of cfg now]) (simp add: Pick keeps_def)
  qed
next
  case (Set_curr now)
  then have n: "cfs_curr c = 0" "rq_curr c \<in> A" using ok by simp_all
  show ?thesis by (rule set_next_keeps [OF i A n(2,1), of now]) (simp add: Set_curr set_curr_task_fair_def keeps_def)
next
  case (Switch cur f)
  have "buddies A (c\<lparr>rq_curr := cur, need_resched := f\<rparr>)" using i by (simp add: cfs_inv_def buddies_def)
  then show ?thesis unfolding Switch fair_exec.simps by (intro keeps_quiet [OF i]) (simp_all add: quiet_def acct_frame)
qed (use ok in \<open>auto intro: enqueue_task_keeps [OF i A] dequeue_task_keeps [OF i A] yield_keeps [OF i] waking_keeps [OF i]
  preempt_keeps [OF i _ A] put_prev_keeps [OF i A] tick_keeps [OF i] fork_keeps [OF i] reweight_keeps [OF i]\<close>)

lemma run_inv: "fair_run cfg A c0 ops c \<Longrightarrow> fresh_rq A c0 \<Longrightarrow> entities A \<Longrightarrow> cfs_inv A c"
proof (induction rule: fair_run.induct)
  case run_start
  then show ?case by (rule fresh_inv)
next
  case (run_step ops c op c')
  then have "keeps A c (fair_exec cfg op c)" by (intro exec_keeps)
  then show ?case using run_step by (simp add: keeps_def)
qed

lemma nr_running_tasks:
  assumes "cfs_queue A c t" "accounts A c"
  shows "nr_running c = of_nat (length (cfs_tasks c))"
proof -
  let ?on = "{a \<in> A. se_on_rq (ents c a)}"
  have s: "set (inorder t) = {a \<in> A. se_on_rq (ents c a) \<and> a \<noteq> cfs_curr c}" using assms(1) by (simp add: cfs_queue_def)
  have d: "distinct (inorder t)" using assms(1) by (simp add: cfs_queue_def holds_tree_def rb_tree_def rb_valid_def)
  have on: "?on = set (cfs_tasks c)" "distinct (cfs_tasks c)" using assms(2) by (auto simp: accounts_def)
  then have fin: "finite ?on" by simp
  have "length (cfs_tasks c) = card ?on" using on distinct_card [OF on(2)] by simp
  also have "\<dots> = length (inorder t) + (if cfs_curr c \<in> ?on then 1 else 0)"
  proof -
    have "set (inorder t) = ?on - {cfs_curr c}" using s by auto
    then have "length (inorder t) = card (?on - {cfs_curr c})" using distinct_card [OF d] by simp
    then show ?thesis using fin card_Diff_singleton_if [of ?on "cfs_curr c"] card_gt_0_iff [of ?on] by auto
  qed
  finally show ?thesis using assms(1) by (simp add: cfs_queue_def)
qed

section \<open>An example run\<close>

definition nice_0 :: sched_entity where
  "nice_0 = \<lparr>se_load = \<lparr>weight = 1024, inv_weight = 0\<rparr>, se_on_rq = False, exec_start = 0, sum_exec_runtime = 0, vruntime = 0,
     prev_sum_exec_runtime = 0, avg_overlap = 0, avg_wakeup = 0, avg_running = 0, policy = SCHED_NORMAL, prio = 120, fair_class = True\<rparr>"

text \<open>Two tasks of the default weight and an empty queue.\<close>

definition idle_rq :: cfs_rq where
  "idle_rq = init_cfs_rq \<lparr>cfs_load = \<lparr>weight = 0, inv_weight = 0\<rparr>, nr_running = 0, min_vr = 0,
     timeline = \<lparr>rb_nodes = (\<lambda>a. if a = 8 \<or> a = 16 then Some \<lparr>rb_parent_color = 0, rb_right = 0, rb_left = 0\<rparr> else None), rb_top = 0\<rparr>,
     rb_leftmost = 0, cfs_tasks = [], cfs_curr = 0, cfs_next = 0, cfs_last = 0, ents = (\<lambda>a. nice_0),
     rq_load = \<lparr>weight = 0, inv_weight = 0\<rparr>, rq_curr = 0, rq_idle = 0, need_resched = False\<rparr>"

lemma idle_rq_fresh: "fresh_rq {8, 16} idle_rq" "entities {8, 16}"
  by (auto simp: fresh_rq_def idle_rq_def init_cfs_rq_def nice_0_def entities_def aligned_def RB_ROOT_def)

text \<open>A run as a function.\<close>

fun fair_trace :: "sched_cfg \<Rightarrow> u64 set \<Rightarrow> fair_op list \<Rightarrow> cfs_rq \<Rightarrow> cfs_rq option" where
  "fair_trace cfg A [] c = Some c"
| "fair_trace cfg A (op # ops) c =
     (if fair_allowed cfg A op c then Option.bind (fair_exec cfg op c) (fair_trace cfg A ops) else None)"

lemma fair_trace_run: "fair_run cfg A c0 ops0 c \<Longrightarrow> fair_trace cfg A ops c = Some c' \<Longrightarrow> fair_run cfg A c0 (ops0 @ ops) c'"
proof (induction ops arbitrary: ops0 c)
  case Nil
  then show ?case by simp
next
  case (Cons op ops)
  obtain c1 where c1: "fair_allowed cfg A op c" "fair_exec cfg op c = Some c1" "fair_trace cfg A ops c1 = Some c'"
    using Cons.prems(2) by (auto split: if_splits Option.bind_splits)
  then have "fair_run cfg A c0 (ops0 @ [op]) c1" using run_step [OF Cons.prems(1)] by blast
  then show ?case using Cons.IH [OF _ c1(3)] by fastforce
qed

text \<open>Two tasks wake up, one runs for 3 ms, is preempted by the tick and goes back.\<close>

definition demo_ops :: "fair_op list" where
  "demo_ops = [Enqueue 1000000 8 False False, Enqueue 1000000 16 False False, Pick 1000000, Switch 8 False, Tick 4000000, Put 4000000]"

lemma demo_trace:
  "case fair_trace default_cfg {8, 16} demo_ops idle_rq of None \<Rightarrow> False
   | Some c \<Rightarrow> nr_running c = 2 \<and> cfs_curr c = 0 \<and> rb_leftmost c = 16 \<and> need_resched c \<and> vr c 8 - vr c 16 = 3000000
       \<and> cfs_next c = 0 \<and> cfs_last c = 0 \<and> se_on_rq (ents c 8) \<and> se_on_rq (ents c 16)"
  by code_simp

lemma demo_run:
  obtains c where "fair_run default_cfg {8, 16} idle_rq demo_ops c" "nr_running c = 2" "cfs_curr c = 0" "rb_leftmost c = 16"
    "cfs_next c = 0" "cfs_last c = 0" "se_on_rq (ents c 8)" "se_on_rq (ents c 16)"
  using demo_trace fair_trace_run [OF run_start, of default_cfg "{8, 16}" demo_ops idle_rq] that by (auto split: option.splits)

section \<open>Properties\<close>

text \<open>
  C15: in every state that a run of the fair class reaches from an empty queue, the entities that are queued and not running are the
  nodes of a red-black tree in the order of their virtual run times, \<^verbatim>\<open>rb_leftmost\<close> is the first of them, and the list
  of tasks, \<^verbatim>\<open>nr_running\<close> and the load count the queued tasks: each once, and each with its weight.
\<close>

theorem fair_queue_invariant:
  assumes "fair_run cfg A c0 ops c" "fresh_rq A c0" "entities A"
  shows "(\<exists>t. rb_tree (rb_nodes (timeline c)) (timeline c) t \<and> red_black t \<and> sorted (map (entity_key c) (inorder t))
      \<and> set (inorder t) = {a \<in> A. se_on_rq (ents c a) \<and> a \<noteq> cfs_curr c} \<and> rb_leftmost c = hd (inorder t @ [0]))
    \<and> distinct (cfs_tasks c) \<and> set (cfs_tasks c) = {a \<in> A. se_on_rq (ents c a)}
    \<and> nr_running c = of_nat (length (cfs_tasks c)) \<and> weight (cfs_load c) = (\<Sum>a\<leftarrow>cfs_tasks c. weight (se_load (ents c a)))"
proof -
  obtain t where t: "cfs_queue A c t" "accounts A c" using run_inv [OF assms] by (auto simp: cfs_inv_def)
  then show ?thesis using nr_running_tasks [OF t] by (auto simp: cfs_queue_def holds_tree_def ordered_def accounts_def)
qed

theorem fair_queue_invariant_witness:
  "\<exists>c. fair_run default_cfg {8, 16} idle_rq demo_ops c \<and> set (cfs_tasks c) = {8, 16} \<and> nr_running c = of_nat (length (cfs_tasks c)) \<and> rb_leftmost c = 16"
proof -
  obtain c where c: "fair_run default_cfg {8, 16} idle_rq demo_ops c" "se_on_rq (ents c 8)" "se_on_rq (ents c 16)" "rb_leftmost c = 16"
    by (rule demo_run)
  then show ?thesis using fair_queue_invariant [OF c(1) idle_rq_fresh] by auto
qed

text \<open>
  C17: in every state that a run reaches, every operation that its caller may call returns: no pointer is followed that is not valid
  and no loop runs forever. And it does not move the minimum of the virtual run times back.
\<close>

theorem fair_operations_return:
  assumes "fair_run cfg A c0 ops c" "fresh_rq A c0" "entities A" "fair_allowed cfg A op c"
  shows "\<exists>c'. fair_exec cfg op c = Some c' \<and> 0 \<le> sint (min_vr c' - min_vr c)"
  using exec_keeps [OF run_inv [OF assms(1-3)] assms(3,4)] by (auto simp: keeps_def)

theorem fair_operations_return_witness:
  "\<exists>c c'. fair_run default_cfg {8, 16} idle_rq demo_ops c \<and> pick_next_task_fair default_cfg c 5000000 = Some c' \<and> 0 \<le> sint (min_vr (snd c') - min_vr c)"
proof -
  obtain c where c: "fair_run default_cfg {8, 16} idle_rq demo_ops c" "cfs_curr c = 0" by (rule demo_run)
  have "fair_allowed default_cfg {8, 16} (Pick 5000000) c" using c(2) by simp
  then show ?thesis using fair_operations_return [OF c(1) idle_rq_fresh, of "Pick 5000000"] c(1) by auto
qed

text \<open>
  C16: when a task is queued and none runs, \<^verbatim>\<open>pick_next_task_fair\<close> picks a queued task and makes it the running one; it is the first
  of the tree, whose virtual run time is not after that of any queued task, or a buddy, whose virtual run time is after that of every
  queued task by at most the wake-up granularity. Without buddies it is the first.
\<close>

theorem fair_pick_least:
  assumes "fair_run cfg A c0 ops c" "fresh_rq A c0" "entities A" "cfs_curr c = 0" "nr_running c \<noteq> 0"
  shows "\<exists>p c'. pick_next_task_fair cfg c now = Some (p, c') \<and> p \<in> A \<and> se_on_rq (ents c p) \<and> cfs_curr c' = p
    \<and> p \<in> {rb_leftmost c, cfs_next c, cfs_last c}
    \<and> (\<forall>a \<in> A. se_on_rq (ents c a) \<longrightarrow>
         sint (vr c p - vr c a) \<le> (if p = rb_leftmost c then 0 else max 0 (sint (fst (wakeup_gran cfg c p (rb_leftmost c))))))"
proof -
  obtain p c' where "pick_next_task_fair cfg c now = Some (p, c')" "cfs_curr c' = p" "p \<in> A" "se_on_rq (ents c p)"
    "p \<in> {rb_leftmost c, cfs_next c, cfs_last c}"
    "\<And>a. a \<in> A \<Longrightarrow> se_on_rq (ents c a) \<Longrightarrow> sint (vr c p - vr c a) \<le> (if p = rb_leftmost c then 0 else buddy_slack cfg c p (rb_leftmost c))"
    using pick_keeps [OF run_inv [OF assms(1-3)] assms(3-5)] by metis
  then show ?thesis unfolding buddy_slack_def by blast
qed

theorem fair_pick_least_witness:
  "\<exists>c c'. fair_run default_cfg {8, 16} idle_rq demo_ops c \<and> pick_next_task_fair default_cfg c 5000000 = Some (16, c') \<and> sint (vr c 16 - vr c 8) \<le> 0"
proof -
  obtain c where c: "fair_run default_cfg {8, 16} idle_rq demo_ops c" "nr_running c = 2" "cfs_curr c = 0" "rb_leftmost c = 16"
    "cfs_next c = 0" "cfs_last c = 0" "se_on_rq (ents c 8)" by (rule demo_run)
  then show ?thesis using fair_pick_least [OF c(1) idle_rq_fresh c(3), of 5000000] by auto
qed

end
