(* ===== verification/Spec2Isabelle.thy ===== *)
theory Spec2Isabelle
  imports Event_Props Locks String_Props Creds Kfifo Rw_Semaphore Mutex Completion Extable Rbtree_Thms Sched_Props
begin

text \<open>
  A verification of parts of a Linux 2.6.32.63 kernel to which an event facility has been added
  (src/linux-2.6.32.63/csc456/eventsyscalls.c): processes open events, wait for them, signal them, close them and change
  who may do so. The facility stands on the doubly linked lists, the wait queues, the read-write spin lock and the
  credentials of the kernel. The development models it together with these, and further parts of the kernel that can be
  modelled completely: strings, sorting, exception tables, byte queues, the sleeping locks, red-black trees and, on top of these, the run
  queue of the fair scheduling class. The model is that of the
  repository's configuration: x86-64, several processors, \<^verbatim>\<open>CONFIG_DEBUG_LIST\<close>, the capability security module.

  \<^bold>\<open>Conventions.\<close> An operation that can touch memory returns an option; \<^term>\<open>None\<close> is undefined behaviour of the C
  code or a loop that never ends. So \<open>op s = Some s'\<close> also says that the operation returns and follows no null, poisoned
  or freed pointer. Structures are records, pointers to structures abstract addresses, raw memory a partial map from addresses to
  bytes. Machine words keep their width; \<^verbatim>\<open>int\<close> is an integer that \<open>cint\<close> wraps where it can overflow. A critical section of
  a spin lock is one step where every access to the data is inside one; where it is not (the counter of a mutex,
  the indices of a byte queue, the two critical sections of \<^verbatim>\<open>sys_doeventclose\<close>), every step that other processors can
  interleave with is a definition of its own. A function that sleeps is split where it calls the scheduler.

  \<^bold>\<open>The theories.\<close>

  \<^item> \<open>Prelude\<close>: machine types, error numbers, pointers, shared lemmas.

  \<^item> \<open>Kernel_List\<close>: include/linux/list.h and lib/list_debug.c over a heap of links; the predicate \<open>is_list\<close> and
    what every operation does to the list it stands for; the locale of an abstract list and its interpretation.

  \<^item> \<open>Wait_Queue\<close>: include/linux/wait.h, kernel/wait.c, and of kernel/sched.c the waking functions and the part of \<^verbatim>\<open>schedule\<close> that takes a
    sleeping task off the run queue. The turns of the other tasks during a sleep are an argument.

  \<^item> \<open>Events\<close>: the eight system calls and \<^verbatim>\<open>doevent_init\<close>; one definition for each handler. \<open>Event_Inv\<close>: the invariant
    \<open>kinv\<close> of the event table and a specification of every call. \<open>Event_Machine\<close>: all calls, signals and wake-ups as
    steps of a machine, and that the invariant holds in every state it reaches. \<open>Event_Props\<close>: what the calls do, and
    where they go wrong: use after free, lost wake-up, double free, uninitialised pointer, wrong result, wrap-around.

  \<^item> \<open>Locks\<close>: the ticket lock and the read-write lock of arch/x86/include/asm/spinlock.h, instruction by
    instruction; exclusion for any interleaving of the processors, and refinement of a queue by the ticket lock.

  \<^item> \<open>Ctype\<close>, \<open>String_Lib\<close>, \<open>String_Props\<close>: include/linux/ctype.h, lib/ctype.c and lib/string.c on byte memory.

  \<^item> \<open>Heap_Sort\<close>: lib/sort.c on byte memory, proved through the same algorithm on a list; the locale \<open>comparison\<close> states what
    it needs of the comparison function. \<open>Extable\<close> interprets it with the comparison of the exception tables
    (lib/extable.c, arch/x86/mm/extable.c, and the searches of kernel/extable.c and kernel/module.c).

  \<^item> \<open>Group_Info\<close>: kernel/groups.c, the block structure, its Shell sort and its binary search. \<open>Creds\<close>: the calls of
    kernel/sys.c that set and get user and group identifiers, kernel/capability.c, the hooks of security/commoncap.c they
    use, and what any sequence of these calls can and cannot achieve.

  \<^item> \<open>Kfifo\<close>: kernel/kfifo.c; a refinement of a bounded queue, and a machine of one reader and one writer without a lock.

  \<^item> \<open>Sleep_Locks\<close>: kernel/semaphore.c. \<open>Rw_Semaphore\<close>: lib/rwsem-spinlock.c, the version for configurations without an assembly
    one. \<open>Mutex\<close>: kernel/mutex.c with the fast paths of arch/x86/include/asm/mutex_64.h. Each has a machine of tasks that use the
    lock and an invariant that gives exclusion and that no wake-up is lost. \<open>Completion\<close>: the completions of kernel/sched.c, with the same
    kind of machine; its two ways of waking are refined by the wake-up of \<open>Wait_Queue\<close>.

  \<^item> \<open>Rbtree\<close>: lib/rbtree.c and include/linux/rbtree.h, with the parent address and the colour packed into one word.
    \<open>Rbtree_Heap\<close>: when the nodes in memory are a tree, the tree seen from a position inside it, the rotations; the left and the
    right half of the code are mirror images, so one half is proved. \<open>Rbtree_Insert\<close> and \<open>Rbtree_Erase\<close>: both loops with their
    invariants. \<open>Rbtree_Props\<close>: the walks, replacement, depth, and the locale \<open>rb_client\<close>, the interface to users that keep the nodes
    sorted. \<open>Rbtree_Thms\<close>: what the library promises.

  \<^item> \<open>Sched_Fair\<close>: the run queue and the methods of kernel/sched_fair.c, with the load arithmetic of kernel/sched.c. \<open>Sched_Queue\<close> interprets
    \<open>rb_client\<close> with the search of \<^verbatim>\<open>__enqueue_entity\<close> and shows that every operation keeps the queue sorted by virtual run
    time; \<open>Sched_Account\<close> that it keeps the counts and weights; \<open>Sched_Pick\<close> the choice between the first entity and the buddies.
    \<open>Sched_Machine\<close>: one lemma for each method. \<open>Sched_Props\<close>: sequences of the methods, in an order that their callers may use,
    and what holds in every state.

  \<^item> This theory joins credentials and events.

  \<^bold>\<open>Loops and bounds.\<close> No definition uses fuel. Walks over linked lists and over strings are partial functions whose
  value \<^term>\<open>None\<close> means that they do not end or leave the memory, and the theorems show that they return; the other
  loops are recursions with a termination proof. Hypotheses on sizes are those of the code: an array to sort has
  at most \<^verbatim>\<open>INT_MAX\<close> bytes, because the counters of \<^verbatim>\<open>sort\<close> are of type \<^verbatim>\<open>int\<close>; fewer than 256 processors use a ticket
  lock; a semaphore counts to less than 2^31, a completion to less than 2^32. The counter of a mutex and the activity of a reader-writer semaphore are not wrapped: each
  task contributes at most one to them, and there are fewer than 2^31 tasks. Virtual run times are 64-bit words that wrap around and are
  compared by the sign of their difference; the hypothesis \<open>in_window\<close> says that those of one queue lie within 2^62 of the minimum, about 146
  years of run time at the default weight.

  \<^bold>\<open>Not modelled.\<close> The memory model of the processors (steps are interleaved in one order; the barriers
  of the code are what makes this adequate); interrupts, preemption at arbitrary points;
  of the fair class group scheduling, load balancing between processors and the changes of class and priority; the real-time class;
  reference counts of credentials and tasks; security modules other than the capability module; kmalloc, copy_from_user and
  copy_to_user themselves, whose results are arguments or follow a map of user memory; the assembly versions of string functions
  and of the reader-writer semaphore; lock debugging. The file systems, networking, drivers and the remaining subsystems of the kernel
  are not reached by the modelled calls.
\<close>

section \<open>Credentials and events together\<close>

text \<open>\<^verbatim>\<open>commit_creds\<close> assigns \<^verbatim>\<open>task->cred\<close>, from which \<^verbatim>\<open>getTaskuid\<close> and \<^verbatim>\<open>getTaskgid\<close> read: the credentials of a process
  reach the event calls as the two fields of its task.\<close>

definition assign_cred :: "kstate \<Rightarrow> addr \<Rightarrow> cred \<Rightarrow> kstate" where
  "assign_cred s cur c =
     s\<lparr>tasks := (tasks s)(cur := map_option (\<lambda>t. t\<lparr>t_euid := cr_euid c, t_egid := cr_egid c\<rparr>) (tasks s cur))\<rparr>"

lemma assign_cred_frame [simp]:
  "lists (assign_cred s cur c) = lists s" "waits (assign_cred s cur c) = waits s" "events (assign_cred s cur c) = events s"
  by (simp_all add: assign_cred_def)

lemma kinv_assign_cred: "kinv s es qs \<Longrightarrow> kinv (assign_cred s cur c) es qs"
proof -
  assume k: "kinv s es qs"
  have "waiter (assign_cred s cur c) w = waiter s w" for w by (auto simp: waiter_def assign_cred_def)
  then show ?thesis using k by (simp add: kinv_def ev_def ev_ids_def on_queue_def ev_waiter_def)
qed

text \<open>
  C40: The access control of the events composes with the one of the credentials. A process that is not the superuser's
  and has neither the capability to set user identifiers nor the one to set group identifiers can
  make any sequence of credential calls: an event of a foreign user and a foreign group stays out of
  its reach. To signal it, to close it, to wait for it, to change its owner and to change its
  flags all return -1 and change nothing.
\<close>

theorem foreign_event_out_of_reach:
  assumes "kinv s es qs" "tasks s cur \<noteq> None" "es \<noteq> []"
    and "cred_reach c c'" "cap_issubset (cap_effective (cred_of c)) (cap_permitted (cred_of c))"
    and "\<not> cap_raised (cap_permitted (cred_of c)) CAP_SETUID" "\<not> cap_raised (cap_permitted (cred_of c)) CAP_SETGID"
    and "0 \<notin> uids (cred_of c)"
    and "\<forall>a \<in> set es. ev_id (ev s a) = i \<longrightarrow> ev_uid (ev s a) \<notin> uids (cred_of c) \<and> ev_gid (ev s a) \<notin> sys_gids (cred_of c)"
  defines "s' \<equiv> assign_cred s cur (cred_of c')"
  shows "sys_doeventsig s' cur i = Some (s', - 1) \<and> sys_doeventclose s' cur i = Some (s', - 1)
    \<and> sys_doeventwait s' cur w env i = Some (Returned s' (- 1))
    \<and> sys_doeventchown s' cur junk i u g = Some (s', - 1) \<and> sys_doeventchmod s' cur junk i uf gf = Some (s', - 1)"
proof -
  have k: "kinv s' es qs" unfolding s'_def by (rule kinv_assign_cred [OF assms(1)])
  obtain t where t: "tasks s' cur = Some t" "t_euid t = cr_euid (cred_of c')" "t_egid t = cr_egid (cred_of c')"
    using assms(2) by (auto simp: s'_def assign_cred_def)
  have e: "ev s' a = ev s a" for a by (simp add: ev_def s'_def)
  from cred_reach_inv [OF assms(4,5)] assms(6,7)
  have "uids (cred_of c') \<subseteq> uids (cred_of c)" "sys_gids (cred_of c') \<subseteq> sys_gids (cred_of c)" by simp_all
  then have id: "t_euid t \<in> uids (cred_of c)" "t_egid t \<in> sys_gids (cred_of c)"
    using t(2,3) by (auto simp: uids_def sys_gids_def)
  have foreign: "t_euid t \<noteq> 0" using id(1) assms(8) by metis
  have foreign_ev: "t_euid t \<noteq> ev_uid (ev s a) \<and> t_egid t \<noteq> ev_gid (ev s a)" if "a \<in> set es" "ev_id (ev s a) = i" for a
    using id assms(9) that by metis
  have "Event_Inv.granted s' es cur i = None"
    using granted_Some [of s' es cur i] foreign foreign_ev t(1) by (cases "Event_Inv.granted s' es cur i") (auto simp: may_use_def e)
  moreover have "owned s' es cur i = None"
    using owned_Some [of s' es cur i] foreign foreign_ev t(1) by (cases "owned s' es cur i") (auto simp: may_change_def e)
  ultimately show ?thesis
    using calls_denied [OF k t(1)] chown_chmod_spec [OF k t(1), of junk i] assms(3) by simp
qed

theorem foreign_event_out_of_reach_witness:
  "\<exists>c'. cred_reach (demo_cstate (user_cred\<lparr>cr_uid := 1001\<rparr>)) c' \<and> cr_euid (cred_of c') = 1001
    \<and> sys_doeventclose (assign_cred demo_open 3 (cred_of c')) 3 0 = Some (assign_cred demo_open 3 (cred_of c'), - 1)"
proof -
  let ?c = "demo_cstate (user_cred\<lparr>cr_uid := 1001\<rparr>)"
  let ?c' = "fst (setreuid demo_calloc ?c 500 1001)"
  have r: "cred_reach ?c ?c'" using cred_call [OF cred_refl, of demo_calloc "Setreuid 500 1001"] by simp
  have "cr_euid (cred_of ?c') = 1001" by code_simp
  moreover have "sys_doeventclose (assign_cred demo_open 3 (cred_of ?c')) 3 0 = Some (assign_cred demo_open 3 (cred_of ?c'), - 1)"
    using foreign_event_out_of_reach [OF demo_open_facts(2) _ _ r, of 3 0]
    by (simp add: demo_open_facts opened_def demo_task_def demo_cstate_def user_cred_def uids_def sys_gids_def)
  ultimately show ?thesis using r by blast
qed

end
